(* ===== verification/Bridge_Prelude.thy ===== *)
theory Bridge_Prelude
  imports Main "HOL-Library.Word" "HOL-Library.Monad_Syntax"
begin

text \<open>
  Shared ground of the development: the fixed-width integer types of the C++ headers, the
  pointer and memory model, the convention for undefined behaviour, and the arithmetic and
  option lemmas that every component proof uses.

  A C++ function is modelled by a HOL function into \<open>'a option\<close> as soon as it can read
  caller-owned storage or contains a loop whose exit depends on that storage. \<open>None\<close> means
  that the C++ execution has no defined result (a read or write outside of the backing
  array, or a loop that does not return); every ordinary error of the code is a value of
  the status enumerations and sits inside \<open>Some\<close>.
\<close>

section \<open>Fixed-width integers\<close>

type_synonym u8 = "8 word"
type_synonym u16 = "16 word"
type_synonym u32 = "32 word"

named_theorems width_simps \<open>translation of fixed-width arithmetic into natural numbers\<close>

lemma unat_u16_bound [simp]: "unat (x :: u16) < 65536"
  using unsigned_less [of x, where ?'a = nat] by simp

lemma unat_u16_le [simp]: "unat (x :: u16) \<le> 65535"
  using unat_u16_bound [of x] by linarith

lemma unat_widen [width_simps]: "unat (ucast (x :: u16) :: u32) = unat x"
  by (simp add: unsigned_ucast_eq take_bit_nat_eq_self less_trans [OF unat_u16_bound])

lemma unat_widen_sum [width_simps]:
  "unat (ucast (a :: u16) + ucast (b :: u16) :: u32) = unat a + unat b"
proof -
  have "unat a + unat b < 2 ^ LENGTH(32)"
    using unat_u16_bound [of a] unat_u16_bound [of b] by (simp del: unat_u16_bound)
  then show ?thesis
    by (simp add: unat_word_ariths width_simps take_bit_eq_mod mod_less)
qed

lemma unat_narrow [width_simps]: "unat (ucast (x :: u32) :: u16) = unat x mod 65536"
  by (simp add: unsigned_ucast_eq take_bit_eq_mod)

lemma unat_plus_u16 [width_simps]:
  "unat (a + b :: u16) = (unat a + unat b) mod 65536"
  by (simp add: unat_word_ariths)

lemma unat_minus_u16:
  "b \<le> a \<Longrightarrow> unat (a - b :: u16) = unat a - unat b"
  by (rule unat_sub)

lemma unat_eq_iff: "(a :: 'a::len word) = b \<longleftrightarrow> unat a = unat b"
  by (simp add: word_unat_eq_iff)

lemmas unat_order = word_le_nat_alt word_less_nat_alt unat_eq_iff

lemma unat_pos_iff: "(0 < unat (x :: 'a::len word)) = (x \<noteq> 0)"
  by (simp add: unat_gt_0)

lemma unat_advance:
  assumes "unat (k :: u16) \<le> unat n" "unat a + unat n \<le> 65536"
  shows "unat (n - k) = unat n - unat k"
    and "n - k \<noteq> 0 \<Longrightarrow> unat (a + k) = unat a + unat k"
proof -
  show d: "unat (n - k) = unat n - unat k"
    using assms(1) by (simp add: unat_sub word_le_nat_alt)
  assume "n - k \<noteq> 0"
  then have "0 < unat (n - k)" by (simp add: unat_gt_0)
  with d assms(2) show "unat (a + k) = unat a + unat k" by (simp add: width_simps)
qed

lemma unat_Suc_below:
  assumes "unat (x :: u16) < unat (y :: u16)"
  shows "unat (x + 1) = Suc (unat x)"
proof -
  have "Suc (unat x) < 65536" using assms unat_u16_bound [of y] by linarith
  then show ?thesis by (simp add: width_simps)
qed

lemma unat_minus_mod: "unat (y - x :: u16) = (unat y + (65536 - unat x)) mod 65536"
proof -
  obtain a b where ab: "unat x = a" "unat y = b" by blast
  have "a < 65536" "b < 65536" using ab unat_u16_bound [of x] unat_u16_bound [of y] by auto
  moreover have "unat (y - x) = (if a \<le> b then b - a else b + 65536 - a)"
    unfolding unat_sub_if' ab by simp
  ultimately show ?thesis by (simp add: ab mod_if)
qed

lemma all_interval_split:
  assumes "k \<le> (n :: nat)"
  shows "(\<forall>x. c \<le> x \<and> x < c + n \<longrightarrow> P x) \<longleftrightarrow>
    (\<forall>x. c \<le> x \<and> x < c + k \<longrightarrow> P x) \<and> (\<forall>x. c + k \<le> x \<and> x < c + k + (n - k) \<longrightarrow> P x)"
proof -
  have "c \<le> x \<and> x < c + n \<longleftrightarrow> c \<le> x \<and> x < c + k \<or> c + k \<le> x \<and> x < c + k + (n - k)" for x
    using assms by linarith
  then show ?thesis by blast
qed

section \<open>Pointers and memory\<close>

text \<open>
  A pointer is null or an element position inside an allocated block. The type variable
  stands for the pointee type of the C++ pointer; \<open>void*\<close> is \<open>unit ptr\<close>, and
  \<open>cast_ptr\<close> is \<open>static_cast\<close> between pointer types.
\<close>

datatype 'v ptr = Null | Ptr nat nat

type_synonym void_ptr = "unit ptr"

fun cast_ptr :: "'a ptr \<Rightarrow> 'b ptr" where
  "cast_ptr Null = Null"
| "cast_ptr (Ptr b k) = Ptr b k"

fun ptr_add :: "'v ptr \<Rightarrow> u16 \<Rightarrow> 'v ptr" where
  "ptr_add Null n = Null"
| "ptr_add (Ptr b k) n = Ptr b (k + unat n)"

lemma cast_ptr_cast [simp]: "cast_ptr (cast_ptr p :: 'b ptr) = (cast_ptr p :: 'c ptr)"
  by (cases p) auto

lemma cast_ptr_same [simp]: "cast_ptr p = (p :: 'a ptr)"
  by (cases p) auto

lemma cast_ptr_Null_iff [simp]: "(cast_ptr p = Null) = (p = Null)"
  by (cases p) auto

text \<open>One typed memory: a partial map from blocks to their elements.\<close>

type_synonym 'v mem = "nat \<Rightarrow> 'v list option"

fun mem_read :: "'v mem \<Rightarrow> 'v ptr \<Rightarrow> nat \<Rightarrow> 'v list option" where
  "mem_read m Null n = None"
| "mem_read m (Ptr b k) n =
     (case m b of
        None \<Rightarrow> None
      | Some xs \<Rightarrow> if k + n \<le> length xs then Some (take n (drop k xs)) else None)"

fun mem_write :: "'v mem \<Rightarrow> 'v ptr \<Rightarrow> 'v list \<Rightarrow> 'v mem option" where
  "mem_write m Null vs = None"
| "mem_write m (Ptr b k) vs =
     (case m b of
        None \<Rightarrow> None
      | Some xs \<Rightarrow>
          if k + length vs \<le> length xs
          then Some (m(b \<mapsto> take k xs @ vs @ drop (k + length vs) xs)) else None)"

definition mem_load :: "'v mem \<Rightarrow> 'v ptr \<Rightarrow> 'v option" where
  "mem_load m p = map_option hd (mem_read m p 1)"

text \<open>Two element ranges of one memory that share an element.\<close>

fun overlap :: "'v ptr \<Rightarrow> 'v ptr \<Rightarrow> nat \<Rightarrow> bool" where
  "overlap (Ptr b k) (Ptr c l) n = (b = c \<and> k < l + n \<and> l < k + n)"
| "overlap _ _ n = False"

text \<open>\<open>memcpy\<close>: undefined on overlapping ranges and outside of either block.\<close>

definition mem_copy :: "'v mem \<Rightarrow> 'v ptr \<Rightarrow> 'v ptr \<Rightarrow> nat \<Rightarrow> 'v mem option" where
  "mem_copy m dst src n =
     (if overlap dst src n then None
      else do { vs \<leftarrow> mem_read m src n; mem_write m dst vs })"

lemma mem_read_length: "mem_read m p n = Some vs \<Longrightarrow> length vs = n"
  by (cases p) (auto split: option.splits if_splits)

lemma mem_read_SomeE:
  assumes "mem_read m p n = Some vs"
  obtains b k xs where "p = Ptr b k" "m b = Some xs" "k + n \<le> length xs"
    "vs = take n (drop k xs)"
  using assms by (cases p) (auto split: option.splits if_splits)

lemma mem_read_sub:
  assumes "mem_read m p n = Some vs" and "unat i + j \<le> n"
  shows "mem_read m (ptr_add p i) j = Some (take j (drop (unat i) vs))"
  using assms by (elim mem_read_SomeE) (auto simp: drop_take min_def add.commute)

lemma mem_load_sub:
  assumes "mem_read m p n = Some vs" and "unat i < n"
  shows "mem_load m (ptr_add p i) = Some (vs ! unat i)"
proof -
  have len: "length vs = n" using assms(1) by (rule mem_read_length)
  have "mem_read m (ptr_add p i) 1 = Some (take 1 (drop (unat i) vs))"
    using assms by (intro mem_read_sub) auto
  then show ?thesis
    using assms(2) len by (simp add: mem_load_def hd_drop_conv_nth take_Suc)
qed

lemma mem_write_block:
  "mem_write m (Ptr b k) vs = Some m' \<Longrightarrow> c \<noteq> b \<Longrightarrow> m' c = m c"
  by (auto split: option.splits if_splits)

lemma mem_write_read:
  assumes "mem_write m p vs = Some m'"
  shows "mem_read m' p (length vs) = Some vs"
  using assms by (cases p) (auto split: option.splits if_splits)

section \<open>Options\<close>

lemma bind_SomeE:
  assumes "Option.bind x f = Some y"
  obtains a where "x = Some a" and "f a = Some y"
  using assms by (cases x) auto

lemma nth_find_index:
  "find P [0..<n] = Some i \<Longrightarrow> i < n \<and> P i \<and> (\<forall>j<i. \<not> P j)"
  by (auto simp: find_Some_iff)

end
