(* ===== verification/Route_Table.thy ===== *)
theory Route_Table
  imports Bridge_Prelude
begin

text \<open>
  Model of \<open>RouteTable.h\<close>: address ranges, endpoint routes, validation of a route table,
  the binary search \<open>locate\<close>, and the inspection and iteration of a routed span.

  The four-element member arrays \<open>upstream\<close> and \<open>downstream\<close> are quadruples, read
  through \<open>array_at\<close>. The borrowed route storage is \<open>None\<close> for a null pointer and
  otherwise the list of routes in the caller's array, whose length is independent of the
  count given to the view; an access outside of the array is undefined (\<open>None\<close>).
\<close>

section \<open>Data\<close>

datatype RegisterTable =
  Coils | DiscreteInputs | HoldingRegisters | InputRegisters | TableCount | OtherTable u8

fun table_index :: "RegisterTable \<Rightarrow> u8" where
  "table_index Coils = 0"
| "table_index DiscreteInputs = 1"
| "table_index HoldingRegisters = 2"
| "table_index InputRegisters = 3"
| "table_index TableCount = 4"
| "table_index (OtherTable n) = n"

record AddressRange =
  ar_start :: u16
  ar_count :: u16

definition emptyRange :: AddressRange where
  "emptyRange = \<lparr>ar_start = 0, ar_count = 0\<rparr>"

definition range_end :: "AddressRange \<Rightarrow> u32" where
  "range_end r = ucast (ar_start r) + ucast (ar_count r)"

definition range_contains :: "AddressRange \<Rightarrow> u16 \<Rightarrow> bool" where
  "range_contains r address \<longleftrightarrow>
     ar_count r \<noteq> 0 \<and>
     (ucast address :: u32) \<ge> ucast (ar_start r) \<and>
     (ucast address :: u32) < range_end r"

type_synonym range_array = "AddressRange \<times> AddressRange \<times> AddressRange \<times> AddressRange"

fun array_at :: "range_array \<Rightarrow> u8 \<Rightarrow> AddressRange option" where
  "array_at (a, b, c, d) i =
     (if i = 0 then Some a else if i = 1 then Some b
      else if i = 2 then Some c else if i = 3 then Some d else None)"

record EndpointRoute =
  er_endpointId :: u8
  er_upstream :: range_array
  er_downstream :: range_array

datatype RouteTableStatus =
  Table_Valid | Table_NullStorage | Table_RangeOverflow | Table_CountMismatch
| Table_Unsorted | Table_Overlap

datatype RoutedSpanStatus = Span_Complete | Span_Empty | Span_AddressOverflow | Span_Gap

record RouteSegment =
  sg_routeIndex :: u16
  sg_endpointId :: u8
  sg_upstreamStart :: u16
  sg_downstreamStart :: u16
  sg_count :: u16
  sg_sourceOffset :: u16

record RouteCursor =
  rc_table :: RegisterTable
  rc_nextAddress :: u16
  rc_remaining :: u16
  rc_sourceOffset :: u16

definition newRouteCursor :: RouteCursor where
  "newRouteCursor = \<lparr>rc_table = Coils, rc_nextAddress = 0, rc_remaining = 0,
     rc_sourceOffset = 0\<rparr>"

record RouteTableView =
  rt_routes :: "EndpointRoute list option"
  rt_count :: u16

definition route_at :: "RouteTableView \<Rightarrow> nat \<Rightarrow> EndpointRoute option" where
  "route_at v i =
     (case rt_routes v of
        None \<Rightarrow> None
      | Some rs \<Rightarrow> if i < length rs then Some (rs ! i) else None)"

definition upstream_at :: "RouteTableView \<Rightarrow> nat \<Rightarrow> u8 \<Rightarrow> AddressRange option" where
  "upstream_at v i t = do { r \<leftarrow> route_at v i; array_at (er_upstream r) t }"

definition downstream_at :: "RouteTableView \<Rightarrow> nat \<Rightarrow> u8 \<Rightarrow> AddressRange option" where
  "downstream_at v i t = do { r \<leftarrow> route_at v i; array_at (er_downstream r) t }"

section \<open>Validation\<close>

text \<open>The four locals that the inner validation loop carries from route to route.\<close>

record RowState =
  rs_previousStart :: u32
  rs_previousPopulatedEnd :: u32
  rs_havePreviousRoute :: bool
  rs_havePreviousPopulated :: bool

definition newRow :: RowState where
  "newRow = \<lparr>rs_previousStart = 0, rs_previousPopulatedEnd = 0,
     rs_havePreviousRoute = False, rs_havePreviousPopulated = False\<rparr>"

text \<open>One iteration of the inner loop: a status to return, or the locals to go on with.\<close>

definition validate_step ::
  "AddressRange \<Rightarrow> AddressRange \<Rightarrow> RowState \<Rightarrow> RouteTableStatus + RowState" where
  "validate_step up down st =
     (if ar_count up \<noteq> ar_count down then Inl Table_CountMismatch
      else if range_end up > 0x10000 \<or> range_end down > 0x10000 then Inl Table_RangeOverflow
      else let upstreamStart = ucast (ar_start up) in
        if rs_havePreviousRoute st \<and> upstreamStart < rs_previousStart st
        then Inl Table_Unsorted
        else if ar_count up = 0
        then (if rs_havePreviousPopulated st \<and> upstreamStart < rs_previousPopulatedEnd st
              then Inl Table_Unsorted
              else Inr (st\<lparr>rs_previousStart := upstreamStart, rs_havePreviousRoute := True\<rparr>))
        else if rs_havePreviousPopulated st \<and> upstreamStart < rs_previousPopulatedEnd st
        then Inl Table_Overlap
        else Inr \<lparr>rs_previousStart = upstreamStart, rs_previousPopulatedEnd = range_end up,
                  rs_havePreviousRoute = True, rs_havePreviousPopulated = True\<rparr>)"

function validate_row ::
  "RouteTableView \<Rightarrow> u8 \<Rightarrow> nat \<Rightarrow> RowState \<Rightarrow> RouteTableStatus option" where
  "validate_row v t i st =
     (if i < unat (rt_count v) then do {
        up \<leftarrow> upstream_at v i t;
        down \<leftarrow> downstream_at v i t;
        (case validate_step up down st of
           Inl status \<Rightarrow> Some status
         | Inr st' \<Rightarrow> validate_row v t (Suc i) st')
      } else Some Table_Valid)"
  by pat_completeness auto
termination
  by (relation "measure (\<lambda>(v, t, i, st). unat (rt_count v) - i)") auto

declare validate_row.simps [simp del]

fun validate_tables :: "RouteTableView \<Rightarrow> u8 list \<Rightarrow> RouteTableStatus option" where
  "validate_tables v [] = Some Table_Valid"
| "validate_tables v (t # ts) = do {
     status \<leftarrow> validate_row v t 0 newRow;
     if status = Table_Valid then validate_tables v ts else Some status }"

definition validate :: "RouteTableView \<Rightarrow> RouteTableStatus option" where
  "validate v =
     (if rt_count v \<noteq> 0 \<and> rt_routes v = None then Some Table_NullStorage
      else validate_tables v [0, 1, 2, 3])"

section \<open>Lookup\<close>

text \<open>
  The loop of \<open>locate\<close>. \<open>low\<close> and \<open>high\<close> are \<open>int16_t\<close>: two's complement words
  whose arithmetic is done on \<open>int\<close> and truncated again, as integer promotion and the
  casts of the code do. The index used for the read is the \<open>uint16_t\<close> image of
  \<open>middle\<close>. \<open>Some None\<close> is the result \<open>false\<close>.
\<close>

definition middle16 :: "u16 \<Rightarrow> u16 \<Rightarrow> u16" where
  "middle16 low high = word_of_int (sint low + (sint high - sint low) div 2)"

partial_function (option) locate_loop ::
  "RouteTableView \<Rightarrow> u8 \<Rightarrow> u16 \<Rightarrow> u16 \<Rightarrow> u16 \<Rightarrow> u16 option option" where
  "locate_loop v t address low high =
     (if sint low \<le> sint high then do {
        let middle = middle16 low high;
        range \<leftarrow> upstream_at v (unat middle) t;
        (let start = (ucast (ar_start range) :: u32);
             end = range_end range in
         if (ucast address :: u32) < start
         then locate_loop v t address low (middle - 1)
         else if (ucast address :: u32) \<ge> end
         then locate_loop v t address (middle + 1) high
         else if end > start then Some (Some middle)
         else locate_loop v t address (middle + 1) high)
      } else Some None)"

declare locate_loop.simps [code]

definition locate :: "RouteTableView \<Rightarrow> RegisterTable \<Rightarrow> u16 \<Rightarrow> u16 option option" where
  "locate v table upstreamAddress =
     (if rt_routes v = None then Some None
      else if table_index table \<ge> table_index TableCount then Some None
      else locate_loop v (table_index table) upstreamAddress 0 (rt_count v - 1))"

text \<open>
  One iteration of the loop, with a name for every way in which it can go on: the interval is
  narrowed, a route is found, the loop is left, or the read of \<open>routes_\<close> is outside of the array.
  It separates the two meanings that \<open>None\<close> has for \<open>locate_loop\<close>: a search that gets to a
  \<open>Search_Outside\<close> has undefined behaviour, one that is narrowed for ever does not return.
\<close>

datatype search_outcome =
    Search_Narrowed u16 u16
  | Search_Found u16
  | Search_Missed
  | Search_Outside nat

definition locate_step :: "RouteTableView \<Rightarrow> u8 \<Rightarrow> u16 \<Rightarrow> u16 \<Rightarrow> u16 \<Rightarrow> search_outcome" where
  "locate_step v t address low high =
     (if sint low \<le> sint high
      then let middle = middle16 low high in
        (case upstream_at v (unat middle) t of
           None \<Rightarrow> Search_Outside (unat middle)
         | Some found \<Rightarrow>
             let start = (ucast (ar_start found) :: u32);
                 end = range_end found in
             if (ucast address :: u32) < start then Search_Narrowed low (middle - 1)
             else if (ucast address :: u32) \<ge> end then Search_Narrowed (middle + 1) high
             else if end > start then Search_Found middle
             else Search_Narrowed (middle + 1) high)
      else Search_Missed)"

definition narrows :: "RouteTableView \<Rightarrow> u8 \<Rightarrow> u16 \<Rightarrow> u16 \<times> u16 \<Rightarrow> u16 \<times> u16 \<Rightarrow> bool" where
  "narrows v t address s s' \<longleftrightarrow>
     locate_step v t address (fst s) (snd s) = Search_Narrowed (fst s') (snd s')"

lemma locate_loop_step:
  "locate_loop v t address low high =
     (case locate_step v t address low high of
        Search_Narrowed low' high' \<Rightarrow> locate_loop v t address low' high'
      | Search_Found i \<Rightarrow> Some (Some i)
      | Search_Missed \<Rightarrow> Some None
      | Search_Outside _ \<Rightarrow> None)"
  by (subst locate_loop.simps) (simp add: locate_step_def Let_def split: option.split)

lemma narrows_locate_loop:
  assumes "(narrows v t address)\<^sup>*\<^sup>* s s'"
  shows "locate_loop v t address (fst s) (snd s) = locate_loop v t address (fst s') (snd s')"
  using assms
proof (induction rule: rtranclp_induct)
  case (step s1 s2)
  then show ?case using locate_loop_step [of v t address "fst s1" "snd s1"] by (simp add: narrows_def)
qed simp

section \<open>Span inspection and iteration\<close>

partial_function (option) inspect_loop ::
  "RouteTableView \<Rightarrow> RegisterTable \<Rightarrow> u16 \<Rightarrow> u16 \<Rightarrow> RoutedSpanStatus option" where
  "inspect_loop v table current remaining =
     (if remaining \<noteq> 0 then do {
        found \<leftarrow> locate v table current;
        (case found of
           None \<Rightarrow> Some Span_Gap
         | Some routeIndex \<Rightarrow> do {
             range \<leftarrow> upstream_at v (unat routeIndex) (table_index table);
             let available = (ucast (range_end range - ucast current) :: u16);
             let chunk = (if remaining < available then remaining else available);
             inspect_loop v table (current + chunk) (remaining - chunk) })
      } else Some Span_Complete)"

declare inspect_loop.simps [code]

definition inspectSpan ::
  "RouteTableView \<Rightarrow> RegisterTable \<Rightarrow> u16 \<Rightarrow> u16 \<Rightarrow> RoutedSpanStatus option" where
  "inspectSpan v table start count =
     (if count = 0 then Some Span_Empty
      else if (ucast start + ucast count :: u32) > 0x10000 then Some Span_AddressOverflow
      else inspect_loop v table start count)"

definition beginSpan ::
  "RouteTableView \<Rightarrow> RegisterTable \<Rightarrow> u16 \<Rightarrow> u16 \<Rightarrow> (RoutedSpanStatus \<times> RouteCursor) option" where
  "beginSpan v table start count = do {
     status \<leftarrow> inspectSpan v table start count;
     Some (if status \<noteq> Span_Complete then (status, newRouteCursor)
           else (Span_Complete, \<lparr>rc_table = table, rc_nextAddress = start,
                                 rc_remaining = count, rc_sourceOffset = 0\<rparr>)) }"

text \<open>\<open>next\<close>: the new cursor, and the segment when the result is \<open>true\<close>.\<close>

definition nextSegment ::
  "RouteTableView \<Rightarrow> RouteCursor \<Rightarrow> (RouteCursor \<times> RouteSegment option) option" where
  "nextSegment v cursor =
     (if rc_remaining cursor = 0 then Some (cursor, None)
      else do {
        found \<leftarrow> locate v (rc_table cursor) (rc_nextAddress cursor);
        (case found of
           None \<Rightarrow> Some (cursor\<lparr>rc_remaining := 0\<rparr>, None)
         | Some routeIndex \<Rightarrow> do {
             route \<leftarrow> route_at v (unat routeIndex);
             upstream \<leftarrow> array_at (er_upstream route) (table_index (rc_table cursor));
             downstream \<leftarrow> array_at (er_downstream route) (table_index (rc_table cursor));
             let offset = rc_nextAddress cursor - ar_start upstream;
             let available = ar_count upstream - offset;
             let chunk = (if rc_remaining cursor < available then rc_remaining cursor
                          else available);
             Some (cursor\<lparr>rc_nextAddress := rc_nextAddress cursor + chunk,
                          rc_remaining := rc_remaining cursor - chunk,
                          rc_sourceOffset := rc_sourceOffset cursor + chunk\<rparr>,
                   Some \<lparr>sg_routeIndex = routeIndex,
                         sg_endpointId = er_endpointId route,
                         sg_upstreamStart = rc_nextAddress cursor,
                         sg_downstreamStart = ar_start downstream + offset,
                         sg_count = chunk,
                         sg_sourceOffset = rc_sourceOffset cursor\<rparr>) })
      })"

section \<open>Reading a table in natural numbers\<close>

text \<open>
  \<open>backed v\<close>: the caller's array holds at least the announced number of routes. The start,
  count and end of the upstream and downstream range of route \<open>i\<close> for a table, as natural
  numbers.
\<close>

definition backed :: "RouteTableView \<Rightarrow> bool" where
  "backed v \<longleftrightarrow>
     (case rt_routes v of None \<Rightarrow> rt_count v = 0 | Some rs \<Rightarrow> unat (rt_count v) \<le> length rs)"

abbreviation up_range :: "RouteTableView \<Rightarrow> u8 \<Rightarrow> nat \<Rightarrow> AddressRange" where
  "up_range v t i \<equiv> the (upstream_at v i t)"

abbreviation down_range :: "RouteTableView \<Rightarrow> u8 \<Rightarrow> nat \<Rightarrow> AddressRange" where
  "down_range v t i \<equiv> the (downstream_at v i t)"

abbreviation lo :: "AddressRange \<Rightarrow> nat" where
  "lo r \<equiv> unat (ar_start r)"

abbreviation cnt :: "AddressRange \<Rightarrow> nat" where
  "cnt r \<equiv> unat (ar_count r)"

abbreviation hi :: "AddressRange \<Rightarrow> nat" where
  "hi r \<equiv> lo r + cnt r"

lemma unat_range_end [width_simps]: "unat (range_end r) = hi r"
  by (simp add: range_end_def width_simps)

lemma range_contains_iff: "range_contains r a \<longleftrightarrow> lo r \<le> unat a \<and> unat a < hi r"
  by (auto simp: range_contains_def unat_order width_simps)

lemma u8_below_4:
  assumes "(t :: u8) < 4"
  shows "t = 0 \<or> t = 1 \<or> t = 2 \<or> t = 3"
proof -
  from assms have "unat t < 4" by (simp add: word_less_nat_alt)
  then have "unat t = 0 \<or> unat t = 1 \<or> unat t = 2 \<or> unat t = 3" by linarith
  then show ?thesis by (auto simp: unat_eq_iff)
qed

lemma array_at_Some: "t < 4 \<Longrightarrow> \<exists>r. array_at a t = Some r"
  using u8_below_4 [of t] by (cases a) auto

lemma route_at_backed: "backed v \<Longrightarrow> i < unat (rt_count v) \<Longrightarrow> \<exists>r. route_at v i = Some r"
  by (auto simp: backed_def route_at_def split: option.splits)

lemma upstream_at_backed:
  assumes "backed v" "i < unat (rt_count v)" "t < 4"
  shows "upstream_at v i t = Some (up_range v t i)"
  using route_at_backed [OF assms(1,2)] array_at_Some [OF assms(3)]
  by (metis bind.bind_lunit option.sel upstream_at_def)

lemma downstream_at_backed:
  assumes "backed v" "i < unat (rt_count v)" "t < 4"
  shows "downstream_at v i t = Some (down_range v t i)"
  using route_at_backed [OF assms(1,2)] array_at_Some [OF assms(3)]
  by (metis bind.bind_lunit option.sel downstream_at_def)

section \<open>What validation establishes\<close>

text \<open>
  The declarative meaning of a valid row: counts agree, no range passes address 65536, and
  for any two routes the starts ascend and a populated range ends before the later start.
\<close>

definition prefix_ok :: "RouteTableView \<Rightarrow> u8 \<Rightarrow> nat \<Rightarrow> bool" where
  "prefix_ok v t n \<longleftrightarrow>
     (\<forall>i<n. cnt (up_range v t i) = cnt (down_range v t i) \<and>
            hi (up_range v t i) \<le> 65536 \<and> hi (down_range v t i) \<le> 65536 \<and>
            (\<forall>j<i. lo (up_range v t j) \<le> lo (up_range v t i) \<and>
                   (0 < cnt (up_range v t j) \<longrightarrow> hi (up_range v t j) \<le> lo (up_range v t i))))"

definition table_ok :: "RouteTableView \<Rightarrow> u8 \<Rightarrow> bool" where
  "table_ok v t = prefix_ok v t (unat (rt_count v))"

definition row_inv :: "RouteTableView \<Rightarrow> u8 \<Rightarrow> nat \<Rightarrow> RowState \<Rightarrow> bool" where
  "row_inv v t i st \<longleftrightarrow>
     (rs_havePreviousRoute st \<longleftrightarrow> 0 < i) \<and>
     (0 < i \<longrightarrow> (\<forall>j<i. lo (up_range v t j) \<le> unat (rs_previousStart st)) \<and>
               (\<exists>j<i. lo (up_range v t j) = unat (rs_previousStart st))) \<and>
     (rs_havePreviousPopulated st \<longleftrightarrow> (\<exists>j<i. 0 < cnt (up_range v t j))) \<and>
     (rs_havePreviousPopulated st \<longrightarrow>
        (\<forall>j<i. 0 < cnt (up_range v t j) \<longrightarrow>
               hi (up_range v t j) \<le> unat (rs_previousPopulatedEnd st)) \<and>
        (\<exists>j<i. 0 < cnt (up_range v t j) \<and>
               hi (up_range v t j) = unat (rs_previousPopulatedEnd st)))"

lemma prefix_ok_Suc:
  "prefix_ok v t (Suc n) \<longleftrightarrow>
     prefix_ok v t n \<and>
     cnt (up_range v t n) = cnt (down_range v t n) \<and>
     hi (up_range v t n) \<le> 65536 \<and> hi (down_range v t n) \<le> 65536 \<and>
     (\<forall>j<n. lo (up_range v t j) \<le> lo (up_range v t n) \<and>
            (0 < cnt (up_range v t j) \<longrightarrow> hi (up_range v t j) \<le> lo (up_range v t n)))"
  by (auto simp: prefix_ok_def less_Suc_eq)

lemma prefix_ok_mono: "prefix_ok v t n \<Longrightarrow> m \<le> n \<Longrightarrow> prefix_ok v t m"
  unfolding prefix_ok_def by (meson less_le_trans)

lemma row_inv_new: "row_inv v t 0 newRow"
  by (simp add: row_inv_def newRow_def)

text \<open>One iteration rejects exactly when the prefix stops being valid.\<close>

lemma validate_step_Inl:
  assumes "row_inv v t i st" and "prefix_ok v t i"
    and "validate_step (up_range v t i) (down_range v t i) st = Inl s"
  shows "s \<noteq> Table_Valid \<and> \<not> prefix_ok v t (Suc i)"
  using assms
  by (auto simp: validate_step_def row_inv_def prefix_ok_Suc Let_def width_simps unat_order
        split: if_splits; force)

lemma validate_step_Inr:
  assumes "row_inv v t i st" and "prefix_ok v t i"
    and "validate_step (up_range v t i) (down_range v t i) st = Inr st'"
  shows "row_inv v t (Suc i) st'" and "prefix_ok v t (Suc i)"
proof -
  let ?up = "up_range v t i" and ?down = "down_range v t i"
  have checks: "cnt ?up = cnt ?down" "hi ?up \<le> 65536" "hi ?down \<le> 65536"
    and sorted: "rs_havePreviousRoute st \<Longrightarrow> unat (rs_previousStart st) \<le> lo ?up"
    and apart: "rs_havePreviousPopulated st \<Longrightarrow> unat (rs_previousPopulatedEnd st) \<le> lo ?up"
    and st': "if cnt ?up = 0
      then st' = st\<lparr>rs_previousStart := ucast (ar_start ?up), rs_havePreviousRoute := True\<rparr>
      else st' = \<lparr>rs_previousStart = ucast (ar_start ?up), rs_previousPopulatedEnd = range_end ?up,
                  rs_havePreviousRoute = True, rs_havePreviousPopulated = True\<rparr>"
    using assms(3)
    by (auto simp: validate_step_def Let_def width_simps unat_order not_less split: if_splits)
  have starts: "lo (up_range v t j) \<le> lo ?up" if "j < i" for j
  proof -
    from that have "0 < i" by simp
    with assms(1) sorted that show ?thesis unfolding row_inv_def by (meson le_trans)
  qed
  have ends: "hi (up_range v t j) \<le> lo ?up" if "j < i" "0 < cnt (up_range v t j)" for j
    using assms(1) apart that unfolding row_inv_def by (meson le_trans)
  show "prefix_ok v t (Suc i)"
    using assms(2) checks starts ends by (simp add: prefix_ok_Suc)
  show "row_inv v t (Suc i) st'"
  proof (cases "cnt ?up = 0")
    case True
    with st' assms(1) starts show ?thesis
      by (auto simp: row_inv_def less_Suc_eq width_simps)
  next
    case False
    with st' starts ends show ?thesis
      by (auto simp: row_inv_def less_Suc_eq width_simps le_SucI intro: le_trans [OF ends])
  qed
qed

lemma validate_row_unfold:
  assumes "backed v" "t < 4" "i < unat (rt_count v)"
  shows "validate_row v t i st =
    (case validate_step (up_range v t i) (down_range v t i) st of
       Inl status \<Rightarrow> Some status | Inr st' \<Rightarrow> validate_row v t (Suc i) st')"
proof -
  obtain up down where "upstream_at v i t = Some up" "downstream_at v i t = Some down"
    using upstream_at_backed downstream_at_backed assms by metis
  with assms(3) show ?thesis by (subst validate_row.simps) simp
qed

lemma validate_row_spec:
  assumes "backed v" "t < 4" "row_inv v t i st" "prefix_ok v t i" "i \<le> unat (rt_count v)"
  shows "\<exists>s. validate_row v t i st = Some s \<and> (s = Table_Valid \<longleftrightarrow> table_ok v t)"
  using assms
proof (induction v t i st rule: validate_row.induct)
  case (1 v t i st)
  show ?case
  proof (cases "i < unat (rt_count v)")
    case False
    with "1.prems" show ?thesis by (simp add: validate_row.simps table_ok_def)
  next
    case True
    note unfold = validate_row_unfold [OF "1.prems"(1,2) True]
    show ?thesis
    proof (cases "validate_step (up_range v t i) (down_range v t i) st")
      case (Inl s)
      have "s \<noteq> Table_Valid" "\<not> prefix_ok v t (Suc i)"
        using validate_step_Inl [OF "1.prems"(3,4) Inl] by auto
      moreover from this have "\<not> table_ok v t"
        using True prefix_ok_mono Suc_leI unfolding table_ok_def by blast
      ultimately show ?thesis using Inl by (simp add: unfold)
    next
      case (Inr st')
      have "\<exists>s. validate_row v t (Suc i) st' = Some s \<and> (s = Table_Valid \<longleftrightarrow> table_ok v t)"
        using True Inr "1.prems" validate_step_Inr [OF "1.prems"(3,4) Inr]
        by (intro "1.IH" [OF True upstream_at_backed downstream_at_backed]) auto
      with Inr show ?thesis by (simp add: unfold)
    qed
  qed
qed

lemma validate_tables_spec:
  assumes "backed v" "\<forall>t\<in>set ts. t < 4"
  shows "\<exists>s. validate_tables v ts = Some s \<and> (s = Table_Valid \<longleftrightarrow> (\<forall>t\<in>set ts. table_ok v t))"
  using assms(2)
proof (induction ts)
  case Nil
  then show ?case by simp
next
  case (Cons t ts)
  obtain s where "validate_row v t 0 newRow = Some s" "s = Table_Valid \<longleftrightarrow> table_ok v t"
    using validate_row_spec [OF assms(1) _ row_inv_new, of t] Cons.prems
    by (auto simp: prefix_ok_def)
  with Cons show ?case by auto
qed

definition valid_view :: "RouteTableView \<Rightarrow> bool" where
  "valid_view v \<longleftrightarrow> backed v \<and> validate v = Some Table_Valid"

lemma validate_total: "backed v \<Longrightarrow> \<exists>s. validate v = Some s"
  using validate_tables_spec [of v "[0, 1, 2, 3]"] by (auto simp: validate_def)

lemma validate_iff:
  assumes "backed v"
  shows "validate v = Some Table_Valid \<longleftrightarrow> (\<forall>t<4. table_ok v t)"
proof -
  have "(0 :: u8) < 4" "(1 :: u8) < 4" "(2 :: u8) < 4" "(3 :: u8) < 4" by simp_all
  then have four: "(\<forall>t<(4 :: u8). P t) \<longleftrightarrow> P 0 \<and> P 1 \<and> P 2 \<and> P 3" for P
    using u8_below_4 by metis
  have "\<not> (rt_count v \<noteq> 0 \<and> rt_routes v = None)"
    using assms by (auto simp: backed_def)
  then show ?thesis
    using validate_tables_spec [OF assms, of "[0, 1, 2, 3]"]
    by (auto simp: validate_def four)
qed

section \<open>Lookup is correct on validated tables\<close>

lemma sint_of_int16:
  "- 32768 \<le> k \<Longrightarrow> k < 32768 \<Longrightarrow> sint (word_of_int k :: u16) = k"
  by (simp add: signed_of_int signed_take_bit_int_eq_self)

lemma unat_of_int16: "0 \<le> k \<Longrightarrow> k < 65536 \<Longrightarrow> unat (word_of_int k :: u16) = nat k"
  by (simp add: unsigned_of_int take_bit_int_eq_self)

text \<open>What a lookup result has to say about address \<open>a\<close>.\<close>

definition found_ok :: "RouteTableView \<Rightarrow> u8 \<Rightarrow> u16 \<Rightarrow> u16 option \<Rightarrow> bool" where
  "found_ok v t a r \<longleftrightarrow>
     (case r of
        Some i \<Rightarrow> unat i < unat (rt_count v) \<and> range_contains (up_range v t (unat i)) a
      | None \<Rightarrow> \<forall>i<unat (rt_count v). \<not> range_contains (up_range v t i) a)"

lemma below_start_excludes:
  assumes "table_ok v t" "m \<le> i" "i < unat (rt_count v)" "unat a < lo (up_range v t m)"
  shows "\<not> range_contains (up_range v t i) a"
proof -
  have "lo (up_range v t m) \<le> lo (up_range v t i)"
    using assms(1,2,3) unfolding table_ok_def prefix_ok_def by (cases "m = i") auto
  with assms(4) show ?thesis by (simp add: range_contains_iff)
qed

lemma above_end_excludes:
  assumes "table_ok v t" "i \<le> m" "m < unat (rt_count v)" "hi (up_range v t m) \<le> unat a"
  shows "\<not> range_contains (up_range v t i) a"
proof (cases "i = m \<or> cnt (up_range v t i) = 0")
  case True
  with assms(4) show ?thesis by (auto simp: range_contains_iff)
next
  case False
  then have "hi (up_range v t i) \<le> lo (up_range v t m)"
    using assms(1,2,3) unfolding table_ok_def prefix_ok_def by (metis gr0I le_neq_implies_less)
  with assms(4) show ?thesis by (simp add: range_contains_iff)
qed

lemma locate_loop_unfold:
  assumes "backed v" "t < 4" "0 \<le> l" "l \<le> h" "h < int n"
    "n \<le> 32767" "unat (rt_count v) = n"
  defines "m \<equiv> l + (h - l) div 2"
  defines "r \<equiv> up_range v t (nat m)"
  shows "locate_loop v t a (word_of_int l) (word_of_int h) =
    (if unat a < lo r then locate_loop v t a (word_of_int l) (word_of_int (m - 1))
     else if hi r \<le> unat a then locate_loop v t a (word_of_int (m + 1)) (word_of_int h)
     else Some (Some (word_of_int m)))"
proof -
  have m: "0 \<le> m" "m \<le> h" using assms(3,4) unfolding m_def by auto
  have mid: "middle16 (word_of_int l) (word_of_int h) = word_of_int m"
    using assms(3-6) by (simp add: middle16_def sint_of_int16 [of l] sint_of_int16 [of h] m_def)
  have idx: "unat (word_of_int m :: u16) = nat m"
    using m assms(5,6) by (intro unat_of_int16) auto
  have mn: "nat m < unat (rt_count v)" using m assms(5,7) by linarith
  obtain rg where rg: "upstream_at v (nat m) t = Some rg"
    using upstream_at_backed [OF assms(1) _ assms(2), of "nat m"] mn by auto
  have "sint (word_of_int l :: u16) \<le> sint (word_of_int h :: u16)"
    using assms(3-6) by (simp add: sint_of_int16 [of l] sint_of_int16 [of h])
  then show ?thesis
    by (subst locate_loop.simps)
      (simp add: mid idx rg r_def Let_def unat_order width_simps not_less wi_hom_syms)
qed

lemma locate_loop_spec:
  assumes "backed v" "t < 4" "table_ok v t" "n \<le> 32767" "unat (rt_count v) = n"
    and "0 \<le> l" "h < int n" "l \<le> h + 1"
    and "\<forall>i<n. int i < l \<or> h < int i \<longrightarrow> \<not> range_contains (up_range v t i) a"
  shows "\<exists>r. locate_loop v t a (word_of_int l) (word_of_int h) = Some r \<and> found_ok v t a r"
  using assms(6-)
proof (induction "nat (h + 1 - l)" arbitrary: l h rule: less_induct)
  case less
  show ?case
  proof (cases "l \<le> h")
    case False
    then have "\<not> sint (word_of_int l :: u16) \<le> sint (word_of_int h :: u16)"
      using less.prems assms(4) by (simp add: sint_of_int16 [of l] sint_of_int16 [of h])
    then have "locate_loop v t a (word_of_int l) (word_of_int h) = Some None"
      by (subst locate_loop.simps) simp
    with False less.prems assms(5) show ?thesis by (auto simp: found_ok_def)
  next
    case True
    define m where "m = l + (h - l) div 2"
    let ?r = "up_range v t (nat m)"
    have m: "l \<le> m" "m \<le> h" using True by (auto simp: m_def)
    have mc: "nat m < unat (rt_count v)" using m less.prems assms(5) by linarith
    note unfold = locate_loop_unfold [OF assms(1,2) less.prems(1) True less.prems(2) assms(4,5),
        of a, folded m_def]
    consider (below) "unat a < lo ?r" | (above) "hi ?r \<le> unat a" "\<not> unat a < lo ?r"
      | (hit) "\<not> unat a < lo ?r" "\<not> hi ?r \<le> unat a" by blast
    then show ?thesis
    proof cases
      case below
      have "\<not> range_contains (up_range v t i) a"
        if "i < n" "int i < l \<or> m - 1 < int i" for i
        using that below less.prems(4) m assms(5) below_start_excludes [OF assms(3) _ _ below, of i]
        by (cases "int i < l") auto
      then have "\<exists>r. locate_loop v t a (word_of_int l) (word_of_int (m - 1)) = Some r \<and>
          found_ok v t a r"
        using m less.prems(1,2) by (intro less.hyps) auto
      then show ?thesis by (simp only: unfold below if_True)
    next
      case above
      have "\<not> range_contains (up_range v t i) a"
        if "i < n" "int i < m + 1 \<or> h < int i" for i
        using that less.prems(4) m above_end_excludes [OF assms(3) _ mc above(1), of i]
        by (cases "h < int i") auto
      then have "\<exists>r. locate_loop v t a (word_of_int (m + 1)) (word_of_int h) = Some r \<and>
          found_ok v t a r"
        using m less.prems(1,2) by (intro less.hyps) auto
      then show ?thesis by (simp only: unfold above if_True if_False)
    next
      case hit
      then show ?thesis
        using m mc less.prems(1,2) assms(4) by (auto simp: unfold found_ok_def range_contains_iff unat_of_int16)
    qed
  qed
qed

text \<open>
  The precondition of the correctness of \<open>locate\<close>: validated, backed by the announced
  storage, and no more routes than the \<open>int16_t\<close> search indices can count.
\<close>

definition searchable :: "RouteTableView \<Rightarrow> bool" where
  "searchable v \<longleftrightarrow> valid_view v \<and> unat (rt_count v) \<le> 32767"

lemma searchable_table_ok: "searchable v \<Longrightarrow> t < 4 \<Longrightarrow> table_ok v t"
  by (auto simp: searchable_def valid_view_def validate_iff)

lemma searchable_backed: "searchable v \<Longrightarrow> backed v"
  by (simp add: searchable_def valid_view_def)

lemma locate_spec:
  assumes "searchable v" "table_index table < 4"
  shows "\<exists>r. locate v table a = Some r \<and> found_ok v (table_index table) a r"
proof -
  let ?t = "table_index table"
  have b: "backed v" and ok: "table_ok v ?t" and n: "unat (rt_count v) \<le> 32767"
    using assms searchable_backed searchable_table_ok by (auto simp: searchable_def)
  show ?thesis
  proof (cases "rt_routes v = None")
    case True
    with b show ?thesis by (simp add: locate_def found_ok_def backed_def)
  next
    case False
    obtain k where k: "unat (rt_count v) = k" by simp
    have "rt_count v - 1 = word_of_int (int (unat (rt_count v)) - 1)"
      by (simp add: wi_hom_syms)
    then have high: "rt_count v - 1 = word_of_int (int k - 1)"
      by (simp only: k)
    have "\<exists>r. locate_loop v ?t a (word_of_int 0) (word_of_int (int k - 1)) = Some r
        \<and> found_ok v ?t a r"
      using b assms(2) ok n k by (intro locate_loop_spec [OF _ _ _ _ k]) auto
    with False assms(2) show ?thesis
      by (auto simp: locate_def high not_le [symmetric])
  qed
qed

text \<open>The reference lookup: the first route, in table order, that contains the address.\<close>

definition owner :: "RouteTableView \<Rightarrow> u8 \<Rightarrow> u16 \<Rightarrow> nat option" where
  "owner v t a = find (\<lambda>i. range_contains (up_range v t i) a) [0..<unat (rt_count v)]"

lemma containing_route_unique:
  assumes "table_ok v t" "i < unat (rt_count v)" "j < unat (rt_count v)"
    and "range_contains (up_range v t i) a" "range_contains (up_range v t j) a"
  shows "i = j"
proof -
  have False if "i < j" "j < unat (rt_count v)" "range_contains (up_range v t i) a"
    "range_contains (up_range v t j) a" for i j
  proof -
    have "0 < cnt (up_range v t i)" using that(3) by (simp add: range_contains_iff)
    then have "hi (up_range v t i) \<le> lo (up_range v t j)"
      using assms(1) that(1,2) unfolding table_ok_def prefix_ok_def by blast
    with that(3,4) show False by (simp add: range_contains_iff)
  qed
  with assms(2-) show ?thesis by (meson nat_neq_iff)
qed

lemma found_ok_owner:
  assumes "table_ok v t" "found_ok v t a r"
  shows "map_option unat r = owner v t a"
proof (cases r)
  case None
  with assms(2) have "owner v t a = None"
    by (auto simp: found_ok_def owner_def find_None_iff)
  with None show ?thesis by simp
next
  case (Some i)
  with assms(2) have i: "unat i < unat (rt_count v)" "range_contains (up_range v t (unat i)) a"
    by (auto simp: found_ok_def)
  then obtain j where j: "owner v t a = Some j"
    by (cases "owner v t a") (auto simp: owner_def find_None_iff)
  then have "j < unat (rt_count v)" "range_contains (up_range v t j) a"
    using nth_find_index by (auto simp: owner_def)
  then have "j = unat i"
    using containing_route_unique [OF assms(1)] i by blast
  with Some j show ?thesis by simp
qed

text \<open>What every caller of \<open>locate\<close> uses: the located route, read in natural numbers.\<close>

lemma located_route:
  assumes "searchable v" "table_index table < 4" "locate v table a = Some (Some i)"
  obtains r up down where
    "route_at v (unat i) = Some r"
    "array_at (er_upstream r) (table_index table) = Some up"
    "array_at (er_downstream r) (table_index table) = Some down"
    "upstream_at v (unat i) (table_index table) = Some up"
    "downstream_at v (unat i) (table_index table) = Some down"
    "unat i < unat (rt_count v)" "lo up \<le> unat a" "unat a < hi up" "hi up \<le> 65536"
    "cnt down = cnt up" "hi down \<le> 65536"
proof -
  let ?t = "table_index table"
  have b: "backed v" and ok: "table_ok v ?t"
    using assms searchable_backed searchable_table_ok by auto
  have i: "unat i < unat (rt_count v)" "range_contains (up_range v ?t (unat i)) a"
    using locate_spec [OF assms(1,2), of a] assms(3) by (auto simp: found_ok_def)
  obtain r where r: "route_at v (unat i) = Some r"
    using route_at_backed [OF b i(1)] by blast
  obtain up down where ud: "array_at (er_upstream r) ?t = Some up"
      "array_at (er_downstream r) ?t = Some down"
    using array_at_Some assms(2) by blast
  have up: "upstream_at v (unat i) ?t = Some up" and down: "downstream_at v (unat i) ?t = Some down"
    using r ud by (simp_all add: upstream_at_def downstream_at_def)
  have "cnt up = cnt down \<and> hi up \<le> 65536 \<and> hi down \<le> 65536"
    using ok i(1) up down unfolding table_ok_def prefix_ok_def by fastforce
  then show ?thesis
    using i up by (intro that [OF r ud up down i(1)]) (auto simp: range_contains_iff)
qed

lemma locate_unfound:
  assumes "searchable v" "table_index table < 4" "locate v table a = Some None"
    "i < unat (rt_count v)"
  shows "\<not> range_contains (up_range v (table_index table) i) a"
  using locate_spec [OF assms(1,2), of a] assms(3,4) by (auto simp: found_ok_def)

section \<open>Spans\<close>

definition covered :: "RouteTableView \<Rightarrow> u8 \<Rightarrow> nat \<Rightarrow> bool" where
  "covered v t x \<longleftrightarrow>
     (\<exists>i<unat (rt_count v). lo (up_range v t i) \<le> x \<and> x < hi (up_range v t i))"

text \<open>The chunk arithmetic shared by inspection, iteration and forward planning.\<close>

lemma chunk_available:
  assumes "lo up \<le> unat a" "unat a < hi up"
  shows "unat (ucast (range_end up - ucast a) :: u16) = hi up - unat a"
    and "unat (ar_count up - (a - ar_start up)) = hi up - unat a"
    and "unat (a - ar_start up) = unat a - lo up"
proof -
  have "unat (range_end up - ucast a) = hi up - unat a"
    using assms by (subst unat_sub) (auto simp: unat_order width_simps)
  moreover have "hi up - unat a < 65536"
    using assms(1) unat_u16_bound [of "ar_count up"] by linarith
  ultimately show "unat (ucast (range_end up - ucast a) :: u16) = hi up - unat a"
    by (simp add: width_simps)
  show off: "unat (a - ar_start up) = unat a - lo up"
    using assms by (simp add: unat_sub word_le_nat_alt)
  show "unat (ar_count up - (a - ar_start up)) = hi up - unat a"
    using assms off by (subst unat_sub) (auto simp: word_le_nat_alt)
qed

lemma unat_min_word: "unat (if (x :: u16) < y then x else y) = min (unat x) (unat y)"
  by (simp add: word_less_nat_alt min_def)

lemma inspect_step:
  assumes "searchable v" "table_index table < 4" "remaining \<noteq> 0"
    and loc: "locate v table current = Some (Some i)"
  obtains chunk where
    "inspect_loop v table current remaining =
       inspect_loop v table (current + chunk) (remaining - chunk)"
    "0 < unat chunk" "unat chunk \<le> unat remaining"
    "\<forall>x. unat current \<le> x \<and> x < unat current + unat chunk \<longrightarrow> covered v (table_index table) x"
proof -
  from located_route [OF assms(1,2) loc] obtain up where
    up: "upstream_at v (unat i) (table_index table) = Some up" and i: "unat i < unat (rt_count v)"
    and inside: "lo up \<le> unat current" "unat current < hi up"
    by metis
  define avail where "avail = (ucast (range_end up - ucast current) :: u16)"
  define chunk where "chunk = (if remaining < avail then remaining else avail)"
  have chunk: "unat chunk = min (unat remaining) (hi up - unat current)"
    using chunk_available(1) [OF inside] by (simp only: chunk_def avail_def unat_min_word)
  have "inspect_loop v table current remaining =
      inspect_loop v table (current + chunk) (remaining - chunk)"
    using assms(3) loc up
    by (subst inspect_loop.simps) (simp add: Let_def chunk_def avail_def)
  moreover have "0 < unat chunk"
    using chunk inside(2) assms(3) by (simp add: unat_gt_0)
  moreover have "covered v (table_index table) x"
    if "unat current \<le> x" "x < unat current + unat chunk" for x
    using that i up inside chunk unfolding covered_def by (intro exI [of _ "unat i"]) auto
  ultimately show ?thesis using chunk that by force
qed

lemma inspect_gap:
  assumes "searchable v" "table_index table < 4" "remaining \<noteq> 0" "locate v table current = Some None"
  shows "inspect_loop v table current remaining = Some Span_Gap"
    and "\<not> covered v (table_index table) (unat current)"
proof -
  show "inspect_loop v table current remaining = Some Span_Gap"
    using assms(3,4) by (subst inspect_loop.simps) simp
  show "\<not> covered v (table_index table) (unat current)"
    using locate_unfound [OF assms(1,2,4)] by (auto simp: covered_def range_contains_iff)
qed

lemma inspect_loop_spec:
  assumes "searchable v" "table_index table < 4"
    and "remaining \<noteq> 0 \<longrightarrow> unat current + unat remaining \<le> 65536"
  shows "inspect_loop v table current remaining =
    Some (if \<forall>x. unat current \<le> x \<and> x < unat current + unat remaining
                 \<longrightarrow> covered v (table_index table) x
          then Span_Complete else Span_Gap)"
  using assms(3)
proof (induction "unat remaining" arbitrary: current remaining rule: less_induct)
  case less
  let ?t = "table_index table"
  show ?case
  proof (cases "remaining = 0")
    case True
    then show ?thesis by (subst inspect_loop.simps) simp
  next
    case rem: False
    obtain r where r: "locate v table current = Some r"
      using locate_spec [OF assms(1,2)] by blast
    show ?thesis
    proof (cases r)
      case None
      have "0 < unat remaining" using rem by (simp add: unat_gt_0)
      moreover have "\<not> covered v ?t (unat current)"
        using inspect_gap(2) [OF assms(1,2) rem] r None by simp
      ultimately have "\<not> (\<forall>x. unat current \<le> x \<and> x < unat current + unat remaining
          \<longrightarrow> covered v ?t x)" by fastforce
      then show ?thesis
        using inspect_gap(1) [OF assms(1,2) rem, of current] r None by (simp only: if_False)
    next
      case (Some i)
      from r Some have loc: "locate v table current = Some (Some i)" by simp
      from inspect_step [OF assms(1,2) rem loc] obtain chunk where
        step: "inspect_loop v table current remaining =
          inspect_loop v table (current + chunk) (remaining - chunk)"
        and chunk: "0 < unat chunk" "unat chunk \<le> unat remaining"
        and here: "\<forall>x. unat current \<le> x \<and> x < unat current + unat chunk \<longrightarrow> covered v ?t x"
        by metis
      have bound: "unat current + unat remaining \<le> 65536" using less.prems rem by simp
      note adv = unat_advance [OF chunk(2) bound]
      have "inspect_loop v table (current + chunk) (remaining - chunk) =
        Some (if \<forall>x. unat (current + chunk) \<le> x \<and>
                     x < unat (current + chunk) + unat (remaining - chunk)
                   \<longrightarrow> covered v ?t x then Span_Complete else Span_Gap)"
        using adv chunk bound by (intro less.hyps) auto
      moreover have "(\<forall>x. unat (current + chunk) \<le> x \<and>
            x < unat (current + chunk) + unat (remaining - chunk) \<longrightarrow> covered v ?t x) =
          (\<forall>x. unat current \<le> x \<and> x < unat current + unat remaining \<longrightarrow> covered v ?t x)"
        unfolding all_interval_split [OF chunk(2), of "unat current"]
        using adv here by (cases "remaining - chunk = 0") auto
      ultimately show ?thesis unfolding step by simp
    qed
  qed
qed

lemma inspectSpan_spec:
  assumes "searchable v" "table_index table < 4"
  shows "inspectSpan v table start count = Some (
    if count = 0 then Span_Empty
    else if unat start + unat count > 65536 then Span_AddressOverflow
    else if \<forall>x. unat start \<le> x \<and> x < unat start + unat count \<longrightarrow> covered v (table_index table) x
    then Span_Complete else Span_Gap)"
  using inspect_loop_spec [OF assms, of count start]
  by (auto simp: inspectSpan_def unat_order width_simps)

section \<open>Segments of a complete span\<close>

text \<open>One emitted segment agrees with the route it names, in natural numbers.\<close>

definition segment_ok :: "RouteTableView \<Rightarrow> u8 \<Rightarrow> RouteSegment \<Rightarrow> bool" where
  "segment_ok v t sg \<longleftrightarrow>
     (\<exists>r up down.
        route_at v (unat (sg_routeIndex sg)) = Some r \<and>
        array_at (er_upstream r) t = Some up \<and> array_at (er_downstream r) t = Some down \<and>
        sg_endpointId sg = er_endpointId r \<and>
        0 < unat (sg_count sg) \<and>
        lo up \<le> unat (sg_upstreamStart sg) \<and>
        unat (sg_upstreamStart sg) + unat (sg_count sg) \<le> hi up \<and>
        unat (sg_downstreamStart sg) = lo down + (unat (sg_upstreamStart sg) - lo up) \<and>
        unat (sg_downstreamStart sg) + unat (sg_count sg) \<le> hi down)"

text \<open>The segments tile the addresses from \<open>a\<close> and the snapshot offsets from \<open>off\<close>.\<close>

fun tiles :: "RouteTableView \<Rightarrow> u8 \<Rightarrow> nat \<Rightarrow> nat \<Rightarrow> nat \<Rightarrow> RouteSegment list \<Rightarrow> bool" where
  "tiles v t a off n [] \<longleftrightarrow> n = 0"
| "tiles v t a off n (sg # sgs) \<longleftrightarrow>
     segment_ok v t sg \<and> unat (sg_upstreamStart sg) = a \<and> unat (sg_sourceOffset sg) = off \<and>
     unat (sg_count sg) \<le> n \<and>
     tiles v t (a + unat (sg_count sg)) (off + unat (sg_count sg)) (n - unat (sg_count sg)) sgs"

text \<open>The documented client loop: call \<open>next\<close> until it returns \<open>false\<close>.\<close>

partial_function (option) drain :: "RouteTableView \<Rightarrow> RouteCursor \<Rightarrow> RouteSegment list option" where
  "drain v cursor = do {
     (cursor', result) \<leftarrow> nextSegment v cursor;
     (case result of
        None \<Rightarrow> Some []
      | Some sg \<Rightarrow> do { sgs \<leftarrow> drain v cursor'; Some (sg # sgs) }) }"

declare drain.simps [code]

lemma nextSegment_spec:
  assumes "searchable v" "table_index (rc_table c) < 4" "rc_remaining c \<noteq> 0"
    and "covered v (table_index (rc_table c)) (unat (rc_nextAddress c))"
  obtains sg where
    "nextSegment v c = Some (c\<lparr>rc_nextAddress := rc_nextAddress c + sg_count sg,
       rc_remaining := rc_remaining c - sg_count sg,
       rc_sourceOffset := rc_sourceOffset c + sg_count sg\<rparr>, Some sg)"
    "segment_ok v (table_index (rc_table c)) sg"
    "sg_upstreamStart sg = rc_nextAddress c" "sg_sourceOffset sg = rc_sourceOffset c"
    "unat (sg_count sg) \<le> unat (rc_remaining c)"
proof -
  let ?t = "table_index (rc_table c)" and ?a = "rc_nextAddress c"
  obtain i where loc: "locate v (rc_table c) ?a = Some (Some i)"
    using locate_spec [OF assms(1,2), of ?a] assms(4)
    by (auto simp: found_ok_def covered_def range_contains_iff split: option.splits)
  from located_route [OF assms(1,2) loc] obtain r up down where
    r: "route_at v (unat i) = Some r" "array_at (er_upstream r) ?t = Some up"
      "array_at (er_downstream r) ?t = Some down"
    and inside: "lo up \<le> unat ?a" "unat ?a < hi up" and size: "cnt down = cnt up" "hi down \<le> 65536"
    by metis
  define avail where "avail = ar_count up - (?a - ar_start up)"
  define chunk where "chunk = (if rc_remaining c < avail then rc_remaining c else avail)"
  have chunk: "unat chunk = min (unat (rc_remaining c)) (hi up - unat ?a)"
    using chunk_available(2) [OF inside] by (simp only: chunk_def avail_def unat_min_word)
  have down: "unat (ar_start down + (?a - ar_start up)) = lo down + (unat ?a - lo up)"
    using chunk_available(3) [OF inside] inside size by (simp add: width_simps)
  define sg where "sg = \<lparr>sg_routeIndex = i, sg_endpointId = er_endpointId r,
    sg_upstreamStart = ?a, sg_downstreamStart = ar_start down + (?a - ar_start up),
    sg_count = chunk, sg_sourceOffset = rc_sourceOffset c\<rparr>"
  have "segment_ok v ?t sg"
    using r inside size chunk down assms(3)
    by (auto simp: segment_ok_def sg_def unat_gt_0 simp flip: unat_pos_iff)
  then show ?thesis
    using assms(3) loc r chunk
    by (intro that [of sg]) (auto simp: nextSegment_def sg_def Let_def chunk_def avail_def)
qed

lemma drain_tiles:
  assumes "searchable v" "table_index (rc_table c) < 4"
    and "rc_remaining c \<noteq> 0 \<longrightarrow> unat (rc_nextAddress c) + unat (rc_remaining c) \<le> 65536"
    and "unat (rc_sourceOffset c) + unat (rc_remaining c) < 65536"
    and "\<forall>x. unat (rc_nextAddress c) \<le> x \<and> x < unat (rc_nextAddress c) + unat (rc_remaining c)
           \<longrightarrow> covered v (table_index (rc_table c)) x"
  shows "\<exists>sgs. drain v c = Some sgs \<and>
    tiles v (table_index (rc_table c)) (unat (rc_nextAddress c)) (unat (rc_sourceOffset c))
      (unat (rc_remaining c)) sgs"
  using assms(2-)
proof (induction "unat (rc_remaining c)" arbitrary: c rule: less_induct)
  case less
  show ?case
  proof (cases "rc_remaining c = 0")
    case True
    then show ?thesis by (subst drain.simps) (simp add: nextSegment_def)
  next
    case False
    then have pos: "0 < unat (rc_remaining c)" by (simp add: unat_gt_0)
    from less.prems(4) pos have "covered v (table_index (rc_table c)) (unat (rc_nextAddress c))"
      by simp
    from nextSegment_spec [OF assms(1) less.prems(1) False this] obtain sg where
      step: "nextSegment v c = Some (c\<lparr>rc_nextAddress := rc_nextAddress c + sg_count sg,
         rc_remaining := rc_remaining c - sg_count sg,
         rc_sourceOffset := rc_sourceOffset c + sg_count sg\<rparr>, Some sg)" (is "_ = Some (?c', _)")
      and sg: "segment_ok v (table_index (rc_table c)) sg" "sg_upstreamStart sg = rc_nextAddress c"
        "sg_sourceOffset sg = rc_sourceOffset c" "unat (sg_count sg) \<le> unat (rc_remaining c)"
      by metis
    have n: "0 < unat (sg_count sg)" using sg(1) by (auto simp: segment_ok_def)
    have bound: "unat (rc_nextAddress c) + unat (rc_remaining c) \<le> 65536"
      using less.prems(2) False by simp
    note adv = unat_advance [OF sg(4) bound]
    have off: "unat (rc_sourceOffset c + sg_count sg) = unat (rc_sourceOffset c) + unat (sg_count sg)"
      using less.prems(3) sg(4) by (simp add: width_simps)
    have rest: "\<exists>sgs. drain v ?c' = Some sgs \<and>
      tiles v (table_index (rc_table ?c')) (unat (rc_nextAddress ?c')) (unat (rc_sourceOffset ?c'))
        (unat (rc_remaining ?c')) sgs"
    proof (rule less.hyps)
      show "\<forall>x. unat (rc_nextAddress ?c') \<le> x \<and>
          x < unat (rc_nextAddress ?c') + unat (rc_remaining ?c')
          \<longrightarrow> covered v (table_index (rc_table ?c')) x"
        using less.prems(4) adv sg(4) by (cases "rc_remaining c - sg_count sg = 0") auto
    qed (use less.prems adv n sg(4) off pos bound in auto)
    show ?thesis
    proof (cases "rc_remaining c - sg_count sg = 0")
      case True
      with adv sg n show ?thesis
        by (subst drain.simps) (simp add: step, subst drain.simps, simp add: nextSegment_def)
    next
      case False
      with rest adv sg off show ?thesis
        by (subst drain.simps) (auto simp: step)
    qed
  qed
qed

end
