(* ===== verification/Route_Properties.thy ===== *)
theory Route_Properties
  imports Route_Table
begin

text \<open>
  The properties of \<open>RouteTable.h\<close>, with the concrete tables their witnesses use: the
  two-endpoint table of the package documentation, and a long table that shows where the
  signed 16-bit search indices of \<open>locate\<close> stop working.
\<close>

section \<open>Example tables\<close>

text \<open>The two-endpoint holding-register table of the package documentation.\<close>

definition holding_route :: "u8 \<Rightarrow> AddressRange \<Rightarrow> AddressRange \<Rightarrow> EndpointRoute" where
  "holding_route endpoint up down =
     \<lparr>er_endpointId = endpoint, er_upstream = (emptyRange, emptyRange, up, emptyRange),
      er_downstream = (emptyRange, emptyRange, down, emptyRange)\<rparr>"

definition example_view :: RouteTableView where
  "example_view =
     \<lparr>rt_routes = Some
        [holding_route 4 \<lparr>ar_start = 100, ar_count = 4\<rparr> \<lparr>ar_start = 0, ar_count = 4\<rparr>,
         holding_route 9 \<lparr>ar_start = 104, ar_count = 3\<rparr> \<lparr>ar_start = 20, ar_count = 3\<rparr>],
      rt_count = 2\<rparr>"

lemma example_view_backed: "backed example_view"
  by (simp add: backed_def example_view_def)

lemma example_view_valid: "validate example_view = Some Table_Valid"
  by code_simp

lemma example_searchable: "searchable example_view"
  by (simp add: searchable_def valid_view_def example_view_backed example_view_valid)
    (simp add: example_view_def)

text \<open>A table of \<open>n\<close> one-register holding routes at addresses \<open>0, 1, ..., n - 1\<close>.\<close>

definition long_view :: "nat \<Rightarrow> RouteTableView" where
  "long_view n =
     \<lparr>rt_routes = Some (map (\<lambda>i. holding_route 1 \<lparr>ar_start = of_nat i, ar_count = 1\<rparr>
                                   \<lparr>ar_start = 0, ar_count = 1\<rparr>) [0..<n]),
      rt_count = of_nat n\<rparr>"

lemma long_view_count: "n \<le> 65535 \<Longrightarrow> unat (rt_count (long_view n)) = n"
  by (simp add: long_view_def unsigned_of_nat take_bit_nat_eq_self)

lemma long_view_route:
  "i < n \<Longrightarrow> route_at (long_view n) i = Some (holding_route 1 \<lparr>ar_start = of_nat i, ar_count = 1\<rparr>
                                   \<lparr>ar_start = 0, ar_count = 1\<rparr>)"
  by (simp add: route_at_def long_view_def)

lemma long_view_backed: "n \<le> 65535 \<Longrightarrow> backed (long_view n)"
  using long_view_count [of n] by (simp add: backed_def) (simp add: long_view_def)

lemma long_view_table_ok:
  assumes "n \<le> 65535" "t < 4"
  shows "table_ok (long_view n) t"
proof -
  have "t = 0 \<or> t = 1 \<or> t = 2 \<or> t = 3"
    using assms(2) by (rule u8_below_4)
  moreover have "unat (of_nat i :: u16) = i" if "i < n" for i
    using that assms(1) by (simp add: unsigned_of_nat take_bit_nat_eq_self)
  ultimately show ?thesis
    using assms(1) unfolding table_ok_def prefix_ok_def long_view_count [OF assms(1)]
    by (auto simp: upstream_at_def downstream_at_def long_view_route holding_route_def emptyRange_def)
qed

lemma long_view_valid: "n \<le> 65535 \<Longrightarrow> valid_view (long_view n)"
  by (simp add: valid_view_def validate_iff long_view_backed long_view_table_ok)

lemma long_view_up: "i < n \<Longrightarrow> up_range (long_view n) 2 i = \<lparr>ar_start = of_nat i, ar_count = 1\<rparr>"
  by (simp add: upstream_at_def long_view_route holding_route_def)

lemma long_view_owner:
  assumes "n \<le> 65535" "unat a < n"
  shows "owner (long_view n) 2 a = Some (unat a)"
proof -
  have "found_ok (long_view n) 2 a (Some a)"
    using assms by (simp add: found_ok_def long_view_count long_view_up range_contains_iff)
  from found_ok_owner [OF long_view_table_ok this] assms show ?thesis by simp
qed

text \<open>The search indices are signed 16-bit values: more than 32768 routes look like none.\<close>

lemma locate_too_many_routes:
  assumes "32768 < unat (rt_count v)" "rt_routes v \<noteq> None" "table_index table < 4"
  shows "locate v table a = Some None"
proof -
  obtain k where k: "unat (rt_count v) = k" by simp
  have "k < 65536" using k unat_u16_bound [of "rt_count v"] by simp
  have "rt_count v - 1 = word_of_int (int (unat (rt_count v)) - 1)"
    by (simp add: wi_hom_syms)
  also have "\<dots> = word_of_int (int k - 1 - 65536)"
    unfolding k by (simp add: word_of_int_eq_iff take_bit_eq_mod mod_diff_eq)
  finally have "sint (rt_count v - 1) = sint (word_of_int (int k - 1 - 65536) :: u16)"
    by (rule arg_cong)
  also have "\<dots> = int k - 1 - 65536"
    using assms(1) k \<open>k < 65536\<close> by (intro sint_of_int16) auto
  finally have "sint (rt_count v - 1) = int k - 1 - 65536" .
  then have "\<not> sint (0 :: u16) \<le> sint (rt_count v - 1)"
    using \<open>k < 65536\<close> by simp
  then have "locate_loop v (table_index table) a 0 (rt_count v - 1) = Some None"
    by (subst locate_loop.simps) simp
  with assms(2,3) show ?thesis by (auto simp: locate_def not_le [symmetric])
qed

text \<open>
  With exactly 32768 routes the search for an address above every range climbs until the low
  index wraps; the next iteration then reads route 65535.
\<close>

lemma search_climbs:
  assumes "\<And>i. i < 32768 \<Longrightarrow> \<exists>rg. upstream_at v i t = Some rg \<and> hi rg \<le> unat a"
    and "0 \<le> l" "l \<le> 32767"
  shows "(narrows v t a)\<^sup>*\<^sup>* (word_of_int l, 32767) (word_of_int 32768, 32767)"
  using assms(2,3)
proof (induction "nat (32767 - l)" arbitrary: l rule: less_induct)
  case less
  define m where "m = l + (32767 - l) div 2"
  have m: "l \<le> m" "m \<le> 32767" using less.prems by (auto simp: m_def)
  have mid: "middle16 (word_of_int l) 32767 = word_of_int m"
    using less.prems by (simp add: middle16_def sint_of_int16 [of l] m_def)
  have idx: "unat (word_of_int m :: u16) = nat m"
    using m less.prems by (intro unat_of_int16) auto
  have "nat m < 32768" using m by linarith
  then obtain rg where rg: "upstream_at v (nat m) t = Some rg" "hi rg \<le> unat a"
    using assms(1) by blast
  have "sint (word_of_int l :: u16) \<le> sint (32767 :: u16)"
    using less.prems by (simp add: sint_of_int16 [of l])
  then have step: "narrows v t a (word_of_int l, 32767) (word_of_int (m + 1), 32767)"
    using rg
    by (simp add: narrows_def locate_step_def mid idx Let_def unat_order width_simps wi_hom_syms)
  show ?case
  proof (cases "m + 1 \<le> 32767")
    case True
    then have "(narrows v t a)\<^sup>*\<^sup>* (word_of_int (m + 1), 32767) (word_of_int 32768, 32767)"
      using m less.prems by (intro less.hyps) auto
    with step show ?thesis by (rule converse_rtranclp_into_rtranclp)
  next
    case False
    then have "m + 1 = 32768" using m by simp
    with step show ?thesis by (metis r_into_rtranclp)
  qed
qed

lemma climbed_reads_outside:
  assumes "rt_routes v = Some routes" "length routes \<le> 65535"
  shows "locate_step v t a (word_of_int 32768) 32767 = Search_Outside 65535"
proof -
  have "unat (-1 :: u16) = 65535" by (simp add: unsigned_minus_1_eq_mask mask_eq_exp_minus_1)
  moreover from this have "upstream_at v 65535 t = None"
    using assms by (simp add: upstream_at_def route_at_def)
  ultimately show ?thesis by (simp add: locate_step_def middle16_def Let_def)
qed

section \<open>Properties\<close>

text \<open>
  C12. Validation always returns, and it returns \<open>Valid\<close> exactly for the tables in which,
  for each of the four register tables, upstream and downstream counts agree, no range
  passes address 65536, the starts ascend, and every populated range ends at or before the
  start of each later route.
\<close>

theorem validate_exact:
  assumes "backed v"
  shows "\<exists>s. validate v = Some s \<and> (s = Table_Valid \<longleftrightarrow> (\<forall>t<4. table_ok v t))"
  using validate_total [OF assms] validate_iff [OF assms] by auto

lemma validate_exact_witness:
  "\<exists>s. validate example_view = Some s \<and> (s = Table_Valid \<longleftrightarrow> (\<forall>t<4. table_ok example_view t))"
  by (rule validate_exact [OF example_view_backed])

text \<open>
  C13. On a validated table of at most 32767 routes the binary search of \<open>locate\<close> returns,
  stays inside the route storage, and finds exactly the route that a linear scan finds: the
  unique route whose upstream range contains the address, and none when there is none.
\<close>

theorem locate_is_linear_scan:
  assumes "searchable v" "table_index table < 4"
  shows "\<exists>r. locate v table a = Some r \<and> map_option unat r = owner v (table_index table) a"
proof -
  obtain r where r: "locate v table a = Some r" "found_ok v (table_index table) a r"
    using locate_spec [OF assms] by blast
  from found_ok_owner [OF searchable_table_ok [OF assms] r(2)] r(1) show ?thesis by simp
qed

lemma locate_is_linear_scan_witness:
  "\<exists>r. locate example_view HoldingRegisters 105 = Some r \<and>
     map_option unat r = owner example_view 2 105"
  using locate_is_linear_scan [OF example_searchable, of HoldingRegisters 105] by simp

text \<open>
  C14. \<open>inspectSpan\<close> classifies every request exactly: an empty request, a request past
  address 65535, a request with at least one unmapped address, and otherwise \<open>Complete\<close>.
\<close>

theorem inspectSpan_exact:
  assumes "searchable v" "table_index table < 4"
  shows "inspectSpan v table start count = Some (
    if count = 0 then Span_Empty
    else if unat start + unat count > 65536 then Span_AddressOverflow
    else if \<forall>x\<in>{unat start..<unat start + unat count}. covered v (table_index table) x
    then Span_Complete else Span_Gap)"
  using inspectSpan_spec [OF assms, of start count] by (simp add: Ball_def)

lemma inspectSpan_exact_witness:
  "inspectSpan example_view HoldingRegisters 102 5 = Some (
    if (5 :: u16) = 0 then Span_Empty
    else if unat (102 :: u16) + unat (5 :: u16) > 65536 then Span_AddressOverflow
    else if \<forall>x\<in>{unat (102 :: u16)..<unat (102 :: u16) + unat (5 :: u16)}. covered example_view 2 x
    then Span_Complete else Span_Gap)"
  using inspectSpan_exact [OF example_searchable, of HoldingRegisters 102 5]
  by (simp del: atLeastLessThan_iff)

text \<open>
  C15. When \<open>beginSpan\<close> returns \<open>Complete\<close>, the documented loop over \<open>next\<close> ends, and
  its segments tile the request: they start at the requested address and at snapshot offset
  zero, follow each other without gap or overlap up to the requested count, and each lies in
  the upstream range of its route and is translated into the matching downstream addresses.
\<close>

theorem complete_span_tiles:
  assumes "searchable v" "table_index table < 4"
    and "beginSpan v table start count = Some (Span_Complete, c)"
  shows "\<exists>sgs. drain v c = Some sgs \<and>
    tiles v (table_index table) (unat start) 0 (unat count) sgs"
proof -
  have "inspectSpan v table start count = Some Span_Complete"
    and c: "c = \<lparr>rc_table = table, rc_nextAddress = start, rc_remaining = count,
      rc_sourceOffset = 0\<rparr>"
    using assms(3) by (auto simp: beginSpan_def split: bind_splits if_splits)
  then have "unat start + unat count \<le> 65536"
    and "\<forall>x. unat start \<le> x \<and> x < unat start + unat count \<longrightarrow> covered v (table_index table) x"
    using inspectSpan_spec [OF assms(1,2), of start count] by (auto split: if_splits)
  then show ?thesis
    using drain_tiles [OF assms(1), of c] assms(2) by (simp add: c)
qed

lemma complete_span_tiles_witness:
  "\<exists>sgs. drain example_view \<lparr>rc_table = HoldingRegisters, rc_nextAddress = 102,
       rc_remaining = 5, rc_sourceOffset = 0\<rparr> = Some sgs \<and>
     tiles example_view 2 102 0 5 sgs"
proof -
  have "beginSpan example_view HoldingRegisters 102 5 =
      Some (Span_Complete, \<lparr>rc_table = HoldingRegisters, rc_nextAddress = 102,
        rc_remaining = 5, rc_sourceOffset = 0\<rparr>)"
    by code_simp
  from complete_span_tiles [OF example_searchable _ this] show ?thesis by simp
qed

text \<open>
  C16. A table of 32769 to 65535 routes can pass \<open>validate\<close>, yet \<open>locate\<close> finds none of
  its routes: the initial \<open>int16_t\<close> upper index is negative and the search returns
  \<open>false\<close> for an address that the table maps.
\<close>

theorem locate_loses_long_tables:
  assumes "32768 < n" "n \<le> 65535" "unat a < n"
  shows "valid_view (long_view n) \<and> owner (long_view n) 2 a = Some (unat a) \<and>
    locate (long_view n) HoldingRegisters a = Some None"
proof (intro conjI)
  have "rt_routes (long_view n) \<noteq> None" by (simp add: long_view_def)
  then show "locate (long_view n) HoldingRegisters a = Some None"
    using assms(1,2) by (intro locate_too_many_routes) (simp_all add: long_view_count)
qed (simp_all add: assms long_view_valid long_view_owner)

lemma locate_loses_long_tables_witness:
  "valid_view (long_view 40000) \<and> locate (long_view 40000) HoldingRegisters 5 = Some None"
  using locate_loses_long_tables [of 40000 5] by simp

text \<open>
  C17. On every validated table of exactly 32768 routes, in storage of just these routes, the
  search for an address above every range of the register table is undefined. It does not loop:
  after finitely many iterations the \<open>int16_t\<close> lower index has wrapped to -32768, and the next
  iteration reads \<open>routes_[65535]\<close>, outside of the array.
\<close>

theorem locate_reads_out_of_bounds:
  assumes "valid_view v" "rt_count v = 32768" "rt_routes v = Some routes" "length routes = 32768"
    and "table_index table < 4"
    and "\<And>i. i < 32768 \<Longrightarrow> hi (up_range v (table_index table) i) \<le> unat a"
  shows "\<exists>low. (narrows v (table_index table) a)\<^sup>*\<^sup>* (0, rt_count v - 1) (low, 32767) \<and>
    sint low = -32768 \<and>
    locate_step v (table_index table) a low 32767 = Search_Outside 65535 \<and>
    locate v table a = None"
proof -
  let ?t = "table_index table" and ?low = "word_of_int 32768 :: u16"
  have high: "rt_count v - 1 = 32767" using assms(2) by simp
  have "\<exists>rg. upstream_at v i ?t = Some rg \<and> hi rg \<le> unat a" if "i < 32768" for i
    using upstream_at_backed [of v i ?t] assms(1,2,5) assms(6) [OF that] that
    by (auto simp: valid_view_def)
  from search_climbs [OF this, of 0]
  have climb: "(narrows v ?t a)\<^sup>*\<^sup>* (0, rt_count v - 1) (?low, 32767)" unfolding high by simp
  have outside: "locate_step v ?t a ?low 32767 = Search_Outside 65535"
    using assms(4) by (intro climbed_reads_outside [OF assms(3)]) linarith
  have "locate v table a = None"
    using narrows_locate_loop [OF climb] locate_loop_step [of v ?t a ?low 32767] outside assms(3,5)
    by (simp add: locate_def not_le [symmetric])
  moreover have "sint ?low = -32768" by simp
  ultimately show ?thesis using climb outside by blast
qed

lemma locate_reads_out_of_bounds_witness:
  "\<exists>low. (narrows (long_view 32768) 2 50000)\<^sup>*\<^sup>* (0, 32767) (low, 32767) \<and> sint low = -32768 \<and>
    locate_step (long_view 32768) 2 50000 low 32767 = Search_Outside 65535 \<and>
    locate (long_view 32768) HoldingRegisters 50000 = None"
proof -
  obtain n :: nat where n: "n = 32768" by simp
  have count: "rt_count (long_view n) = 32768" by (simp add: long_view_def n)
  have "\<exists>routes. rt_routes (long_view n) = Some routes \<and> length routes = 32768"
    by (simp add: long_view_def n del: upt_conv_Cons)
  then obtain routes where r: "rt_routes (long_view n) = Some routes" "length routes = 32768" by blast
  have "hi (up_range (long_view n) 2 i) \<le> unat (50000 :: u16)" if "i < 32768" for i
    using that by (simp add: long_view_up n unsigned_of_nat take_bit_nat_eq_self)
  from locate_reads_out_of_bounds [OF long_view_valid count r, of HoldingRegisters 50000] this
  show ?thesis by (simp add: count) (simp add: n)
qed

end
