(* ===== verification/Downstream_Executor.thy ===== *)
theory Downstream_Executor
  imports Bridge_Prelude
begin

text \<open>
  Model of \<open>DownstreamExecutor.h\<close>: the downstream request, its validation and the
  stateless executor. The backend is a template parameter of the code; here it is a record
  of functions on a backend state, an argument of the executor.
\<close>

section \<open>Requests\<close>

datatype DownstreamOperation =
  ReadCoils | ReadDiscreteInputs | ReadHoldingRegisters | ReadInputRegisters
| WriteSingleCoil | WriteSingleHoldingRegister | WriteMultipleCoils
| WriteMultipleHoldingRegisters | OtherOperation u8

record DownstreamRequest =
  dr_sequence :: u32
  dr_operation :: DownstreamOperation
  dr_endpointId :: u8
  dr_startAddress :: u16
  dr_quantity :: u16
  dr_coilBuffer :: "bool ptr"
  dr_registerBuffer :: "u16 ptr"
  dr_coilValue :: bool
  dr_registerValue :: u16
  dr_consistencyContext :: void_ptr

definition newDownstreamRequest :: DownstreamRequest where
  "newDownstreamRequest =
     \<lparr>dr_sequence = 0, dr_operation = ReadCoils, dr_endpointId = 0, dr_startAddress = 0,
      dr_quantity = 0, dr_coilBuffer = Null, dr_registerBuffer = Null, dr_coilValue = False,
      dr_registerValue = 0, dr_consistencyContext = Null\<rparr>"

datatype DownstreamRequestStatus =
  Request_Valid | Request_InvalidQuantity | Request_InvalidBuffer | Request_InvalidOperation

definition validate_coil_buffer :: "DownstreamRequest \<Rightarrow> DownstreamRequestStatus" where
  "validate_coil_buffer r =
     (if dr_quantity r = 0 then Request_InvalidQuantity
      else if dr_coilBuffer r \<noteq> Null then Request_Valid else Request_InvalidBuffer)"

definition validate_register_buffer :: "DownstreamRequest \<Rightarrow> DownstreamRequestStatus" where
  "validate_register_buffer r =
     (if dr_quantity r = 0 then Request_InvalidQuantity
      else if dr_registerBuffer r \<noteq> Null then Request_Valid else Request_InvalidBuffer)"

definition validateDownstreamRequest :: "DownstreamRequest \<Rightarrow> DownstreamRequestStatus" where
  "validateDownstreamRequest r =
     (case dr_operation r of
        ReadCoils \<Rightarrow> validate_coil_buffer r
      | ReadDiscreteInputs \<Rightarrow> validate_coil_buffer r
      | WriteMultipleCoils \<Rightarrow> validate_coil_buffer r
      | ReadHoldingRegisters \<Rightarrow> validate_register_buffer r
      | ReadInputRegisters \<Rightarrow> validate_register_buffer r
      | WriteMultipleHoldingRegisters \<Rightarrow> validate_register_buffer r
      | WriteSingleCoil \<Rightarrow> Request_Valid
      | WriteSingleHoldingRegister \<Rightarrow> Request_Valid
      | OtherOperation _ \<Rightarrow> Request_InvalidOperation)"

section \<open>Backend contract and execution\<close>

record 'r DownstreamCompletion =
  dk_sequence :: u32
  dk_result :: 'r
  dk_exceptionCode :: u8

type_synonym ('s, 'r) backend_call = "DownstreamRequest \<Rightarrow> 's \<Rightarrow> 'r \<times> 's"

record ('s, 'r) Backend =
  bk_invalidQuantityResult :: "'s \<Rightarrow> 'r"
  bk_invalidBufferResult :: "'s \<Rightarrow> 'r"
  bk_invalidOperationResult :: "'s \<Rightarrow> 'r"
  bk_exceptionCode :: "'s \<Rightarrow> u8"
  bk_readCoils :: "('s, 'r) backend_call"
  bk_readDiscreteInputs :: "('s, 'r) backend_call"
  bk_readHoldingRegisters :: "('s, 'r) backend_call"
  bk_readInputRegisters :: "('s, 'r) backend_call"
  bk_writeSingleCoil :: "('s, 'r) backend_call"
  bk_writeSingleHoldingRegister :: "('s, 'r) backend_call"
  bk_writeMultipleCoils :: "('s, 'r) backend_call"
  bk_writeMultipleHoldingRegisters :: "('s, 'r) backend_call"

definition executeValidatedDownstreamRequest ::
  "('s, 'r) Backend \<Rightarrow> DownstreamRequest \<Rightarrow> 's \<Rightarrow> 'r DownstreamCompletion \<times> 's" where
  "executeValidatedDownstreamRequest b r s =
     (let (result, s') =
        (case dr_operation r of
           ReadCoils \<Rightarrow> bk_readCoils b r s
         | ReadDiscreteInputs \<Rightarrow> bk_readDiscreteInputs b r s
         | ReadHoldingRegisters \<Rightarrow> bk_readHoldingRegisters b r s
         | ReadInputRegisters \<Rightarrow> bk_readInputRegisters b r s
         | WriteSingleCoil \<Rightarrow> bk_writeSingleCoil b r s
         | WriteSingleHoldingRegister \<Rightarrow> bk_writeSingleHoldingRegister b r s
         | WriteMultipleCoils \<Rightarrow> bk_writeMultipleCoils b r s
         | WriteMultipleHoldingRegisters \<Rightarrow> bk_writeMultipleHoldingRegisters b r s
         | OtherOperation _ \<Rightarrow> (bk_invalidOperationResult b s, s))
      in (\<lparr>dk_sequence = dr_sequence r, dk_result = result,
           dk_exceptionCode = bk_exceptionCode b s'\<rparr>, s'))"

definition executeDownstreamRequest ::
  "('s, 'r) Backend \<Rightarrow> DownstreamRequest \<Rightarrow> 's \<Rightarrow> 'r DownstreamCompletion \<times> 's" where
  "executeDownstreamRequest b r s =
     (let validation = validateDownstreamRequest r in
      if validation = Request_InvalidQuantity
      then (\<lparr>dk_sequence = dr_sequence r, dk_result = bk_invalidQuantityResult b s,
             dk_exceptionCode = 0\<rparr>, s)
      else if validation = Request_InvalidBuffer
      then (\<lparr>dk_sequence = dr_sequence r, dk_result = bk_invalidBufferResult b s,
             dk_exceptionCode = 0\<rparr>, s)
      else if validation \<noteq> Request_Valid
      then (\<lparr>dk_sequence = dr_sequence r, dk_result = bk_invalidOperationResult b s,
             dk_exceptionCode = 0\<rparr>, s)
      else executeValidatedDownstreamRequest b r s)"

section \<open>Calls of the backend\<close>

text \<open>The instrumented backend: it behaves like \<open>b\<close> and appends every call to a log.\<close>

type_synonym backend_log = "(DownstreamOperation \<times> DownstreamRequest) list"

definition log_call ::
  "DownstreamOperation \<Rightarrow> ('s, 'r) backend_call \<Rightarrow> ('s \<times> backend_log, 'r) backend_call" where
  "log_call operation call r s =
     (let (result, s') = call r (fst s) in (result, (s', snd s @ [(operation, r)])))"

definition logged :: "('s, 'r) Backend \<Rightarrow> ('s \<times> backend_log, 'r) Backend" where
  "logged b =
     \<lparr>bk_invalidQuantityResult = bk_invalidQuantityResult b \<circ> fst,
      bk_invalidBufferResult = bk_invalidBufferResult b \<circ> fst,
      bk_invalidOperationResult = bk_invalidOperationResult b \<circ> fst,
      bk_exceptionCode = bk_exceptionCode b \<circ> fst,
      bk_readCoils = log_call ReadCoils (bk_readCoils b),
      bk_readDiscreteInputs = log_call ReadDiscreteInputs (bk_readDiscreteInputs b),
      bk_readHoldingRegisters = log_call ReadHoldingRegisters (bk_readHoldingRegisters b),
      bk_readInputRegisters = log_call ReadInputRegisters (bk_readInputRegisters b),
      bk_writeSingleCoil = log_call WriteSingleCoil (bk_writeSingleCoil b),
      bk_writeSingleHoldingRegister =
        log_call WriteSingleHoldingRegister (bk_writeSingleHoldingRegister b),
      bk_writeMultipleCoils = log_call WriteMultipleCoils (bk_writeMultipleCoils b),
      bk_writeMultipleHoldingRegisters =
        log_call WriteMultipleHoldingRegisters (bk_writeMultipleHoldingRegisters b)\<rparr>"

lemma validate_Valid_iff:
  "validateDownstreamRequest r = Request_Valid \<longleftrightarrow>
     (case dr_operation r of
        WriteSingleCoil \<Rightarrow> True
      | WriteSingleHoldingRegister \<Rightarrow> True
      | ReadHoldingRegisters \<Rightarrow> dr_quantity r \<noteq> 0 \<and> dr_registerBuffer r \<noteq> Null
      | ReadInputRegisters \<Rightarrow> dr_quantity r \<noteq> 0 \<and> dr_registerBuffer r \<noteq> Null
      | WriteMultipleHoldingRegisters \<Rightarrow> dr_quantity r \<noteq> 0 \<and> dr_registerBuffer r \<noteq> Null
      | OtherOperation _ \<Rightarrow> False
      | _ \<Rightarrow> dr_quantity r \<noteq> 0 \<and> dr_coilBuffer r \<noteq> Null)"
  by (simp add: validateDownstreamRequest_def validate_coil_buffer_def
      validate_register_buffer_def split: DownstreamOperation.splits)

lemma executeValidated_logged:
  assumes "validateDownstreamRequest r = Request_Valid"
  shows "executeValidatedDownstreamRequest (logged b) r (s, log) =
    (let (k, s') = executeValidatedDownstreamRequest b r s
     in (k, (s', log @ [(dr_operation r, r)])))"
  using assms
  by (cases "dr_operation r")
    (simp_all add: executeValidatedDownstreamRequest_def logged_def log_call_def split_beta
      validateDownstreamRequest_def)

text \<open>
  C22. The executor makes exactly one backend call for a valid request, the one its operation
  names and with the request as given, and none for a rejected request, whose completion then
  carries no exception code and leaves the backend as it was. Logging changes neither the
  completion nor the backend, and every completion echoes the request's sequence.
\<close>

theorem executor_single_call:
  "executeDownstreamRequest (logged b) r (s, log) =
     (let (k, s') = executeDownstreamRequest b r s
      in (k, (s', if validateDownstreamRequest r = Request_Valid
                  then log @ [(dr_operation r, r)] else log))) \<and>
   dk_sequence (fst (executeDownstreamRequest b r s)) = dr_sequence r \<and>
   (validateDownstreamRequest r = Request_Valid \<or>
      snd (executeDownstreamRequest b r s) = s \<and>
      dk_exceptionCode (fst (executeDownstreamRequest b r s)) = 0)"
proof (cases "validateDownstreamRequest r = Request_Valid")
  case True
  then show ?thesis
    using executeValidated_logged [OF True]
    by (simp add: executeDownstreamRequest_def executeValidatedDownstreamRequest_def split_beta)
next
  case False
  then show ?thesis
    by (cases "validateDownstreamRequest r")
      (simp_all add: executeDownstreamRequest_def logged_def)
qed

end
