(* ===== verification/Poll_Planner.thy ===== *)
theory Poll_Planner
  imports Downstream_Executor
begin

text \<open>
  Model of \<open>PollPlanner.h\<close>: the modular deadline test, the transient round-robin scan, the
  selection between a ready forward write and due polls, the commit of a selection, and the
  scalar-only wrapper \<open>PollIndexScan\<close>. A candidate array is \<open>None\<close> for a null pointer and
  otherwise a list; reading outside of it is undefined (\<open>None\<close>).
\<close>

section \<open>Data\<close>

definition pollDeadlineReached32 :: "u32 \<Rightarrow> u32 \<Rightarrow> bool" where
  "pollDeadlineReached32 now dueAt \<longleftrightarrow> now - dueAt < 0x80000000"

record PollCandidate =
  pc_request :: DownstreamRequest
  pc_dueAt :: u32
  pc_enabled :: bool
  pc_requiresDispatch :: bool

datatype ScheduledActionKind = Action_None | ForwardWrite | Poll | OtherAction u8

record PollSelection =
  ps_kind :: ScheduledActionKind
  ps_pollIndex :: u16
  ps_originatingPollCount :: u16
  ps_pollCountBound :: bool

definition newPollSelection :: PollSelection where
  "newPollSelection = \<lparr>ps_kind = Action_None, ps_pollIndex = 0,
     ps_originatingPollCount = 0, ps_pollCountBound = False\<rparr>"

definition unboundPollSelection :: "ScheduledActionKind \<Rightarrow> u16 \<Rightarrow> PollSelection" where
  "unboundPollSelection selectedKind selectedPoll = \<lparr>ps_kind = selectedKind,
     ps_pollIndex = selectedPoll, ps_originatingPollCount = 0, ps_pollCountBound = False\<rparr>"

definition fromCandidateSet :: "ScheduledActionKind \<Rightarrow> u16 \<Rightarrow> u16 \<Rightarrow> PollSelection" where
  "fromCandidateSet selectedKind selectedPoll pollCount =
     (unboundPollSelection selectedKind selectedPoll)
       \<lparr>ps_originatingPollCount := pollCount, ps_pollCountBound := True\<rparr>"

record PollPlannerState =
  pp_nextPollIndex :: u16
  pp_forwardsSincePoll :: u16
  pp_lastPollAt :: u32
  pp_hasConsumedPoll :: bool

definition newPollPlannerState :: PollPlannerState where
  "newPollPlannerState = \<lparr>pp_nextPollIndex = 0, pp_forwardsSincePoll = 0,
     pp_lastPollAt = 0, pp_hasConsumedPoll = False\<rparr>"

record PollScanCursor =
  pn_nextIndex :: u16
  pn_remaining :: u16
  pn_candidateCount :: u16
  pn_active :: bool

definition newPollScanCursor :: PollScanCursor where
  "newPollScanCursor = \<lparr>pn_nextIndex = 0, pn_remaining = 0, pn_candidateCount = 0,
     pn_active = False\<rparr>"

datatype PollDueStatus = Due_Due | Due_Complete | Due_InvalidStorage | Due_CandidateCountChanged

datatype PollSelectStatus = Select_Selected | Select_NoAction | Select_InvalidStorage

record PollPlannerOptions =
  po_maxConsecutiveForwards :: u16

definition newPollPlannerOptions :: PollPlannerOptions where
  "newPollPlannerOptions = \<lparr>po_maxConsecutiveForwards = 1\<rparr>"

section \<open>The round-robin scan\<close>

definition beginPollScan :: "u16 \<Rightarrow> PollPlannerState \<Rightarrow> PollScanCursor" where
  "beginPollScan pollCount st =
     (if pollCount = 0 then newPollScanCursor
      else \<lparr>pn_nextIndex = (if pp_nextPollIndex st < pollCount then pp_nextPollIndex st else 0),
            pn_remaining = pollCount, pn_candidateCount = pollCount, pn_active = True\<rparr>)"

text \<open>\<open>Some index\<close> is the status \<open>Candidate\<close> with its out parameter, \<open>None\<close> is \<open>Complete\<close>.\<close>

definition nextIndex :: "PollScanCursor \<Rightarrow> u16 option \<times> PollScanCursor" where
  "nextIndex cursor =
     (if \<not> pn_active cursor \<or> pn_remaining cursor = 0 \<or> pn_candidateCount cursor = 0
      then (None, cursor\<lparr>pn_active := False\<rparr>)
      else let nxt = pn_nextIndex cursor + 1;
               remaining = pn_remaining cursor - 1
           in (Some (pn_nextIndex cursor),
               cursor\<lparr>pn_nextIndex := (if nxt = pn_candidateCount cursor then 0 else nxt),
                      pn_remaining := remaining,
                      pn_active := (if remaining = 0 then False else pn_active cursor)\<rparr>))"

definition poll_at :: "PollCandidate list option \<Rightarrow> nat \<Rightarrow> PollCandidate option" where
  "poll_at polls i =
     (case polls of None \<Rightarrow> None | Some xs \<Rightarrow> if i < length xs then Some (xs ! i) else None)"

lemma nextIndex_remaining:
  "nextIndex cursor = (Some i, cursor') \<Longrightarrow> unat (pn_remaining cursor') < unat (pn_remaining cursor)"
  by (auto simp: nextIndex_def Let_def unat_minus_one unat_gt_0 split: if_splits)

function due_loop ::
  "u32 \<Rightarrow> PollCandidate list option \<Rightarrow> PollScanCursor \<Rightarrow> (u16 option \<times> PollScanCursor) option" where
  "due_loop now polls cursor =
     (case nextIndex cursor of
        (None, cursor') \<Rightarrow> Some (None, cursor')
      | (Some index, cursor') \<Rightarrow>
          (case poll_at polls (unat index) of
             None \<Rightarrow> None
           | Some candidate \<Rightarrow>
               if pc_enabled candidate \<and> pollDeadlineReached32 now (pc_dueAt candidate)
               then Some (Some index, cursor')
               else due_loop now polls cursor'))"
  by pat_completeness auto
termination
  by (relation "measure (\<lambda>(now, polls, cursor). unat (pn_remaining cursor))")
    (auto simp: nextIndex_remaining [OF sym])

declare due_loop.simps [simp del]

definition nextDue ::
  "u32 \<Rightarrow> PollCandidate list option \<Rightarrow> u16 \<Rightarrow> PollScanCursor \<Rightarrow>
     (PollDueStatus \<times> PollScanCursor \<times> PollSelection) option" where
  "nextDue now polls pollCount cursor =
     (if pollCount \<noteq> 0 \<and> polls = None
      then Some (Due_InvalidStorage, newPollScanCursor, newPollSelection)
      else if pn_candidateCount cursor \<noteq> pollCount
      then Some (Due_CandidateCountChanged, newPollScanCursor, newPollSelection)
      else do {
        (found, cursor') \<leftarrow> due_loop now polls cursor;
        Some (case found of
                None \<Rightarrow> (Due_Complete, cursor', newPollSelection)
              | Some index \<Rightarrow> (Due_Due, cursor', fromCandidateSet Poll index pollCount)) })"

section \<open>Selection and commit\<close>

definition select ::
  "PollPlannerOptions \<Rightarrow> u32 \<Rightarrow> bool \<Rightarrow> PollCandidate list option \<Rightarrow> u16 \<Rightarrow> PollPlannerState \<Rightarrow>
     (PollSelectStatus \<times> PollSelection) option" where
  "select options now forwardReady polls pollCount st =
     (if pollCount \<noteq> 0 \<and> polls = None then Some (Select_InvalidStorage, newPollSelection)
      else do {
        (scanStatus, _, dueSelection) \<leftarrow>
          nextDue now polls pollCount (beginPollScan pollCount st);
        let due = (scanStatus = Due_Due);
        Some (if scanStatus = Due_InvalidStorage \<or> scanStatus = Due_CandidateCountChanged
              then (Select_InvalidStorage, newPollSelection)
              else if forwardReady \<and>
                 (\<not> due \<or> pp_forwardsSincePoll st < po_maxConsecutiveForwards options)
              then (Select_Selected, fromCandidateSet ForwardWrite 0 pollCount)
              else if due then (Select_Selected, dueSelection)
              else if forwardReady
              then (Select_Selected, fromCandidateSet ForwardWrite 0 pollCount)
              else (Select_NoAction, newPollSelection)) })"

definition commit ::
  "PollSelection \<Rightarrow> u16 \<Rightarrow> u32 \<Rightarrow> PollPlannerState \<Rightarrow> bool \<times> PollPlannerState" where
  "commit selection pollCount now st =
     (if ps_pollCountBound selection \<and> ps_originatingPollCount selection \<noteq> pollCount
      then (False, st)
      else case ps_kind selection of
        ForwardWrite \<Rightarrow>
          (True, if pp_forwardsSincePoll st \<noteq> 0xFFFF
                 then st\<lparr>pp_forwardsSincePoll := pp_forwardsSincePoll st + 1\<rparr> else st)
      | Poll \<Rightarrow>
          (if pollCount = 0 \<or> ps_pollIndex selection \<ge> pollCount then (False, st)
           else let nxt = ps_pollIndex selection + 1 in
             (True, \<lparr>pp_nextPollIndex = (if nxt = pollCount then 0 else nxt),
                     pp_forwardsSincePoll = 0, pp_lastPollAt = now,
                     pp_hasConsumedPoll = True\<rparr>))
      | _ \<Rightarrow> (False, st))"

section \<open>PollIndexScan\<close>

record PollIndexScan =
  px_candidateCount :: u16
  px_state :: PollPlannerState
  px_scan :: PollScanCursor

definition newPollIndexScan :: "u16 \<Rightarrow> u16 \<Rightarrow> u32 \<Rightarrow> PollIndexScan" where
  "newPollIndexScan candidateCount nextPollIndex lastPollAt =
     (let st = newPollPlannerState
        \<lparr>pp_nextPollIndex := (if candidateCount \<noteq> 0 \<and> nextPollIndex < candidateCount
                              then nextPollIndex else 0),
         pp_lastPollAt := lastPollAt\<rparr>
      in \<lparr>px_candidateCount = candidateCount, px_state = st,
          px_scan = beginPollScan candidateCount st\<rparr>)"

definition indexScan_next :: "PollIndexScan \<Rightarrow> u16 option \<times> PollIndexScan" where
  "indexScan_next x =
     (let (found, cursor) = nextIndex (px_scan x) in (found, x\<lparr>px_scan := cursor\<rparr>))"

definition commitConsumed :: "PollIndexScan \<Rightarrow> u16 \<Rightarrow> u16 \<Rightarrow> u32 \<Rightarrow> bool \<times> PollIndexScan" where
  "commitConsumed x candidateIndex currentCandidateCount now =
     (let (ok, st) = commit (fromCandidateSet Poll candidateIndex (px_candidateCount x))
                       currentCandidateCount now (px_state x)
      in (ok, x\<lparr>px_state := st\<rparr>))"

section \<open>The scan order\<close>

text \<open>The indices that a cursor still visits, as the client loop over \<open>nextIndex\<close> sees them.\<close>

function scan_indices :: "PollScanCursor \<Rightarrow> u16 list" where
  "scan_indices cursor =
     (case nextIndex cursor of
        (None, _) \<Rightarrow> []
      | (Some i, cursor') \<Rightarrow> i # scan_indices cursor')"
  by pat_completeness auto
termination
  by (relation "measure (\<lambda>cursor. unat (pn_remaining cursor))")
    (auto simp: nextIndex_remaining [OF sym])

declare scan_indices.simps [simp del]

definition scan_ok :: "nat \<Rightarrow> PollScanCursor \<Rightarrow> bool" where
  "scan_ok n c \<longleftrightarrow>
     n = unat (pn_candidateCount c) \<and> pn_active c = (pn_remaining c \<noteq> 0) \<and>
     (pn_remaining c \<noteq> 0 \<longrightarrow> unat (pn_nextIndex c) < n)"

definition scan_start :: "u16 \<Rightarrow> PollPlannerState \<Rightarrow> nat" where
  "scan_start n st = (if pp_nextPollIndex st < n then unat (pp_nextPollIndex st) else 0)"

text \<open>Round robin: \<open>k\<close> steps of \<open>n\<close> candidates from \<open>a\<close>.\<close>

definition round_robin :: "nat \<Rightarrow> nat \<Rightarrow> nat \<Rightarrow> nat list" where
  "round_robin n a k = map (\<lambda>i. (a + i) mod n) [0..<k]"

lemma round_robin_Suc: "a < n \<Longrightarrow> round_robin n a (Suc k) = a # round_robin n (Suc a mod n) k"
  by (simp add: round_robin_def map_upt_Suc mod_add_left_eq del: upt_Suc)

lemma scan_ok_begin: "scan_ok (unat n) (beginPollScan n st)"
  by (auto simp: scan_ok_def beginPollScan_def newPollScanCursor_def word_less_nat_alt unat_gt_0)

lemma scan_ok_next:
  assumes "scan_ok n c" "pn_remaining c \<noteq> 0"
  obtains c' where "nextIndex c = (Some (pn_nextIndex c), c')" "scan_ok n c'"
    "unat (pn_nextIndex c') = Suc (unat (pn_nextIndex c)) mod n"
    "unat (pn_remaining c) = Suc (unat (pn_remaining c'))"
    "pn_candidateCount c' = pn_candidateCount c"
proof -
  have c: "pn_active c" "unat (pn_nextIndex c) < unat (pn_candidateCount c)" "n = unat (pn_candidateCount c)"
    using assms by (auto simp: scan_ok_def)
  then have "pn_candidateCount c \<noteq> 0" by auto
  have inc: "unat (pn_nextIndex c + 1) = Suc (unat (pn_nextIndex c))"
    using c(2) by (rule unat_Suc_below)
  have dec: "unat (pn_remaining c - 1) = unat (pn_remaining c) - 1" "0 < unat (pn_remaining c)"
    using assms(2) by (simp_all add: unat_minus_one unat_gt_0)
  let ?nxt = "if pn_nextIndex c + 1 = pn_candidateCount c then 0 else pn_nextIndex c + 1"
  have nxt: "unat ?nxt = Suc (unat (pn_nextIndex c)) mod n"
    using c inc by (auto simp: unat_eq_iff)
  let ?c = "c\<lparr>pn_nextIndex := ?nxt, pn_remaining := pn_remaining c - 1,
    pn_active := (if pn_remaining c - 1 = 0 then False else pn_active c)\<rparr>"
  have "nextIndex c = (Some (pn_nextIndex c), ?c)"
    using c(1) assms(2) \<open>pn_candidateCount c \<noteq> 0\<close> by (simp add: nextIndex_def Let_def)
  moreover have "scan_ok n ?c"
    using c nxt by (simp add: scan_ok_def)
  ultimately show ?thesis using nxt dec by (intro that [of ?c]) simp_all
qed

lemma scan_done: "scan_ok n c \<Longrightarrow> pn_remaining c = 0 \<Longrightarrow> nextIndex c = (None, c)"
  by (simp add: scan_ok_def nextIndex_def)

lemma scan_indices_round_robin:
  "scan_ok n c \<Longrightarrow>
     map unat (scan_indices c) = round_robin n (unat (pn_nextIndex c)) (unat (pn_remaining c))"
proof (induction "unat (pn_remaining c)" arbitrary: c)
  case 0
  then have "pn_remaining c = 0" by (simp add: unat_eq_0)
  with scan_done [OF 0(2)] show ?case
    by (subst scan_indices.simps) (simp add: round_robin_def)
next
  case (Suc k)
  then have rem: "pn_remaining c \<noteq> 0" by auto
  then have a: "unat (pn_nextIndex c) < n" using Suc.prems by (simp add: scan_ok_def)
  from scan_ok_next [OF Suc.prems rem] obtain c' where
    c': "nextIndex c = (Some (pn_nextIndex c), c')" "scan_ok n c'"
    "unat (pn_nextIndex c') = Suc (unat (pn_nextIndex c)) mod n"
    "unat (pn_remaining c) = Suc (unat (pn_remaining c'))" by metis
  with Suc.hyps(1) [of c'] Suc.hyps(2)
  have "map unat (scan_indices c') = round_robin n (Suc (unat (pn_nextIndex c)) mod n) k" by simp
  with c'(1) a Suc.hyps(2) [symmetric] show ?case
    by (subst scan_indices.simps) (simp add: round_robin_Suc)
qed

lemma beginPollScan_order:
  "map unat (scan_indices (beginPollScan n st)) = round_robin (unat n) (scan_start n st) (unat n)"
proof (cases "n = 0")
  case True
  then show ?thesis
    by (subst scan_indices.simps)
      (simp add: beginPollScan_def newPollScanCursor_def nextIndex_def round_robin_def)
next
  case False
  then show ?thesis
    unfolding scan_indices_round_robin [OF scan_ok_begin]
    by (simp add: beginPollScan_def scan_start_def)
qed

text \<open>Every index below \<open>n\<close> occurs exactly once in a full round.\<close>

lemma round_robin_rotate: "a < n \<Longrightarrow> round_robin n a n = [a..<n] @ [0..<a]"
  by (intro nth_equalityI) (auto simp: round_robin_def nth_append mod_if)

lemma full_round:
  assumes "a < n"
  shows "distinct (round_robin n a n)" "set (round_robin n a n) = {..<n}"
  using assms by (auto simp: round_robin_rotate)

section \<open>Due candidates\<close>

definition candidate_due :: "u32 \<Rightarrow> PollCandidate \<Rightarrow> bool" where
  "candidate_due now c \<longleftrightarrow> pc_enabled c \<and> pollDeadlineReached32 now (pc_dueAt c)"

lemma due_loop_find:
  assumes "scan_ok (unat (pn_candidateCount c)) c" "unat (pn_candidateCount c) \<le> length xs"
  shows "\<exists>c'. due_loop now (Some xs) c =
    Some (find (\<lambda>i. candidate_due now (xs ! unat i)) (scan_indices c), c') \<and>
    scan_ok (unat (pn_candidateCount c)) c' \<and> pn_candidateCount c' = pn_candidateCount c"
  using assms
proof (induction "unat (pn_remaining c)" arbitrary: c)
  case 0
  then have "pn_remaining c = 0" by (simp add: unat_eq_0)
  with scan_done [OF 0(2)] 0(2) show ?case
    by (subst due_loop.simps, subst scan_indices.simps) simp
next
  case (Suc k)
  then have rem: "pn_remaining c \<noteq> 0" by auto
  from scan_ok_next [OF Suc.prems(1) rem] obtain c' where
    c': "nextIndex c = (Some (pn_nextIndex c), c')" "scan_ok (unat (pn_candidateCount c)) c'"
    "unat (pn_remaining c) = Suc (unat (pn_remaining c'))"
    "pn_candidateCount c' = pn_candidateCount c" by metis
  have "unat (pn_nextIndex c) < unat (pn_candidateCount c)"
    using Suc.prems(1) rem by (simp add: scan_ok_def)
  then have at: "poll_at (Some xs) (unat (pn_nextIndex c)) = Some (xs ! unat (pn_nextIndex c))"
    using Suc.prems(2) by (simp add: poll_at_def)
  have "k = unat (pn_remaining c')" using c'(3) Suc.hyps(2) by simp
  from Suc.hyps(1) [OF this] c' Suc.prems(2)
  have "\<exists>c''. due_loop now (Some xs) c' =
      Some (find (\<lambda>i. candidate_due now (xs ! unat i)) (scan_indices c'), c'') \<and>
      scan_ok (unat (pn_candidateCount c)) c'' \<and> pn_candidateCount c'' = pn_candidateCount c"
    by simp
  with c' at show ?case
    by (subst due_loop.simps, subst scan_indices.simps) (auto simp: candidate_due_def)
qed

text \<open>The first due candidate in round-robin order.\<close>

definition first_due :: "u32 \<Rightarrow> PollCandidate list \<Rightarrow> u16 \<Rightarrow> PollPlannerState \<Rightarrow> u16 option" where
  "first_due now xs n st =
     find (\<lambda>i. candidate_due now (xs ! unat i)) (scan_indices (beginPollScan n st))"

lemma nextDue_first:
  assumes "unat n \<le> length xs"
  shows "\<exists>c'. nextDue now (Some xs) n (beginPollScan n st) =
    Some (case first_due now xs n st of
            None \<Rightarrow> (Due_Complete, c', newPollSelection)
          | Some i \<Rightarrow> (Due_Due, c', fromCandidateSet Poll i n))"
proof -
  have count: "pn_candidateCount (beginPollScan n st) = n"
    by (simp add: beginPollScan_def newPollScanCursor_def)
  have "scan_ok (unat (pn_candidateCount (beginPollScan n st))) (beginPollScan n st)"
    unfolding count by (rule scan_ok_begin)
  from due_loop_find [OF this, of xs now] assms count show ?thesis
    by (auto simp: nextDue_def first_due_def split: option.split)
qed

lemma select_exact_nonempty:
  assumes "unat n \<le> length xs"
  shows "select opts now ready (Some xs) n st =
    Some (case first_due now xs n st of
       Some i \<Rightarrow>
         if ready \<and> pp_forwardsSincePoll st < po_maxConsecutiveForwards opts
         then (Select_Selected, fromCandidateSet ForwardWrite 0 n)
         else (Select_Selected, fromCandidateSet Poll i n)
     | None \<Rightarrow>
         if ready then (Select_Selected, fromCandidateSet ForwardWrite 0 n)
         else (Select_NoAction, newPollSelection))"
  using nextDue_first [OF assms, of now st]
  by (auto simp: select_def Let_def split: option.splits)

end
