(* ===== verification/Poll_Properties.thy ===== *)
theory Poll_Properties
  imports Poll_Planner
begin

text \<open>
  The properties of \<open>PollPlanner.h\<close>: the deadline test, the round-robin scans, the exact
  selection, the bound on consecutive forwards, and the service of every due poll.
\<close>

section \<open>Runs of the scheduler\<close>

text \<open>
  The client loop: each step has a time, a readiness of forward work and a candidate array,
  selects an action and commits it.
\<close>

type_synonym poll_env = "u32 \<times> bool \<times> PollCandidate list"

fun poll_run ::
  "PollPlannerOptions \<Rightarrow> u16 \<Rightarrow> poll_env list \<Rightarrow> PollPlannerState \<Rightarrow>
     (PollSelection list \<times> PollPlannerState) option" where
  "poll_run opts n [] st = Some ([], st)"
| "poll_run opts n ((now, ready, xs) # envs) st = do {
     (status, selection) \<leftarrow> select opts now ready (Some xs) n st;
     (selections, st') \<leftarrow> poll_run opts n envs
       (if status = Select_Selected then snd (commit selection n now st) else st);
     Some (selection # selections, st') }"

definition due_throughout :: "u16 \<Rightarrow> nat \<Rightarrow> poll_env list \<Rightarrow> bool" where
  "due_throughout n j envs \<longleftrightarrow>
     j < unat n \<and>
     list_all (\<lambda>(now, ready, xs). unat n \<le> length xs \<and> candidate_due now (xs ! j)) envs"

definition polls_index :: "nat \<Rightarrow> PollSelection \<Rightarrow> bool" where
  "polls_index j selection \<longleftrightarrow> ps_kind selection = Poll \<and> unat (ps_pollIndex selection) = j"

text \<open>The number of candidates before \<open>j\<close> in the round from \<open>a\<close>, and the remaining waiting time.\<close>

definition rr_distance :: "nat \<Rightarrow> nat \<Rightarrow> nat \<Rightarrow> nat" where
  "rr_distance n a j = (if a \<le> j then j - a else n + j - a)"

definition waiting :: "PollPlannerOptions \<Rightarrow> u16 \<Rightarrow> nat \<Rightarrow> PollPlannerState \<Rightarrow> nat" where
  "waiting opts n j st =
     rr_distance (unat n) (scan_start n st) j * Suc (unat (po_maxConsecutiveForwards opts)) +
     (unat (po_maxConsecutiveForwards opts) - unat (pp_forwardsSincePoll st))"

lemma scan_start_less: "j < unat n \<Longrightarrow> scan_start n st < unat n"
  by (simp add: scan_start_def word_less_nat_alt)

lemma round_robin_at:
  "a < n \<Longrightarrow> j < n \<Longrightarrow> round_robin n a n ! rr_distance n a j = j \<and> rr_distance n a j < n"
  by (auto simp: round_robin_def rr_distance_def mod_if)

lemma rr_distance_step:
  assumes "a < n" "j < n" "k < rr_distance n a j"
  shows "rr_distance n (Suc ((a + k) mod n) mod n) j < rr_distance n a j"
proof -
  have k: "k < n" using assms by (auto simp: rr_distance_def split: if_splits)
  have "(a + k) mod n = (if a + k < n then a + k else a + k - n)"
    using assms(1) k by (simp add: mod_if)
  moreover have "Suc b mod n = (if Suc b < n then Suc b else 0)" if "b < n" for b
    using that by (auto simp: mod_if)
  ultimately show ?thesis
    using assms k by (auto simp: rr_distance_def split: if_splits)
qed

text \<open>The selected due poll is at most as far away as any other due poll.\<close>

lemma first_due_distance:
  assumes "j < unat n" "candidate_due now (xs ! j)"
  obtains i k where "first_due now xs n st = Some i" "k \<le> rr_distance (unat n) (scan_start n st) j"
    "unat i = (scan_start n st + k) mod unat n" "unat i < unat n"
    "k = rr_distance (unat n) (scan_start n st) j \<Longrightarrow> unat i = j"
proof -
  let ?is = "scan_indices (beginPollScan n st)" and ?a = "scan_start n st"
  let ?d = "rr_distance (unat n) ?a j"
  have a: "?a < unat n" by (rule scan_start_less [OF assms(1)])
  have order: "map unat ?is = round_robin (unat n) ?a (unat n)" by (rule beginPollScan_order)
  then have len: "length ?is = unat n" by (metis length_map length_upt minus_nat.diff_0 round_robin_def)
  have at: "unat (?is ! k) = (?a + k) mod unat n" if "k < unat n" for k
    using arg_cong [OF order, of "\<lambda>ys. ys ! k"] that len by (simp add: round_robin_def)
  have d: "?d < unat n" "unat (?is ! ?d) = j"
    using round_robin_at [OF a assms(1)] order len by (metis, metis nth_map)
  have "\<exists>i \<in> set ?is. candidate_due now (xs ! unat i)"
    using d assms(2) len by (intro bexI [of _ "?is ! ?d"]) auto
  then obtain i where i: "first_due now xs n st = Some i"
    unfolding first_due_def by (cases "find (\<lambda>i. candidate_due now (xs ! unat i)) ?is")
      (auto simp: find_None_iff)
  then obtain k where k: "k < unat n" "i = ?is ! k"
      "\<forall>m<k. \<not> candidate_due now (xs ! unat (?is ! m))"
    unfolding first_due_def find_Some_iff len by auto
  have "k \<le> ?d" using k(3) d(2) assms(2) by (metis not_le)
  moreover have "unat i < unat n" using at [OF k(1)] k(2) a by simp
  ultimately show ?thesis using at [OF k(1)] k(2) d(2) by (intro that [OF i, of k]) auto
qed

lemma commit_forward:
  "commit (fromCandidateSet ForwardWrite x n) n now st =
     (True, if pp_forwardsSincePoll st \<noteq> 0xFFFF
            then st\<lparr>pp_forwardsSincePoll := pp_forwardsSincePoll st + 1\<rparr> else st)"
  by (simp add: commit_def fromCandidateSet_def unboundPollSelection_def)

lemma newPollSelection_kind: "ps_kind newPollSelection = Action_None"
  by (simp add: newPollSelection_def)

lemma commit_nothing: "commit newPollSelection n now st = (False, st)"
  by (simp add: commit_def newPollSelection_def)

lemma commit_poll:
  assumes "unat i < unat n"
  obtains st' where "commit (fromCandidateSet Poll i n) n now st = (True, st')"
    "scan_start n st' = Suc (unat i) mod unat n" "pp_forwardsSincePoll st' = 0"
    "pp_lastPollAt st' = now" "pp_hasConsumedPoll st'"
proof -
  let ?nxt = "if i + 1 = n then 0 else i + 1"
  let ?st = "\<lparr>pp_nextPollIndex = ?nxt, pp_forwardsSincePoll = 0, pp_lastPollAt = now,
    pp_hasConsumedPoll = True\<rparr>"
  have inc: "unat (i + 1) = Suc (unat i)" using assms by (rule unat_Suc_below)
  have nxt: "unat ?nxt = Suc (unat i) mod unat n" using assms inc by (auto simp: unat_eq_iff)
  moreover have "Suc (unat i) mod unat n < unat n" using assms by simp
  ultimately have "?nxt < n" by (simp only: word_less_nat_alt)
  then have "scan_start n ?st = Suc (unat i) mod unat n" using nxt by (simp add: scan_start_def)
  moreover have "n \<noteq> 0" "\<not> n \<le> i" using assms by (auto simp: word_le_nat_alt)
  then have "commit (fromCandidateSet Poll i n) n now st = (True, ?st)"
    by (simp add: commit_def fromCandidateSet_def unboundPollSelection_def Let_def)
  ultimately show ?thesis using that [of ?st] by simp
qed

lemma poll_step_progress:
  assumes "j < unat n" "unat n \<le> length xs" "candidate_due now (xs ! j)"
  obtains selection where "select opts now ready (Some xs) n st = Some (Select_Selected, selection)"
    "fst (commit selection n now st)"
    "polls_index j selection \<or> waiting opts n j (snd (commit selection n now st)) < waiting opts n j st"
proof -
  let ?a = "scan_start n st" and ?max = "po_maxConsecutiveForwards opts"
  from first_due_distance [OF assms(1,3), of st] obtain i k where
    i: "first_due now xs n st = Some i" "k \<le> rr_distance (unat n) ?a j"
      "unat i = (?a + k) mod unat n" "unat i < unat n"
      "k = rr_distance (unat n) ?a j \<Longrightarrow> unat i = j" by metis
  note sel = select_exact_nonempty [OF assms(2), of opts now ready st]
  show ?thesis
  proof (cases "ready \<and> pp_forwardsSincePoll st < ?max")
    case True
    then have less: "unat (pp_forwardsSincePoll st) < unat ?max" by (simp add: word_less_nat_alt)
    then have inc: "unat (pp_forwardsSincePoll st + 1) = Suc (unat (pp_forwardsSincePoll st))"
      by (rule unat_Suc_below)
    have "pp_forwardsSincePoll st \<noteq> 0xFFFF"
      using less unat_u16_bound [of ?max] by (auto simp del: unat_u16_bound)
    then have commit: "commit (fromCandidateSet ForwardWrite 0 n) n now st =
        (True, st\<lparr>pp_forwardsSincePoll := pp_forwardsSincePoll st + 1\<rparr>)" (is "_ = (True, ?st)")
      by (simp add: commit_forward)
    have "scan_start n ?st = ?a" by (simp add: scan_start_def)
    moreover have "unat ?max - unat (pp_forwardsSincePoll ?st) <
        unat ?max - unat (pp_forwardsSincePoll st)"
      using less by (simp add: inc)
    ultimately have "waiting opts n j ?st < waiting opts n j st"
      unfolding waiting_def by (simp only: add_less_cancel_left)
    with True i(1) sel show ?thesis
      by (intro that [of "fromCandidateSet ForwardWrite 0 n"]) (simp_all add: commit)
  next
    case False
    from commit_poll [OF i(4), of now st] obtain st' where
      st': "commit (fromCandidateSet Poll i n) n now st = (True, st')"
        "scan_start n st' = Suc (unat i) mod unat n" "pp_forwardsSincePoll st' = 0" by metis
    have "waiting opts n j st' < waiting opts n j st" if "unat i \<noteq> j"
    proof -
      have "k < rr_distance (unat n) ?a j" using i(2,5) that by (metis le_neq_implies_less)
      from rr_distance_step [OF scan_start_less [OF assms(1)] assms(1) this]
      have "rr_distance (unat n) (scan_start n st') j < rr_distance (unat n) ?a j"
        by (simp add: st'(2) i(3))
      then have "Suc (rr_distance (unat n) (scan_start n st') j) * Suc (unat ?max) \<le>
          rr_distance (unat n) ?a j * Suc (unat ?max)" by (intro mult_le_mono1) simp
      then show ?thesis by (simp add: waiting_def st'(3))
    qed
    then have "polls_index j (fromCandidateSet Poll i n) \<or> waiting opts n j st' < waiting opts n j st"
      by (auto simp: polls_index_def fromCandidateSet_def unboundPollSelection_def)
    with False i(1) sel st' show ?thesis
      by (intro that [of "fromCandidateSet Poll i n"]) auto
  qed
qed

lemma poll_run_total:
  assumes "due_throughout n j envs"
  shows "\<exists>sels st'. poll_run opts n envs st = Some (sels, st')"
  using assms
proof (induction envs arbitrary: st)
  case (Cons env envs)
  obtain now ready xs where env: "env = (now, ready, xs)" by (cases env) auto
  have rest: "due_throughout n j envs" and due: "j < unat n" "unat n \<le> length xs"
    "candidate_due now (xs ! j)"
    using Cons.prems by (simp_all add: due_throughout_def env)
  from poll_step_progress [OF due, of opts ready st] obtain sel where
    sel: "select opts now ready (Some xs) n st = Some (Select_Selected, sel)" by metis
  from Cons.IH [OF rest, of "snd (commit sel n now st)"] sel show ?case by (auto simp: env)
qed simp

lemma waiting_served:
  assumes "due_throughout n j envs" "waiting opts n j st < length envs"
  shows "\<exists>sels st'. poll_run opts n envs st = Some (sels, st') \<and> (\<exists>s \<in> set sels. polls_index j s)"
  using assms
proof (induction envs arbitrary: st)
  case (Cons env envs)
  obtain now ready xs where env: "env = (now, ready, xs)" by (cases env) auto
  have rest: "due_throughout n j envs" and due: "j < unat n" "unat n \<le> length xs"
    "candidate_due now (xs ! j)"
    using Cons.prems by (simp_all add: due_throughout_def env)
  from poll_step_progress [OF due, of opts ready st] obtain sel where
    sel: "select opts now ready (Some xs) n st = Some (Select_Selected, sel)"
      "polls_index j sel \<or> waiting opts n j (snd (commit sel n now st)) < waiting opts n j st"
    by metis
  let ?st = "snd (commit sel n now st)"
  obtain sels st' where run: "poll_run opts n envs ?st = Some (sels, st')"
    using poll_run_total [OF rest] by blast
  from sel(2) show ?case
  proof
    assume "polls_index j sel"
    with run sel(1) show ?thesis by (simp add: env)
  next
    assume "waiting opts n j ?st < waiting opts n j st"
    then have "waiting opts n j ?st < length envs" using Cons.prems(2) by simp
    with Cons.IH [OF rest this] run sel(1) show ?thesis by (auto simp: env)
  qed
qed simp

lemma waiting_bound:
  assumes "j < unat n"
  shows "waiting opts n j st < unat n * Suc (unat (po_maxConsecutiveForwards opts))"
proof -
  let ?d = "rr_distance (unat n) (scan_start n st) j" and ?m = "unat (po_maxConsecutiveForwards opts)"
  have "?d < unat n"
    using round_robin_at [OF scan_start_less [OF assms] assms] by blast
  then have "Suc ?d * Suc ?m \<le> unat n * Suc ?m" by (intro mult_le_mono1) simp
  then show ?thesis by (simp add: waiting_def)
qed

lemma forward_runs:
  assumes "list_all (\<lambda>(now, ready, xs). unat n \<le> length xs \<and> (\<exists>j<unat n. candidate_due now (xs ! j))) envs"
    and "poll_run opts n envs st = Some (sels, st')" "\<forall>s \<in> set sels. ps_kind s = ForwardWrite"
  shows "sels = [] \<or>
    unat (pp_forwardsSincePoll st) + length sels \<le> unat (po_maxConsecutiveForwards opts)"
  using assms
proof (induction envs arbitrary: st sels)
  case (Cons env envs)
  let ?max = "po_maxConsecutiveForwards opts"
  obtain now ready xs where env: "env = (now, ready, xs)" by (cases env) auto
  obtain j where due: "j < unat n" "unat n \<le> length xs" "candidate_due now (xs ! j)"
    using Cons.prems(1) by (auto simp: env)
  from first_due_distance [OF due(1,3), of st] obtain i where i: "first_due now xs n st = Some i"
    by metis
  from poll_step_progress [OF due, of opts ready st] obtain sel where
    sel: "select opts now ready (Some xs) n st = Some (Select_Selected, sel)" by metis
  with Cons.prems(2) obtain sels' where sels: "sels = sel # sels'"
      "poll_run opts n envs (snd (commit sel n now st)) = Some (sels', st')"
    by (auto simp: env elim!: bind_SomeE)
  with Cons.prems(3) have "ps_kind sel = ForwardWrite" by simp
  with sel i select_exact_nonempty [OF due(2), of opts now ready st]
  have fwd: "sel = fromCandidateSet ForwardWrite 0 n" "pp_forwardsSincePoll st < ?max"
    by (auto simp: fromCandidateSet_def unboundPollSelection_def split: if_splits)
  then have less: "unat (pp_forwardsSincePoll st) < unat ?max" by (simp add: word_less_nat_alt)
  then have inc: "unat (pp_forwardsSincePoll st + 1) = Suc (unat (pp_forwardsSincePoll st))"
    by (rule unat_Suc_below)
  have "pp_forwardsSincePoll st \<noteq> 0xFFFF"
    using less unat_u16_bound [of ?max] by (auto simp del: unat_u16_bound)
  with Cons.IH [OF _ sels(2)] Cons.prems(1,3) sels(1) fwd(1) inc less show ?case
    by (auto simp: commit_forward env)
qed simp

lemma first_due_less:
  assumes "first_due now xs n st = Some i"
  shows "unat i < unat n"
proof -
  have "i \<in> set (scan_indices (beginPollScan n st))"
    using assms by (auto simp: first_due_def find_Some_iff)
  then have "unat i \<in> set (map unat (scan_indices (beginPollScan n st)))" by simp
  moreover from this have "0 < unat n"
    unfolding beginPollScan_order by (auto simp: round_robin_def)
  ultimately show ?thesis
    unfolding beginPollScan_order full_round(2) [OF scan_start_less [OF \<open>0 < unat n\<close>]] by simp
qed

lemma first_due_is_due:
  "first_due now xs n st = Some i \<Longrightarrow> candidate_due now (xs ! unat i)"
  by (auto simp: first_due_def find_Some_iff)

section \<open>The scalar scan\<close>

text \<open>The client loop over \<open>PollIndexScan::next\<close>.\<close>

function index_scan_all :: "PollIndexScan \<Rightarrow> u16 list" where
  "index_scan_all x =
     (case indexScan_next x of
        (None, _) \<Rightarrow> []
      | (Some i, x') \<Rightarrow> i # index_scan_all x')"
  by pat_completeness auto
termination
proof (relation "measure (\<lambda>x. unat (pn_remaining (px_scan x)))")
  fix x f x' i
  assume "(f, x') = indexScan_next x" "f = Some i"
  then have "nextIndex (px_scan x) = (Some i, px_scan x')"
    by (auto simp: indexScan_next_def split: prod.splits)
  then show "(x', x) \<in> measure (\<lambda>x. unat (pn_remaining (px_scan x)))"
    by (simp add: nextIndex_remaining)
qed simp

declare index_scan_all.simps [simp del]

lemma index_scan_all_indices: "index_scan_all x = scan_indices (px_scan x)"
proof (induction x rule: index_scan_all.induct)
  case (1 x)
  obtain f c where nx: "nextIndex (px_scan x) = (f, c)" by fastforce
  show ?case
  proof (cases f)
    case None
    with nx show ?thesis
      by (subst index_scan_all.simps, subst scan_indices.simps) (simp add: indexScan_next_def)
  next
    case (Some i)
    have "indexScan_next x = (Some i, x\<lparr>px_scan := c\<rparr>)"
      using nx Some by (simp add: indexScan_next_def)
    with 1 [of "Some i" "x\<lparr>px_scan := c\<rparr>" i] nx Some show ?thesis
      by (subst index_scan_all.simps, subst scan_indices.simps) simp
  qed
qed

section \<open>Examples\<close>

definition example_candidate :: "bool \<Rightarrow> u32 \<Rightarrow> PollCandidate" where
  "example_candidate enabled dueAt = \<lparr>pc_request = newDownstreamRequest
     \<lparr>dr_operation := ReadHoldingRegisters, dr_quantity := 1, dr_registerBuffer := Ptr 3 0\<rparr>,
     pc_dueAt = dueAt, pc_enabled = enabled, pc_requiresDispatch = True\<rparr>"

definition example_polls :: "PollCandidate list" where
  "example_polls = [example_candidate True 100, example_candidate False 0, example_candidate True 40]"

lemma example_polls_length [simp]: "length example_polls = 3"
  by (simp add: example_polls_def)

lemma example_due: "candidate_due 50 (example_polls ! 2)"
  by (simp add: example_polls_def candidate_due_def example_candidate_def pollDeadlineReached32_def)

section \<open>Properties\<close>

text \<open>
  C36. The modular deadline test orders any two instants less than 2^31 ticks apart, also when
  the 32-bit clock wraps between them.
\<close>

theorem deadline_wraps:
  assumes "t < s + 2 ^ 31" "s \<le> t + 2 ^ 31"
  shows "pollDeadlineReached32 (of_nat t) (of_nat s) \<longleftrightarrow> s \<le> (t :: nat)"
proof (cases "s \<le> t")
  case True
  then have eq: "(of_nat t - of_nat s :: u32) = of_nat (t - s)" by (simp add: of_nat_diff)
  obtain d where d: "t - s = d" by simp
  then have "d < 2 ^ 31" using assms(1) True by simp
  moreover from this have "unat (of_nat d :: u32) = d"
    by (simp add: unsigned_of_nat take_bit_nat_eq_self)
  ultimately show ?thesis
    using True unfolding pollDeadlineReached32_def eq d by (simp add: word_less_nat_alt)
next
  case False
  then have "(of_nat t - of_nat s :: u32) = - of_nat (s - t)" by (simp add: of_nat_diff)
  also have "\<dots> = of_nat (2 ^ 32 - (s - t))"
    using assms(2) False by (simp add: of_nat_diff)
  finally have eq: "(of_nat t - of_nat s :: u32) = of_nat (2 ^ 32 - (s - t))" .
  have "unat (of_nat (2 ^ 32 - (s - t)) :: u32) = 2 ^ 32 - (s - t)"
    using False by (simp add: unsigned_of_nat take_bit_nat_eq_self)
  then show ?thesis
    using False assms(2) unfolding pollDeadlineReached32_def eq
    by (simp add: word_less_nat_alt)
qed

lemma deadline_wraps_witness:
  "pollDeadlineReached32 (of_nat (2 ^ 32 + 5)) (of_nat (2 ^ 32 - 3)) \<longleftrightarrow>
     (2 ^ 32 - 3 :: nat) \<le> 2 ^ 32 + 5"
  by (rule deadline_wraps) simp_all

text \<open>
  C37. A poll scan visits every candidate index exactly once, round robin from the fairness
  cursor, and then completes; \<open>PollIndexScan\<close> visits the same indices from its start index.
\<close>

theorem scan_visits_each_once:
  "map unat (scan_indices (beginPollScan n st)) = round_robin (unat n) (scan_start n st) (unat n) \<and>
   distinct (scan_indices (beginPollScan n st)) \<and>
   unat ` set (scan_indices (beginPollScan n st)) = {..<unat n} \<and>
   map unat (index_scan_all (newPollIndexScan n a t)) =
     round_robin (unat n) (if a < n then unat a else 0) (unat n)"
proof (cases "n = 0")
  case True
  then have "scan_indices (beginPollScan n st) = []"
    using beginPollScan_order [of n st] by (simp add: round_robin_def)
  with True show ?thesis
    using beginPollScan_order [of n "px_state (newPollIndexScan n a t)"]
    by (simp add: index_scan_all_indices newPollIndexScan_def Let_def round_robin_def)
next
  case False
  then have "0 < unat n" by (simp add: unat_gt_0)
  then have a: "scan_start n st < unat n" by (rule scan_start_less)
  note order = beginPollScan_order [of n st]
  have "distinct (scan_indices (beginPollScan n st))"
    using full_round(1) [OF a] unfolding order [symmetric] by (simp add: distinct_map)
  moreover have "unat ` set (scan_indices (beginPollScan n st)) = {..<unat n}"
    using full_round(2) [OF a] unfolding order [symmetric] by simp
  moreover have "map unat (index_scan_all (newPollIndexScan n a t)) =
      round_robin (unat n) (if a < n then unat a else 0) (unat n)"
    using False beginPollScan_order [of n "px_state (newPollIndexScan n a t)"]
    by (auto simp: index_scan_all_indices newPollIndexScan_def Let_def scan_start_def)
  ultimately show ?thesis using order by simp
qed

text \<open>
  C38. Selection is exact and its result can be committed: with ready forward work the forward
  is selected unless a poll is due and the bound on consecutive forwards is reached; otherwise
  the first due candidate in round-robin order; otherwise nothing. The selection commits
  with the same candidate count, and is refused, with the state unchanged, for any other.
\<close>

theorem select_exact:
  assumes "unat n \<le> length xs"
  shows "\<exists>selection. select opts now ready (Some xs) n st =
      Some (if first_due now xs n st = None \<and> \<not> ready then Select_NoAction else Select_Selected,
            selection) \<and>
    selection =
      (if ready \<and> (first_due now xs n st = None \<or>
                    pp_forwardsSincePoll st < po_maxConsecutiveForwards opts)
       then fromCandidateSet ForwardWrite 0 n
       else case first_due now xs n st of
              Some i \<Rightarrow> fromCandidateSet Poll i n | None \<Rightarrow> newPollSelection) \<and>
    fst (commit selection n now' st) = (first_due now xs n st \<noteq> None \<or> ready) \<and>
    (ps_kind selection = Action_None \<or> n' = n \<or> commit selection n' now' st = (False, st))"
proof -
  have "fst (commit (fromCandidateSet Poll i n) n now' st)" if "first_due now xs n st = Some i" for i
    using commit_poll [OF first_due_less [OF that], of now' st] by (metis fst_conv)
  moreover have "commit (fromCandidateSet k i n) n' now' st = (False, st)" if "n' \<noteq> n" for k i
    using that by (simp add: commit_def fromCandidateSet_def)
  ultimately show ?thesis
    using select_exact_nonempty [OF assms, of opts now ready st]
    by (auto simp: commit_forward commit_nothing newPollSelection_kind
        split: option.splits)
qed

lemma select_exact_witness:
  "\<exists>selection. select \<lparr>po_maxConsecutiveForwards = 2\<rparr> 50 False (Some example_polls) 3
       newPollPlannerState = Some (Select_Selected, selection) \<and>
     fst (commit selection 3 50 newPollPlannerState)"
proof -
  have "first_due 50 example_polls 3 newPollPlannerState = Some 2" by code_simp
  then show ?thesis
    using select_exact [of 3 example_polls "\<lparr>po_maxConsecutiveForwards = 2\<rparr>" 50 False
        newPollPlannerState 50 3] by auto
qed

text \<open>
  C39. Forward writes cannot starve the polls: while some poll is due at every step, a run of
  consecutive forward selections is at most the configured maximum.
\<close>

theorem forwards_bounded:
  assumes "list_all (\<lambda>(now, ready, xs). unat n \<le> length xs \<and>
      (\<exists>j<unat n. candidate_due now (xs ! j))) envs"
    and "poll_run opts n envs st = Some (sels, st')"
    and "\<forall>s \<in> set sels. ps_kind s = ForwardWrite"
  shows "length sels \<le> unat (po_maxConsecutiveForwards opts)"
  using forward_runs [OF assms] by auto

lemma forwards_bounded_witness:
  "\<exists>st'. poll_run \<lparr>po_maxConsecutiveForwards = 2\<rparr> 3 [(50, True, example_polls)] newPollPlannerState =
      Some ([fromCandidateSet ForwardWrite 0 3], st') \<and>
     length [fromCandidateSet ForwardWrite 0 3] \<le> unat (2 :: u16)"
proof -
  have "poll_run \<lparr>po_maxConsecutiveForwards = 2\<rparr> 3 [(50, True, example_polls)] newPollPlannerState =
      Some ([fromCandidateSet ForwardWrite 0 3], newPollPlannerState\<lparr>pp_forwardsSincePoll := 1\<rparr>)"
    by code_simp
  moreover have "list_all (\<lambda>(now, ready, xs). unat (3 :: u16) \<le> length xs \<and>
      (\<exists>j<unat (3 :: u16). candidate_due now (xs ! j))) [(50, True, example_polls)]"
    using example_due by (auto intro!: exI [of _ 2])
  ultimately show ?thesis
    using forwards_bounded [of 3 "[(50, True, example_polls)]" "\<lparr>po_maxConsecutiveForwards = 2\<rparr>"
        newPollPlannerState "[fromCandidateSet ForwardWrite 0 3]"]
    by (simp add: fromCandidateSet_def unboundPollSelection_def)
qed

text \<open>
  C40. Every due poll is served: while candidate \<open>j\<close> stays enabled and due, at most
  \<open>n * (maxConsecutiveForwards + 1)\<close> scheduling steps pass before it is selected, whatever
  the other candidates and the forward work do.
\<close>

theorem due_poll_is_served:
  assumes "due_throughout n j envs"
    and "unat n * Suc (unat (po_maxConsecutiveForwards opts)) \<le> length envs"
  shows "\<exists>sels st'. poll_run opts n envs st = Some (sels, st') \<and> (\<exists>s \<in> set sels. polls_index j s)"
proof -
  have "j < unat n" using assms(1) by (simp add: due_throughout_def)
  from waiting_bound [OF this, of opts st] assms(2)
  have "waiting opts n j st < length envs" by simp
  with assms(1) show ?thesis by (rule waiting_served)
qed

lemma due_poll_is_served_witness:
  "\<exists>sels st'. poll_run \<lparr>po_maxConsecutiveForwards = 1\<rparr> 3 (replicate 6 (50, True, example_polls))
      newPollPlannerState = Some (sels, st') \<and> (\<exists>s \<in> set sels. polls_index 2 s)"
proof -
  have "due_throughout 3 2 (replicate 6 (50, True, example_polls))"
    using example_due by (simp add: due_throughout_def list_all_iff)
  then show ?thesis by (rule due_poll_is_served) simp
qed

text \<open>
  \<open>PollIndexScan::commitConsumed\<close> accepts an index exactly while the candidate count is
  unchanged and the index is below it; the next scan then starts behind that index. A refused
  commit leaves the scan unchanged.
\<close>

lemma commitConsumed_exact:
  "(let (ok, x') = commitConsumed x i n' now in
      ok = (n' = px_candidateCount x \<and> unat i < unat n') \<and> px_scan x' = px_scan x \<and>
      px_candidateCount x' = px_candidateCount x \<and>
      (if ok then scan_start n' (px_state x') = Suc (unat i) mod unat n' \<and>
                  pp_lastPollAt (px_state x') = now
       else x' = x))"
proof (cases "n' = px_candidateCount x \<and> unat i < unat n'")
  case True
  from True commit_poll [of i n' now "px_state x"] obtain st' where
    "commit (fromCandidateSet Poll i n') n' now (px_state x) = (True, st')"
    "scan_start n' st' = Suc (unat i) mod unat n'" "pp_lastPollAt st' = now" by metis
  with True show ?thesis by (auto simp: commitConsumed_def)
next
  case False
  then have "commit (fromCandidateSet Poll i (px_candidateCount x)) n' now (px_state x) =
      (False, px_state x)"
    by (auto simp: commit_def fromCandidateSet_def unboundPollSelection_def word_le_nat_alt)
  with False show ?thesis by (auto simp: commitConsumed_def)
qed

end
