(* ===== verification/Cache_Image.thy ===== *)
theory Cache_Image
  imports Bridge_Prelude
begin

text \<open>
  Model of \<open>CacheImage.h\<close>: the bounds-checked borrowed image view and the pair of visible
  and applied images. The images live in an explicit memory, so a copy returns the new
  memory next to the Boolean result, and aliasing between the two images, a snapshot and a
  destination is visible. \<open>None\<close> is undefined behaviour: an image array shorter than its
  view claims, a source shorter than the copied count, or \<open>memcpy\<close> on overlapping ranges.
\<close>

section \<open>Views\<close>

record 'v MutableImageView =
  im_values :: "'v ptr"
  im_count :: u16

definition image_empty :: "'v MutableImageView \<Rightarrow> bool" where
  "image_empty v \<longleftrightarrow> im_count v = 0"

definition image_contains :: "'v MutableImageView \<Rightarrow> u16 \<Rightarrow> u16 \<Rightarrow> bool" where
  "image_contains v start count =
     (if count = 0 then False
      else im_values v \<noteq> Null \<and>
           (ucast start + ucast count :: u32) \<le> ucast (im_count v))"

definition copyValues :: "'v mem \<Rightarrow> 'v ptr \<Rightarrow> 'v ptr \<Rightarrow> u16 \<Rightarrow> 'v mem option" where
  "copyValues m destination source count =
     (if count = 1
      then do { x \<leftarrow> mem_load m source; mem_write m destination [x] }
      else mem_copy m destination source (unat count))"

definition copyFrom ::
  "'v mem \<Rightarrow> 'v MutableImageView \<Rightarrow> u16 \<Rightarrow> 'v ptr \<Rightarrow> u16 \<Rightarrow> (bool \<times> 'v mem) option" where
  "copyFrom m v start source count =
     (if source = Null \<or> \<not> image_contains v start count then Some (False, m)
      else do { m' \<leftarrow> copyValues m (ptr_add (im_values v) start) source count;
                Some (True, m') })"

definition copyTo ::
  "'v mem \<Rightarrow> 'v MutableImageView \<Rightarrow> u16 \<Rightarrow> 'v ptr \<Rightarrow> u16 \<Rightarrow> (bool \<times> 'v mem) option" where
  "copyTo m v start destination count =
     (if destination = Null \<or> \<not> image_contains v start count then Some (False, m)
      else do { m' \<leftarrow> copyValues m destination (ptr_add (im_values v) start) count;
                Some (True, m') })"

section \<open>Desired and applied images\<close>

record 'v DesiredAppliedCache =
  dc_visible :: "'v MutableImageView"
  dc_applied :: "'v MutableImageView"

definition validShape :: "'v DesiredAppliedCache \<Rightarrow> bool" where
  "validShape c \<longleftrightarrow>
     im_count (dc_visible c) = im_count (dc_applied c) \<and>
     (im_count (dc_visible c) = 0 \<or>
      (im_values (dc_visible c) \<noteq> Null \<and> im_values (dc_applied c) \<noteq> Null))"

definition captureDesired ::
  "'v mem \<Rightarrow> 'v DesiredAppliedCache \<Rightarrow> u16 \<Rightarrow> 'v ptr \<Rightarrow> u16 \<Rightarrow> (bool \<times> 'v mem) option" where
  "captureDesired m c start immutableSnapshot count =
     copyFrom m (dc_visible c) start immutableSnapshot count"

definition markApplied ::
  "'v mem \<Rightarrow> 'v DesiredAppliedCache \<Rightarrow> u16 \<Rightarrow> 'v ptr \<Rightarrow> u16 \<Rightarrow> (bool \<times> 'v mem) option" where
  "markApplied m c start immutableSnapshot count =
     copyFrom m (dc_applied c) start immutableSnapshot count"

definition restore ::
  "'v mem \<Rightarrow> 'v DesiredAppliedCache \<Rightarrow> u16 \<Rightarrow> u16 \<Rightarrow> (bool \<times> 'v mem) option" where
  "restore m c start count =
     (if \<not> image_contains (dc_visible c) start count \<or>
         \<not> image_contains (dc_applied c) start count
      then Some (False, m)
      else copyFrom m (dc_visible c) start (ptr_add (im_values (dc_applied c)) start) count)"

section \<open>Memory effects of a copy\<close>

text \<open>Two element ranges of one memory, of possibly different lengths, that share nothing.\<close>

fun separate :: "'v ptr \<Rightarrow> nat \<Rightarrow> 'v ptr \<Rightarrow> nat \<Rightarrow> bool" where
  "separate (Ptr b k) n (Ptr c l) j = (b \<noteq> c \<or> k + n \<le> l \<or> l + j \<le> k)"
| "separate _ n _ j = True"

definition overwrite :: "nat \<Rightarrow> 'v list \<Rightarrow> 'v list \<Rightarrow> 'v list" where
  "overwrite k vs xs = take k xs @ vs @ drop (k + length vs) xs"

lemma length_overwrite [simp]:
  "k + length vs \<le> length xs \<Longrightarrow> length (overwrite k vs xs) = length xs"
  by (simp add: overwrite_def)

lemma nth_overwrite:
  assumes "k + length vs \<le> length xs" "i < length xs"
  shows "overwrite k vs xs ! i = (if k \<le> i \<and> i < k + length vs then vs ! (i - k) else xs ! i)"
  using assms by (auto simp: overwrite_def nth_append min_def)

lemma overwrite_slice:
  assumes "k + i + length vs \<le> k + c" "k + c \<le> length xs"
  shows "take c (drop k (overwrite (k + i) vs xs)) = overwrite i vs (take c (drop k xs))"
  using assms by (intro nth_equalityI) (auto simp: nth_overwrite)

lemma overwrite_outside:
  assumes "k + length vs \<le> length xs" "l + n \<le> k \<or> k + length vs \<le> l" "l + n \<le> length xs"
  shows "take n (drop l (overwrite k vs xs)) = take n (drop l xs)"
  using assms by (intro nth_equalityI) (auto simp: nth_overwrite)

lemma mem_write_overwrite:
  assumes "mem_read m p c = Some old" "unat i + length vs \<le> c"
  shows "\<exists>m'. mem_write m (ptr_add p i) vs = Some m' \<and>
    mem_read m' p c = Some (overwrite (unat i) vs old)"
  using assms
  by (elim mem_read_SomeE)
    (auto simp: overwrite_slice simp flip: overwrite_def add.assoc)

lemma mem_write_frame:
  assumes "mem_write m p vs = Some m'" "separate p (length vs) q n"
  shows "mem_read m' q n = mem_read m q n"
  using assms
  by (cases p; cases q)
    (auto simp: overwrite_outside simp flip: overwrite_def split: option.splits if_splits)

lemma separate_sym: "separate p n q j \<longleftrightarrow> separate q j p n"
  by (cases p; cases q) auto

lemma separate_sub:
  assumes "separate p n q j" "unat i + n' \<le> n"
  shows "separate (ptr_add p i) n' q j"
  using assms by (cases p; cases q) auto

lemma separate_overlap: "separate p n q n \<Longrightarrow> \<not> overlap p q n"
  by (cases p; cases q) auto

lemma copyValues_write:
  assumes "mem_read m source (unat n) = Some vs" "n \<noteq> 0"
    and "n = 1 \<or> separate destination (unat n) source (unat n)"
  shows "copyValues m destination source n = mem_write m destination vs"
proof (cases "n = 1")
  case True
  then obtain x where "vs = [x]"
    using mem_read_length [OF assms(1)] by (cases vs) auto
  with True assms(1) show ?thesis by (simp add: copyValues_def mem_load_def)
next
  case False
  with assms show ?thesis by (simp add: copyValues_def mem_copy_def separate_overlap)
qed

lemma image_contains_iff:
  "image_contains v start count \<longleftrightarrow>
     count \<noteq> 0 \<and> im_values v \<noteq> Null \<and> unat start + unat count \<le> unat (im_count v)"
  by (simp add: image_contains_def unat_order width_simps)

lemma copyFrom_accepts:
  assumes "mem_read m (im_values v) (unat (im_count v)) = Some old"
    and "mem_read m source (unat n) = Some vs"
    and "image_contains v start n"
    and "n = 1 \<or> separate (ptr_add (im_values v) start) (unat n) source (unat n)"
  shows "\<exists>m'. copyFrom m v start source n = Some (True, m') \<and>
    mem_write m (ptr_add (im_values v) start) vs = Some m' \<and>
    mem_read m' (im_values v) (unat (im_count v)) = Some (overwrite (unat start) vs old)"
proof -
  have "source \<noteq> Null" using assms(2) by (cases source) auto
  moreover have "copyValues m (ptr_add (im_values v) start) source n =
      mem_write m (ptr_add (im_values v) start) vs"
    using assms(2-4) by (intro copyValues_write) (auto simp: image_contains_iff)
  moreover have "unat start + length vs \<le> unat (im_count v)"
    using assms(3) mem_read_length [OF assms(2)] by (simp add: image_contains_iff)
  ultimately show ?thesis
    using mem_write_overwrite [OF assms(1)] assms(3) by (fastforce simp: copyFrom_def)
qed

section \<open>Properties\<close>

text \<open>
  C20. A copy into an image is exact and bounds-checked: it succeeds exactly when the range is
  non-empty and inside the image, it then replaces that range by the source values and
  leaves every memory range apart from it unchanged, and otherwise it changes nothing.
\<close>

theorem copyFrom_exact:
  assumes "mem_read m (im_values v) (unat (im_count v)) = Some old"
    and "mem_read m source (unat n) = Some vs"
    and "separate (im_values v) (unat (im_count v)) source (unat n)"
  shows "\<exists>ok m'. copyFrom m v start source n = Some (ok, m') \<and>
    ok = (n \<noteq> 0 \<and> unat start + unat n \<le> unat (im_count v)) \<and>
    (if ok then
       mem_read m' (im_values v) (unat (im_count v)) = Some (overwrite (unat start) vs old) \<and>
       (\<forall>q j. separate (ptr_add (im_values v) start) (unat n) q j \<longrightarrow>
          mem_read m' q j = mem_read m q j)
     else m' = m)"
proof -
  have nn: "im_values v \<noteq> Null" "source \<noteq> Null"
    using assms(1,2) by (cases "im_values v"; cases source; auto)+
  show ?thesis
  proof (cases "image_contains v start n")
    case True
    then have "separate (ptr_add (im_values v) start) (unat n) source (unat n)"
      using assms(3) by (intro separate_sub) (auto simp: image_contains_iff)
    then obtain m' where m': "copyFrom m v start source n = Some (True, m')"
      "mem_write m (ptr_add (im_values v) start) vs = Some m'"
      "mem_read m' (im_values v) (unat (im_count v)) = Some (overwrite (unat start) vs old)"
      using copyFrom_accepts [OF assms(1,2) True] by blast
    moreover have "mem_read m' q j = mem_read m q j"
      if "separate (ptr_add (im_values v) start) (unat n) q j" for q j
      using mem_write_frame [OF m'(2)] that mem_read_length [OF assms(2)] by simp
    ultimately show ?thesis using True by (auto simp: image_contains_iff)
  next
    case False
    then have "copyFrom m v start source n = Some (False, m)" by (simp add: copyFrom_def)
    with False nn show ?thesis by (auto simp: image_contains_iff)
  qed
qed

lemma copyFrom_exact_witness:
  "\<exists>m'. copyFrom [0 \<mapsto> [1, 2, 3, 4 :: u16], 1 \<mapsto> [8, 9]]
        \<lparr>im_values = Ptr 0 0, im_count = 4\<rparr> 1 (Ptr 1 0) 2 = Some (True, m') \<and>
     mem_read m' (Ptr 0 0) 4 = Some [1, 8, 9, 4]"
  using copyFrom_exact [of "[0 \<mapsto> [1, 2, 3, 4 :: u16], 1 \<mapsto> [8, 9]]"
      "\<lparr>im_values = Ptr 0 0, im_count = 4\<rparr>" "[1, 2, 3, 4]" "Ptr 1 0" 2 "[8, 9]" 1]
  by (auto simp: overwrite_def)

text \<open>
  C21. Rollback: when the visible and the applied image lie in separate storage, capturing a
  desired range and then restoring it leaves the applied image as it was and makes the
  visible range equal to the applied range again, with the rest of the visible image as it
  was before the capture.
\<close>

theorem restore_undoes_capture:
  assumes vis: "mem_read m (im_values (dc_visible c)) (unat (im_count (dc_visible c))) = Some old"
    and app: "mem_read m (im_values (dc_applied c)) (unat (im_count (dc_applied c))) = Some applied"
    and src: "mem_read m source (unat n) = Some vs"
    and shape: "validShape c"
    and sep: "separate (im_values (dc_visible c)) (unat (im_count (dc_visible c)))
        (im_values (dc_applied c)) (unat (im_count (dc_applied c)))"
      "separate (im_values (dc_visible c)) (unat (im_count (dc_visible c))) source (unat n)"
    and captured: "captureDesired m c start source n = Some (True, m1)"
  shows "\<exists>m2. restore m1 c start n = Some (True, m2) \<and>
    mem_read m2 (im_values (dc_applied c)) (unat (im_count (dc_applied c))) = Some applied \<and>
    mem_read m2 (im_values (dc_visible c)) (unat (im_count (dc_visible c))) =
      Some (overwrite (unat start) (take (unat n) (drop (unat start) applied)) old)"
proof -
  let ?v = "dc_visible c" and ?a = "dc_applied c"
  let ?slice = "take (unat n) (drop (unat start) applied)"
  have cv: "image_contains ?v start n"
    using captured by (auto simp: captureDesired_def copyFrom_def split: if_splits)
  then have ca: "image_contains ?a start n"
    using shape by (auto simp: image_contains_iff validShape_def unat_eq_0)
  have rng: "unat start + unat n \<le> unat (im_count ?v)" "im_count ?a = im_count ?v"
    using cv shape by (auto simp: image_contains_iff validShape_def)
  have "separate (ptr_add (im_values ?v) start) (unat n) source (unat n)"
    using sep(2) rng(1) by (rule separate_sub)
  then have m1: "mem_write m (ptr_add (im_values ?v) start) vs = Some m1"
      "mem_read m1 (im_values ?v) (unat (im_count ?v)) = Some (overwrite (unat start) vs old)"
    using copyFrom_accepts [OF vis src cv] captured by (auto simp: captureDesired_def)
  have sepa: "separate (ptr_add (im_values ?v) start) (unat n) (im_values ?a) (unat (im_count ?a))"
    using sep(1) rng(1) by (rule separate_sub)
  have app1: "mem_read m1 (im_values ?a) (unat (im_count ?a)) = Some applied"
    using mem_write_frame [OF m1(1)] sepa mem_read_length [OF src] app by simp
  then have slice: "mem_read m1 (ptr_add (im_values ?a) start) (unat n) = Some ?slice"
    using rng by (intro mem_read_sub) simp_all
  have "separate (ptr_add (im_values ?a) start) (unat n) (ptr_add (im_values ?v) start) (unat n)"
    using sepa rng by (intro separate_sub [where n = "unat (im_count ?a)"]) (simp_all add: separate_sym)
  then have "separate (ptr_add (im_values ?v) start) (unat n) (ptr_add (im_values ?a) start) (unat n)"
    by (simp add: separate_sym)
  then obtain m2 where m2: "copyFrom m1 ?v start (ptr_add (im_values ?a) start) n = Some (True, m2)"
      "mem_write m1 (ptr_add (im_values ?v) start) ?slice = Some m2"
      "mem_read m2 (im_values ?v) (unat (im_count ?v)) =
        Some (overwrite (unat start) ?slice (overwrite (unat start) vs old))"
    using copyFrom_accepts [OF m1(2) slice cv] by blast
  have len: "length ?slice = unat n" "length vs = unat n" "length old = unat (im_count ?v)"
    using rng mem_read_length [OF app] mem_read_length [OF src] mem_read_length [OF vis] by simp_all
  have "overwrite (unat start) ?slice (overwrite (unat start) vs old) =
      overwrite (unat start) ?slice old"
    using len rng by (intro nth_equalityI) (auto simp: nth_overwrite)
  moreover have "mem_read m2 (im_values ?a) (unat (im_count ?a)) = Some applied"
    using mem_write_frame [OF m2(2)] sepa len app1 by simp
  ultimately show ?thesis using m2 cv ca by (simp add: restore_def)
qed

lemma restore_undoes_capture_witness:
  "\<exists>m1 m2. captureDesired [0 \<mapsto> [1, 2, 3 :: u16], 1 \<mapsto> [4, 5, 6], 2 \<mapsto> [9]]
      \<lparr>dc_visible = \<lparr>im_values = Ptr 0 0, im_count = 3\<rparr>,
       dc_applied = \<lparr>im_values = Ptr 1 0, im_count = 3\<rparr>\<rparr> 1 (Ptr 2 0) 1 = Some (True, m1) \<and>
    restore m1 \<lparr>dc_visible = \<lparr>im_values = Ptr 0 0, im_count = 3\<rparr>,
       dc_applied = \<lparr>im_values = Ptr 1 0, im_count = 3\<rparr>\<rparr> 1 1 = Some (True, m2) \<and>
    mem_read m2 (Ptr 0 0) 3 = Some [1, 5, 3]"
proof -
  let ?c = "\<lparr>dc_visible = \<lparr>im_values = Ptr 0 0, im_count = 3\<rparr>,
       dc_applied = \<lparr>im_values = Ptr 1 0, im_count = 3\<rparr>\<rparr> :: u16 DesiredAppliedCache"
  let ?m = "[0 \<mapsto> [1, 2, 3 :: u16], 1 \<mapsto> [4, 5, 6], 2 \<mapsto> [9]]"
  obtain m1 where m1: "captureDesired ?m ?c 1 (Ptr 2 0) 1 = Some (True, m1)"
    by (simp add: captureDesired_def copyFrom_def copyValues_def image_contains_def mem_load_def)
  from restore_undoes_capture [of ?m ?c "[1, 2, 3]" "[4, 5, 6]" "Ptr 2 0" 1 "[9]" 1 m1] m1
  show ?thesis by (auto simp: overwrite_def validShape_def)
qed

end
