(* ===== verification/Ingress_Work.thy ===== *)
theory Ingress_Work
  imports Bridge_Prelude
begin

text \<open>
  Model of \<open>IngressWork.h\<close>: delivery classes, non-zero wrapping serials, work identities,
  the session snapshot and the borrowed ingress work view.

  \<open>OtherDelivery n\<close> stands for an object representation outside of the enumerators, which
  the code's \<open>default\<close> branches handle.
\<close>

section \<open>Delivery classes\<close>

datatype IngressDelivery = Tracked | SilentOrdered | LatestState | Rejected | OtherDelivery u8

definition classifyAcceptedIngress :: "bool \<Rightarrow> bool \<Rightarrow> bool \<Rightarrow> IngressDelivery" where
  "classifyAcceptedIngress latestState responseRequired suppressPublicCompletion =
     (if latestState then LatestState
      else if \<not> responseRequired \<or> suppressPublicCompletion then SilentOrdered
      else Tracked)"

fun isKnownIngressDelivery :: "IngressDelivery \<Rightarrow> bool" where
  "isKnownIngressDelivery Tracked = True"
| "isKnownIngressDelivery SilentOrdered = True"
| "isKnownIngressDelivery LatestState = True"
| "isKnownIngressDelivery Rejected = True"
| "isKnownIngressDelivery (OtherDelivery _) = False"

fun isAccepted :: "IngressDelivery \<Rightarrow> bool" where
  "isAccepted Tracked = True"
| "isAccepted SilentOrdered = True"
| "isAccepted LatestState = True"
| "isAccepted Rejected = False"
| "isAccepted (OtherDelivery _) = False"

definition isLatestState :: "IngressDelivery \<Rightarrow> bool" where
  "isLatestState d \<longleftrightarrow> d = LatestState"

definition tracksPublicCompletion :: "IngressDelivery \<Rightarrow> bool" where
  "tracksPublicCompletion d \<longleftrightarrow> d = Tracked"

definition requiresOrderedDelivery :: "IngressDelivery \<Rightarrow> bool" where
  "requiresOrderedDelivery d \<longleftrightarrow> d = Tracked \<or> d = SilentOrdered"

definition preservesSourceOrder :: "IngressDelivery \<Rightarrow> bool" where
  "preservesSourceOrder d = requiresOrderedDelivery d"

section \<open>Non-zero wrapping serials\<close>

definition nextNonZeroSerial16 :: "u16 \<Rightarrow> u16" where
  "nextNonZeroSerial16 value = (let nxt = value + 1 in if nxt = 0 then 1 else nxt)"

definition nonZeroSerial16Before :: "u16 \<Rightarrow> u16 \<Rightarrow> bool" where
  "nonZeroSerial16Before lhs rhs =
     (if lhs = rhs \<or> lhs = 0 then False
      else if rhs = 0 then True
      else let forwardDistance = rhs - lhs in forwardDistance < 0x8000)"

section \<open>Work identities\<close>

record WorkIdentity =
  wi_sourceToken :: u16
  wi_sessionGeneration :: u16

definition noWork :: WorkIdentity where
  "noWork = \<lparr>wi_sourceToken = 0, wi_sessionGeneration = 0\<rparr>"

definition validWork :: "WorkIdentity \<Rightarrow> bool" where
  "validWork w \<longleftrightarrow> wi_sourceToken w \<noteq> 0 \<and> wi_sessionGeneration w \<noteq> 0"

definition sameWorkIdentity :: "WorkIdentity \<Rightarrow> WorkIdentity \<Rightarrow> bool" where
  "sameWorkIdentity lhs rhs \<longleftrightarrow>
     wi_sourceToken lhs = wi_sourceToken rhs \<and>
     wi_sessionGeneration lhs = wi_sessionGeneration rhs"

definition workIdentityBefore :: "WorkIdentity \<Rightarrow> WorkIdentity \<Rightarrow> bool" where
  "workIdentityBefore lhs rhs \<longleftrightarrow>
     validWork lhs \<and> validWork rhs \<and>
     wi_sessionGeneration lhs = wi_sessionGeneration rhs \<and>
     nonZeroSerial16Before (wi_sourceToken lhs) (wi_sourceToken rhs)"

section \<open>Session snapshot\<close>

datatype SessionPhase = Closed | Teardown | Initializing | Ready

record SessionStateView =
  ss_active :: bool
  ss_currentGeneration :: u16
  ss_appliedGeneration :: u16
  ss_phase :: SessionPhase

definition admissionOpen :: "SessionStateView \<Rightarrow> bool" where
  "admissionOpen s \<longleftrightarrow>
     ss_active s \<and> ss_currentGeneration s \<noteq> 0 \<and>
     ss_currentGeneration s = ss_appliedGeneration s \<and> ss_phase s = Ready"

definition workCurrent :: "WorkIdentity \<Rightarrow> SessionStateView \<Rightarrow> bool" where
  "workCurrent w s \<longleftrightarrow>
     validWork w \<and> ss_active s \<and>
     wi_sessionGeneration w = ss_currentGeneration s \<and>
     ss_currentGeneration s = ss_appliedGeneration s \<and> ss_phase s = Ready"

section \<open>Borrowed snapshots and work views\<close>

record 'v ImmutableSnapshotView =
  sv_values :: "'v ptr"
  sv_count :: u16

definition noSnapshot :: "'v ImmutableSnapshotView" where
  "noSnapshot = \<lparr>sv_values = Null, sv_count = 0\<rparr>"

definition validFor :: "'v ImmutableSnapshotView \<Rightarrow> u16 \<Rightarrow> bool" where
  "validFor s expectedCount \<longleftrightarrow>
     expectedCount \<noteq> 0 \<and> sv_values s \<noteq> Null \<and> sv_count s = expectedCount"

record 'v IngressWorkView =
  iw_identity :: WorkIdentity
  iw_start :: u16
  iw_count :: u16
  iw_delivery :: IngressDelivery
  iw_snapshot :: "'v ImmutableSnapshotView"

definition noIngressWork :: "'v IngressWorkView" where
  "noIngressWork = \<lparr>iw_identity = noWork, iw_start = 0, iw_count = 0,
     iw_delivery = Rejected, iw_snapshot = noSnapshot\<rparr>"

definition validAcceptedShape :: "'v IngressWorkView \<Rightarrow> bool" where
  "validAcceptedShape w \<longleftrightarrow>
     isAccepted (iw_delivery w) \<and> validFor (iw_snapshot w) (iw_count w) \<and>
     (ucast (iw_start w) + ucast (iw_count w) :: u32) \<le> 0x10000"

definition makeCoilIngressWork ::
  "WorkIdentity \<Rightarrow> u16 \<Rightarrow> u16 \<Rightarrow> IngressDelivery \<Rightarrow> bool ptr \<Rightarrow> bool IngressWorkView" where
  "makeCoilIngressWork identity start count delivery snapshot =
     \<lparr>iw_identity = identity, iw_start = start, iw_count = count, iw_delivery = delivery,
      iw_snapshot = \<lparr>sv_values = snapshot, sv_count = count\<rparr>\<rparr>"

definition makeHoldingIngressWork ::
  "WorkIdentity \<Rightarrow> u16 \<Rightarrow> u16 \<Rightarrow> IngressDelivery \<Rightarrow> u16 ptr \<Rightarrow> u16 IngressWorkView" where
  "makeHoldingIngressWork identity start count delivery snapshot =
     \<lparr>iw_identity = identity, iw_start = start, iw_count = count, iw_delivery = delivery,
      iw_snapshot = \<lparr>sv_values = snapshot, sv_count = count\<rparr>\<rparr>"

section \<open>Lemmas\<close>

lemma sameWorkIdentity_eq [simp]: "sameWorkIdentity a b \<longleftrightarrow> a = b"
  by (cases a; cases b) (simp add: sameWorkIdentity_def)

lemma not_valid_noWork [simp]: "\<not> validWork noWork"
  by (simp add: validWork_def noWork_def)

lemma workCurrent_valid: "workCurrent w s \<Longrightarrow> validWork w"
  by (simp add: workCurrent_def)

lemma unat_nextNonZeroSerial16:
  "unat (nextNonZeroSerial16 x) = (if unat x = 65535 then 1 else Suc (unat x))"
proof (cases "unat x = 65535")
  case True
  then have "unat (x + 1) = 0" by (simp add: width_simps)
  then show ?thesis using True by (simp add: nextNonZeroSerial16_def unat_eq_0)
next
  case False
  then have "Suc (unat x) < 65536"
    using unat_u16_bound [of x] by (simp del: unat_u16_bound)
  then have "unat (x + 1) = Suc (unat x)" by (simp add: width_simps)
  then show ?thesis using False by (auto simp: nextNonZeroSerial16_def Let_def unat_eq_iff)
qed

lemma nextNonZeroSerial16_nonzero: "nextNonZeroSerial16 x \<noteq> 0"
  by (simp add: nextNonZeroSerial16_def Let_def)

lemma unat_serial_iterate:
  assumes "x \<noteq> 0" "k \<le> 65535"
  shows "unat ((nextNonZeroSerial16 ^^ k) x) =
    (if unat x + k < 65536 then unat x + k else unat x + k - 65535)"
  using assms(2)
proof (induction k)
  case (Suc k)
  have "0 < unat x" using assms(1) by (simp add: unat_gt_0)
  with Suc show ?case
    using unat_u16_bound [of x] by (auto simp: unat_nextNonZeroSerial16 simp del: unat_u16_bound)
qed simp

lemma serial_before_iff:
  assumes "x \<noteq> 0" "y \<noteq> 0"
  shows "nonZeroSerial16Before x y \<longleftrightarrow>
    x \<noteq> y \<and> (unat y + (65536 - unat x)) mod 65536 < 32768"
proof -
  have "unat (y - x) = (unat y + (65536 - unat x)) mod 65536"
    by (rule unat_minus_mod)
  then show ?thesis using assms by (simp add: nonZeroSerial16Before_def Let_def unat_order)
qed

text \<open>
  C19. Serials issued by \<open>nextNonZeroSerial16\<close> keep their issue order: a serial is before each of
  the next 32766 issued after it, also across the wrap that skips zero, and none of those is
  before it.
\<close>

theorem serial_order:
  assumes "x \<noteq> 0" "0 < k" "k \<le> 32766"
  shows "nonZeroSerial16Before x ((nextNonZeroSerial16 ^^ k) x) \<and>
    \<not> nonZeroSerial16Before ((nextNonZeroSerial16 ^^ k) x) x"
proof -
  define y where "y = (nextNonZeroSerial16 ^^ k) x"
  have y: "unat y = (if unat x + k < 65536 then unat x + k else unat x + k - 65535)"
    using unat_serial_iterate [OF assms(1), of k] assms(3) by (simp add: y_def)
  obtain a b where ab: "unat x = a" "unat y = b" by blast
  have x: "0 < a" "a < 65536" using assms(1) ab by (auto simp: unat_gt_0)
  have b: "b = (if a + k < 65536 then a + k else a + k - 65535)" using y ab by simp
  have "y \<noteq> 0" "y \<noteq> x" using x b ab assms(2,3) by (auto split: if_splits)
  moreover have "(b + (65536 - a)) mod 65536 < 32768" "\<not> (a + (65536 - b)) mod 65536 < 32768"
    using x b assms(2,3) by (auto simp: mod_if)
  ultimately show ?thesis using assms(1) by (simp add: serial_before_iff ab flip: y_def)
qed

lemma serial_order_witness:
  "nonZeroSerial16Before 65530 ((nextNonZeroSerial16 ^^ 10) 65530) \<and>
     \<not> nonZeroSerial16Before ((nextNonZeroSerial16 ^^ 10) 65530) 65530"
  by (rule serial_order) simp_all

end
