(* ===== verification/Forward_Plan.thy ===== *)
theory Forward_Plan
  imports Ingress_Work Route_Table Downstream_Executor
begin

text \<open>
  Model of \<open>ForwardPlan.h\<close>: request identities, planned write requests, and the planner
  that turns one accepted ingress work into endpoint-local write requests. The template
  parameter \<open>Value\<close> is the type variable \<open>'v\<close>; the specialisations of \<open>WorkTraits\<close> are
  the two records \<open>coil_traits\<close> and \<open>holding_traits\<close>.
\<close>

section \<open>Options, statuses and identities\<close>

datatype ForwardSpanPolicy = SingleEndpoint | PreflightAndSplit | OtherPolicy u8

fun isKnownForwardSpanPolicy :: "ForwardSpanPolicy \<Rightarrow> bool" where
  "isKnownForwardSpanPolicy SingleEndpoint = True"
| "isKnownForwardSpanPolicy PreflightAndSplit = True"
| "isKnownForwardSpanPolicy (OtherPolicy _) = False"

record ForwardPlanOptions =
  fo_maxCoilsPerRequest :: u16
  fo_maxHoldingRegistersPerRequest :: u16
  fo_orderedSpanPolicy :: ForwardSpanPolicy
  fo_latestStateSpanPolicy :: ForwardSpanPolicy

definition newForwardPlanOptions :: "u16 \<Rightarrow> u16 \<Rightarrow> ForwardPlanOptions" where
  "newForwardPlanOptions maxCoils maxHolding =
     \<lparr>fo_maxCoilsPerRequest = maxCoils, fo_maxHoldingRegistersPerRequest = maxHolding,
      fo_orderedSpanPolicy = SingleEndpoint, fo_latestStateSpanPolicy = PreflightAndSplit\<rparr>"

definition emptyForwardPlanOptions :: ForwardPlanOptions where
  "emptyForwardPlanOptions = newForwardPlanOptions 0 0"

datatype ForwardPlanStatus =
  Plan_Ready | Plan_NotAccepted | Plan_InvalidWork | Plan_StaleSession | Plan_InvalidLimits
| Plan_Empty | Plan_AddressOverflow | Plan_Gap | Plan_MultipleEndpointsNotAllowed
| Plan_InvalidPolicy

datatype ForwardNextStatus =
  Next_Planned | Next_Complete | Next_InvalidSequence | Next_TopologyChanged

definition nextNonZeroSequence32 :: "u32 \<Rightarrow> u32" where
  "nextNonZeroSequence32 value = (let nxt = value + 1 in if nxt = 0 then 1 else nxt)"

record RequestIdentity =
  ri_work :: WorkIdentity
  ri_requestSequence :: u32
  ri_fragmentIndex :: u16

definition noRequestIdentity :: RequestIdentity where
  "noRequestIdentity =
     \<lparr>ri_work = noWork, ri_requestSequence = 0, ri_fragmentIndex = 0\<rparr>"

definition validRequestIdentity :: "RequestIdentity \<Rightarrow> bool" where
  "validRequestIdentity r \<longleftrightarrow> validWork (ri_work r) \<and> ri_requestSequence r \<noteq> 0"

definition sameRequestIdentity :: "RequestIdentity \<Rightarrow> RequestIdentity \<Rightarrow> bool" where
  "sameRequestIdentity lhs rhs \<longleftrightarrow>
     sameWorkIdentity (ri_work lhs) (ri_work rhs) \<and>
     ri_requestSequence lhs = ri_requestSequence rhs \<and>
     ri_fragmentIndex lhs = ri_fragmentIndex rhs"

section \<open>Planned write requests\<close>

record PlannedWriteRequest =
  pw_identity :: RequestIdentity
  pw_delivery :: IngressDelivery
  pw_table :: RegisterTable
  pw_operation :: DownstreamOperation
  pw_routeIndex :: u16
  pw_endpointId :: u8
  pw_upstreamStart :: u16
  pw_downstreamStart :: u16
  pw_quantity :: u16
  pw_sourceOffset :: u16
  pw_coilValues :: "bool ptr"
  pw_holdingValues :: "u16 ptr"
  pw_coilValue :: bool
  pw_holdingValue :: u16
  pw_finalFragment :: bool

definition newPlannedWriteRequest :: PlannedWriteRequest where
  "newPlannedWriteRequest =
     \<lparr>pw_identity = noRequestIdentity, pw_delivery = Rejected, pw_table = Coils,
      pw_operation = WriteSingleCoil, pw_routeIndex = 0, pw_endpointId = 0,
      pw_upstreamStart = 0, pw_downstreamStart = 0, pw_quantity = 0, pw_sourceOffset = 0,
      pw_coilValues = Null, pw_holdingValues = Null, pw_coilValue = False,
      pw_holdingValue = 0, pw_finalFragment = False\<rparr>"

definition samePlannedWriteRequest :: "PlannedWriteRequest \<Rightarrow> PlannedWriteRequest \<Rightarrow> bool" where
  "samePlannedWriteRequest lhs rhs \<longleftrightarrow>
     sameRequestIdentity (pw_identity lhs) (pw_identity rhs) \<and>
     pw_delivery lhs = pw_delivery rhs \<and> pw_table lhs = pw_table rhs \<and>
     pw_operation lhs = pw_operation rhs \<and> pw_routeIndex lhs = pw_routeIndex rhs \<and>
     pw_endpointId lhs = pw_endpointId rhs \<and>
     pw_upstreamStart lhs = pw_upstreamStart rhs \<and>
     pw_downstreamStart lhs = pw_downstreamStart rhs \<and>
     pw_quantity lhs = pw_quantity rhs \<and> pw_sourceOffset lhs = pw_sourceOffset rhs \<and>
     pw_coilValues lhs = pw_coilValues rhs \<and>
     pw_holdingValues lhs = pw_holdingValues rhs \<and>
     pw_coilValue lhs = pw_coilValue rhs \<and>
     pw_holdingValue lhs = pw_holdingValue rhs \<and>
     pw_finalFragment lhs = pw_finalFragment rhs"

record 'v ForwardCursor =
  fc_work :: "'v IngressWorkView"
  fc_nextAddress :: u16
  fc_remaining :: u16
  fc_sourceOffset :: u16
  fc_fragmentIndex :: u16
  fc_active :: bool

definition newForwardCursor :: "'v ForwardCursor" where
  "newForwardCursor =
     \<lparr>fc_work = noIngressWork, fc_nextAddress = 0, fc_remaining = 0, fc_sourceOffset = 0,
      fc_fragmentIndex = 0, fc_active = False\<rparr>"

section \<open>Work traits\<close>

record 'v WorkTraits =
  wt_table :: RegisterTable
  wt_maxQuantity :: "ForwardPlanOptions \<Rightarrow> u16"
  wt_populatePayload ::
    "'v mem \<Rightarrow> 'v ptr \<Rightarrow> u16 \<Rightarrow> PlannedWriteRequest \<Rightarrow> PlannedWriteRequest option"

definition coil_populatePayload ::
  "bool mem \<Rightarrow> bool ptr \<Rightarrow> u16 \<Rightarrow> PlannedWriteRequest \<Rightarrow> PlannedWriteRequest option" where
  "coil_populatePayload m values quantity request = do {
     first \<leftarrow> mem_load m values;
     Some (request\<lparr>pw_coilValues := values, pw_coilValue := first,
       pw_operation := (if quantity = 1 then WriteSingleCoil else WriteMultipleCoils)\<rparr>) }"

definition holding_populatePayload ::
  "u16 mem \<Rightarrow> u16 ptr \<Rightarrow> u16 \<Rightarrow> PlannedWriteRequest \<Rightarrow> PlannedWriteRequest option" where
  "holding_populatePayload m values quantity request = do {
     first \<leftarrow> mem_load m values;
     Some (request\<lparr>pw_holdingValues := values, pw_holdingValue := first,
       pw_operation := (if quantity = 1 then WriteSingleHoldingRegister
                        else WriteMultipleHoldingRegisters)\<rparr>) }"

definition coil_traits :: "bool WorkTraits" where
  "coil_traits = \<lparr>wt_table = Coils, wt_maxQuantity = fo_maxCoilsPerRequest,
     wt_populatePayload = coil_populatePayload\<rparr>"

definition holding_traits :: "u16 WorkTraits" where
  "holding_traits = \<lparr>wt_table = HoldingRegisters,
     wt_maxQuantity = fo_maxHoldingRegistersPerRequest,
     wt_populatePayload = holding_populatePayload\<rparr>"

fun mapSpanStatus :: "RoutedSpanStatus \<Rightarrow> ForwardPlanStatus" where
  "mapSpanStatus Span_Complete = Plan_Ready"
| "mapSpanStatus Span_Empty = Plan_Empty"
| "mapSpanStatus Span_AddressOverflow = Plan_AddressOverflow"
| "mapSpanStatus Span_Gap = Plan_Gap"

section \<open>The planner\<close>

record ForwardPlanner =
  fp_routes :: RouteTableView
  fp_options :: ForwardPlanOptions

text \<open>
  The policy switch of \<open>begin\<close>: the status to return, where \<open>Plan_Ready\<close> is the
  \<open>break\<close> of an admitted span.
\<close>

definition span_policy_check ::
  "ForwardPlanner \<Rightarrow> RegisterTable \<Rightarrow> 'v IngressWorkView \<Rightarrow> ForwardPlanStatus option" where
  "span_policy_check p table work =
     (case (if isLatestState (iw_delivery work)
            then fo_latestStateSpanPolicy (fp_options p)
            else fo_orderedSpanPolicy (fp_options p)) of
        SingleEndpoint \<Rightarrow> do {
          found \<leftarrow> locate (fp_routes p) table (iw_start work);
          (case found of
             None \<Rightarrow> Some Plan_Gap
           | Some routeIndex \<Rightarrow> do {
               endpointRange \<leftarrow> upstream_at (fp_routes p) (unat routeIndex) (table_index table);
               let workEnd = (ucast (iw_start work) + ucast (iw_count work) :: u32);
               Some (if workEnd > range_end endpointRange
                     then Plan_MultipleEndpointsNotAllowed else Plan_Ready) }) }
      | PreflightAndSplit \<Rightarrow> Some Plan_Ready
      | OtherPolicy _ \<Rightarrow> Some Plan_InvalidPolicy)"

definition planner_begin ::
  "'v WorkTraits \<Rightarrow> ForwardPlanner \<Rightarrow> 'v IngressWorkView \<Rightarrow>
     (ForwardPlanStatus \<times> 'v ForwardCursor) option" where
  "planner_begin T p work =
     (if \<not> isAccepted (iw_delivery work) then Some (Plan_NotAccepted, newForwardCursor)
      else if iw_count work = 0 then Some (Plan_Empty, newForwardCursor)
      else if (ucast (iw_start work) + ucast (iw_count work) :: u32) > 0x10000
      then Some (Plan_AddressOverflow, newForwardCursor)
      else if \<not> validFor (iw_snapshot work) (iw_count work)
      then Some (Plan_InvalidWork, newForwardCursor)
      else if wt_maxQuantity T (fp_options p) = 0
      then Some (Plan_InvalidLimits, newForwardCursor)
      else do {
        span \<leftarrow> inspectSpan (fp_routes p) (wt_table T) (iw_start work) (iw_count work);
        if span \<noteq> Span_Complete then Some (mapSpanStatus span, newForwardCursor)
        else do {
          status \<leftarrow> span_policy_check p (wt_table T) work;
          Some (if status \<noteq> Plan_Ready then (status, newForwardCursor)
                else (Plan_Ready,
                      \<lparr>fc_work = work, fc_nextAddress = iw_start work,
                       fc_remaining = iw_count work, fc_sourceOffset = 0,
                       fc_fragmentIndex = 0, fc_active = True\<rparr>)) } })"

definition planner_begin_session ::
  "'v WorkTraits \<Rightarrow> ForwardPlanner \<Rightarrow> 'v IngressWorkView \<Rightarrow> SessionStateView \<Rightarrow>
     (ForwardPlanStatus \<times> 'v ForwardCursor) option" where
  "planner_begin_session T p work session =
     (if \<not> workCurrent (iw_identity work) session
      then Some (Plan_StaleSession, newForwardCursor)
      else planner_begin T p work)"

text \<open>The request that \<open>next\<close> fills in before the payload, for a located route.\<close>

definition fragment_request ::
  "'v WorkTraits \<Rightarrow> 'v ForwardCursor \<Rightarrow> u32 \<Rightarrow> u16 \<Rightarrow> u8 \<Rightarrow> u16 \<Rightarrow> u16 \<Rightarrow> PlannedWriteRequest" where
  "fragment_request T cursor requestSequence routeIndex endpointId downstreamStart quantity =
     newPlannedWriteRequest
       \<lparr>pw_identity := \<lparr>ri_work = iw_identity (fc_work cursor),
                        ri_requestSequence = requestSequence,
                        ri_fragmentIndex = fc_fragmentIndex cursor\<rparr>,
        pw_delivery := iw_delivery (fc_work cursor),
        pw_table := wt_table T,
        pw_routeIndex := routeIndex,
        pw_endpointId := endpointId,
        pw_upstreamStart := fc_nextAddress cursor,
        pw_downstreamStart := downstreamStart,
        pw_quantity := quantity,
        pw_sourceOffset := fc_sourceOffset cursor,
        pw_finalFragment := (fc_remaining cursor = quantity)\<rparr>"

definition advance_cursor :: "'v ForwardCursor \<Rightarrow> u16 \<Rightarrow> 'v ForwardCursor" where
  "advance_cursor cursor quantity =
     cursor\<lparr>fc_nextAddress := fc_nextAddress cursor + quantity,
            fc_remaining := fc_remaining cursor - quantity,
            fc_sourceOffset := fc_sourceOffset cursor + quantity,
            fc_fragmentIndex := fc_fragmentIndex cursor + 1,
            fc_active := (if fc_remaining cursor - quantity = 0 then False
                          else fc_active cursor)\<rparr>"

definition planner_next ::
  "'v WorkTraits \<Rightarrow> 'v mem \<Rightarrow> ForwardPlanner \<Rightarrow> 'v ForwardCursor \<Rightarrow> u32 \<Rightarrow>
     (ForwardNextStatus \<times> 'v ForwardCursor \<times> PlannedWriteRequest) option" where
  "planner_next T m p cursor requestSequence =
     (if \<not> fc_active cursor \<or> fc_remaining cursor = 0
      then Some (Next_Complete, cursor\<lparr>fc_active := False\<rparr>, newPlannedWriteRequest)
      else if requestSequence = 0 \<and> validWork (iw_identity (fc_work cursor))
      then Some (Next_InvalidSequence, cursor, newPlannedWriteRequest)
      else do {
        let table = wt_table T;
        found \<leftarrow> locate (fp_routes p) table (fc_nextAddress cursor);
        (case found of
           None \<Rightarrow> Some (Next_TopologyChanged,
                     cursor\<lparr>fc_active := False, fc_remaining := 0\<rparr>, newPlannedWriteRequest)
         | Some routeIndex \<Rightarrow> do {
             route \<leftarrow> route_at (fp_routes p) (unat routeIndex);
             upstream \<leftarrow> array_at (er_upstream route) (table_index table);
             downstream \<leftarrow> array_at (er_downstream route) (table_index table);
             let routeOffset = fc_nextAddress cursor - ar_start upstream;
             let routeAvailable = ar_count upstream - routeOffset;
             let maxQuantity = wt_maxQuantity T (fp_options p);
             let available = (if fc_remaining cursor < routeAvailable
                              then fc_remaining cursor else routeAvailable);
             let quantity = (if available > maxQuantity then maxQuantity else available);
             if quantity = 0
             then Some (Next_TopologyChanged,
                    cursor\<lparr>fc_active := False, fc_remaining := 0\<rparr>, newPlannedWriteRequest)
             else do {
               request \<leftarrow> wt_populatePayload T m
                 (ptr_add (sv_values (iw_snapshot (fc_work cursor))) (fc_sourceOffset cursor))
                 quantity
                 (fragment_request T cursor requestSequence routeIndex
                    (er_endpointId route) (ar_start downstream + routeOffset) quantity);
               Some (Next_Planned, advance_cursor cursor quantity, request) } })
      })"

text \<open>The overload without a sequence.\<close>

definition planner_next_unsequenced ::
  "'v WorkTraits \<Rightarrow> 'v mem \<Rightarrow> ForwardPlanner \<Rightarrow> 'v ForwardCursor \<Rightarrow>
     (ForwardNextStatus \<times> 'v ForwardCursor \<times> PlannedWriteRequest) option" where
  "planner_next_unsequenced T m p cursor = planner_next T m p cursor 0"

section \<open>Exact classification by \<open>begin\<close>\<close>

text \<open>One route holds the whole span.\<close>

definition single_route :: "RouteTableView \<Rightarrow> u8 \<Rightarrow> nat \<Rightarrow> nat \<Rightarrow> bool" where
  "single_route v t a n \<longleftrightarrow>
     (\<exists>i<unat (rt_count v). lo (up_range v t i) \<le> a \<and> a + n \<le> hi (up_range v t i))"

definition span_policy :: "ForwardPlanOptions \<Rightarrow> IngressDelivery \<Rightarrow> ForwardSpanPolicy" where
  "span_policy opts delivery =
     (if delivery = LatestState then fo_latestStateSpanPolicy opts else fo_orderedSpanPolicy opts)"

text \<open>The declarative classification of a work by a planner over a usable table.\<close>

definition begin_status :: "'v WorkTraits \<Rightarrow> ForwardPlanner \<Rightarrow> 'v IngressWorkView \<Rightarrow> ForwardPlanStatus" where
  "begin_status T p work =
     (let t = table_index (wt_table T);
          a = unat (iw_start work);
          n = unat (iw_count work) in
      if \<not> isAccepted (iw_delivery work) then Plan_NotAccepted
      else if n = 0 then Plan_Empty
      else if a + n > 65536 then Plan_AddressOverflow
      else if sv_values (iw_snapshot work) = Null \<or> sv_count (iw_snapshot work) \<noteq> iw_count work
      then Plan_InvalidWork
      else if wt_maxQuantity T (fp_options p) = 0 then Plan_InvalidLimits
      else if \<not> (\<forall>x. a \<le> x \<and> x < a + n \<longrightarrow> covered (fp_routes p) t x) then Plan_Gap
      else case span_policy (fp_options p) (iw_delivery work) of
             SingleEndpoint \<Rightarrow>
               if single_route (fp_routes p) t a n then Plan_Ready
               else Plan_MultipleEndpointsNotAllowed
           | PreflightAndSplit \<Rightarrow> Plan_Ready
           | OtherPolicy _ \<Rightarrow> Plan_InvalidPolicy)"

definition begin_cursor :: "'v IngressWorkView \<Rightarrow> 'v ForwardCursor" where
  "begin_cursor work = \<lparr>fc_work = work, fc_nextAddress = iw_start work,
     fc_remaining = iw_count work, fc_sourceOffset = 0, fc_fragmentIndex = 0, fc_active = True\<rparr>"

lemma locate_single_route:
  assumes "searchable v" "table_index table < 4" "n \<noteq> 0"
    and "locate v table a = Some (Some i)"
    and "upstream_at v (unat i) (table_index table) = Some up"
  shows "single_route v (table_index table) (unat a) (unat n) \<longleftrightarrow> unat a + unat n \<le> hi up"
proof -
  from located_route [OF assms(1,2,4)] assms(5)
  have i: "unat i < unat (rt_count v)" "lo up \<le> unat a" "unat a < hi up" by auto
  have unique: "j = unat i" if "j < unat (rt_count v)" "lo (up_range v (table_index table) j) \<le> unat a"
      "unat a + unat n \<le> hi (up_range v (table_index table) j)" for j
  proof -
    have "0 < unat n" using assms(3) by (simp add: unat_gt_0)
    then show ?thesis
      using containing_route_unique [OF searchable_table_ok [OF assms(1,2)] that(1) i(1), of a] that i assms(5)
      by (simp add: range_contains_iff)
  qed
  show ?thesis
  proof
    assume "single_route v (table_index table) (unat a) (unat n)"
    with unique assms(5) show "unat a + unat n \<le> hi up" by (auto simp: single_route_def)
  next
    assume "unat a + unat n \<le> hi up"
    with i assms(5) show "single_route v (table_index table) (unat a) (unat n)"
      unfolding single_route_def by (intro exI [of _ "unat i"]) simp
  qed
qed

lemma span_policy_check_spec:
  assumes "searchable (fp_routes p)" "table_index table < 4" "iw_count work \<noteq> 0"
    and "covered (fp_routes p) (table_index table) (unat (iw_start work))"
  shows "span_policy_check p table work =
    Some (case span_policy (fp_options p) (iw_delivery work) of
        SingleEndpoint \<Rightarrow>
          if single_route (fp_routes p) (table_index table) (unat (iw_start work)) (unat (iw_count work))
          then Plan_Ready else Plan_MultipleEndpointsNotAllowed
      | PreflightAndSplit \<Rightarrow> Plan_Ready
      | OtherPolicy _ \<Rightarrow> Plan_InvalidPolicy)"
proof -
  obtain i where loc: "locate (fp_routes p) table (iw_start work) = Some (Some i)"
    using locate_spec [OF assms(1,2), of "iw_start work"] assms(4)
    by (auto simp: found_ok_def covered_def range_contains_iff split: option.splits)
  from located_route [OF assms(1,2) loc] obtain up where
    up: "upstream_at (fp_routes p) (unat i) (table_index table) = Some up" by metis
  show ?thesis
    using locate_single_route [OF assms(1-3) loc up] loc up
    by (simp add: span_policy_check_def span_policy_def isLatestState_def Let_def
        unat_order width_simps split: ForwardSpanPolicy.splits)
qed

lemma planner_begin_spec:
  assumes "searchable (fp_routes p)" "table_index (wt_table T) < 4"
  shows "planner_begin T p work =
    Some (let s = begin_status T p work in
          (s, if s = Plan_Ready then begin_cursor work else newForwardCursor))"
proof (cases "isAccepted (iw_delivery work) \<and> iw_count work \<noteq> 0 \<and>
    unat (iw_start work) + unat (iw_count work) \<le> 65536 \<and>
    validFor (iw_snapshot work) (iw_count work) \<and> wt_maxQuantity T (fp_options p) \<noteq> 0")
  case False
  then show ?thesis
    by (auto simp: planner_begin_def begin_status_def Let_def validFor_def unat_order width_simps)
next
  case True
  note span = inspectSpan_spec [OF assms, of "iw_start work" "iw_count work"]
  let ?all = "\<forall>x. unat (iw_start work) \<le> x \<and> x < unat (iw_start work) + unat (iw_count work)
      \<longrightarrow> covered (fp_routes p) (table_index (wt_table T)) x"
  show ?thesis
  proof (cases ?all)
    case False
    with True span show ?thesis
      by (auto simp: planner_begin_def begin_status_def Let_def validFor_def unat_order width_simps)
  next
    case all: True
    have "0 < unat (iw_count work)" using True by (simp add: unat_gt_0)
    with all have c: "covered (fp_routes p) (table_index (wt_table T)) (unat (iw_start work))" by simp
    note policy = span_policy_check_spec [OF assms _ c]
    have "(ucast (iw_start work) + ucast (iw_count work) :: u32) \<le> 0x10000"
      using True by (simp add: unat_order width_simps)
    moreover have "unat (iw_count work) \<noteq> 0" using True by (simp add: unat_eq_0)
    ultimately show ?thesis
      using True all span policy
      by (auto simp: planner_begin_def begin_status_def begin_cursor_def Let_def validFor_def not_less
          split: ForwardSpanPolicy.splits)
  qed
qed

section \<open>The contract of the work traits\<close>

text \<open>
  What the planner needs of \<open>WorkTraits<Value>\<close>: a table with a range in every route, and a
  payload writer that fills in the payload (\<open>carries\<close>) and no other field of the request.
\<close>

definition same_header :: "PlannedWriteRequest \<Rightarrow> PlannedWriteRequest \<Rightarrow> bool" where
  "same_header r r' \<longleftrightarrow>
     pw_identity r' = pw_identity r \<and> pw_delivery r' = pw_delivery r \<and>
     pw_table r' = pw_table r \<and> pw_routeIndex r' = pw_routeIndex r \<and>
     pw_endpointId r' = pw_endpointId r \<and> pw_upstreamStart r' = pw_upstreamStart r \<and>
     pw_downstreamStart r' = pw_downstreamStart r \<and> pw_quantity r' = pw_quantity r \<and>
     pw_sourceOffset r' = pw_sourceOffset r \<and> pw_finalFragment r' = pw_finalFragment r"

definition coil_carries :: "PlannedWriteRequest \<Rightarrow> bool ptr \<Rightarrow> bool \<Rightarrow> bool" where
  "coil_carries r values first \<longleftrightarrow>
     pw_coilValues r = values \<and> pw_coilValue r = first \<and>
     pw_operation r = (if pw_quantity r = 1 then WriteSingleCoil else WriteMultipleCoils)"

definition holding_carries :: "PlannedWriteRequest \<Rightarrow> u16 ptr \<Rightarrow> u16 \<Rightarrow> bool" where
  "holding_carries r values first \<longleftrightarrow>
     pw_holdingValues r = values \<and> pw_holdingValue r = first \<and>
     pw_operation r = (if pw_quantity r = 1 then WriteSingleHoldingRegister
                       else WriteMultipleHoldingRegisters)"

text \<open>The shape every cursor of the planner keeps, and the backing of its snapshot.\<close>

definition cursor_shape :: "'v WorkTraits \<Rightarrow> ForwardPlanner \<Rightarrow> 'v ForwardCursor \<Rightarrow> bool" where
  "cursor_shape T p c \<longleftrightarrow>
     (let w = fc_work c; a = unat (iw_start w); n = unat (iw_count w) in
      fc_active c = (fc_remaining c \<noteq> 0) \<and>
      a + n \<le> 65536 \<and> wt_maxQuantity T (fp_options p) \<noteq> 0 \<and>
      unat (fc_sourceOffset c) + unat (fc_remaining c) = n \<and>
      (fc_remaining c \<noteq> 0 \<longrightarrow> unat (fc_nextAddress c) = a + unat (fc_sourceOffset c)) \<and>
      unat (fc_fragmentIndex c) \<le> unat (fc_sourceOffset c) \<and>
      (\<forall>x. a \<le> x \<and> x < a + n \<longrightarrow> covered (fp_routes p) (table_index (wt_table T)) x))"

definition snapshot_holds :: "'v mem \<Rightarrow> 'v IngressWorkView \<Rightarrow> 'v list \<Rightarrow> bool" where
  "snapshot_holds m work vs \<longleftrightarrow>
     mem_read m (sv_values (iw_snapshot work)) (unat (iw_count work)) = Some vs"

text \<open>
  One fragment of a work: the fragment with index \<open>idx\<close> at snapshot offset \<open>off\<close> lies inside
  the ranges of one route, is translated to that route's downstream addresses, respects the
  quantity limit, and carries the snapshot values from \<open>off\<close> on.
\<close>

definition fragment_ok ::
  "'v WorkTraits \<Rightarrow> (PlannedWriteRequest \<Rightarrow> 'v ptr \<Rightarrow> 'v \<Rightarrow> bool) \<Rightarrow> ForwardPlanner \<Rightarrow>
     'v IngressWorkView \<Rightarrow> 'v list \<Rightarrow> nat \<Rightarrow> nat \<Rightarrow> u32 \<Rightarrow> PlannedWriteRequest \<Rightarrow> bool" where
  "fragment_ok T carries p work vs off idx seq r \<longleftrightarrow>
     (let t = table_index (wt_table T); q = unat (pw_quantity r) in
      ri_work (pw_identity r) = iw_identity work \<and>
      ri_requestSequence (pw_identity r) = seq \<and>
      unat (ri_fragmentIndex (pw_identity r)) = idx \<and>
      pw_delivery r = iw_delivery work \<and> pw_table r = wt_table T \<and>
      unat (pw_sourceOffset r) = off \<and>
      unat (pw_upstreamStart r) = unat (iw_start work) + off \<and>
      0 < q \<and> q \<le> unat (wt_maxQuantity T (fp_options p)) \<and>
      off + q \<le> unat (iw_count work) \<and>
      (pw_finalFragment r \<longleftrightarrow> off + q = unat (iw_count work)) \<and>
      (\<exists>route up down.
         route_at (fp_routes p) (unat (pw_routeIndex r)) = Some route \<and>
         unat (pw_routeIndex r) < unat (rt_count (fp_routes p)) \<and>
         array_at (er_upstream route) t = Some up \<and>
         array_at (er_downstream route) t = Some down \<and>
         pw_endpointId r = er_endpointId route \<and>
         lo up \<le> unat (pw_upstreamStart r) \<and> unat (pw_upstreamStart r) + q \<le> hi up \<and>
         unat (pw_downstreamStart r) = lo down + (unat (pw_upstreamStart r) - lo up) \<and>
         unat (pw_downstreamStart r) + q \<le> hi down) \<and>
      carries r (ptr_add (sv_values (iw_snapshot work)) (pw_sourceOffset r)) (vs ! off))"

locale write_traits =
  fixes T :: "'v WorkTraits"
    and carries :: "PlannedWriteRequest \<Rightarrow> 'v ptr \<Rightarrow> 'v \<Rightarrow> bool"
  assumes table_in_routes: "table_index (wt_table T) < 4"
    and payload: "mem_load m values = Some x \<Longrightarrow>
          \<exists>r'. wt_populatePayload T m values (pw_quantity r) r = Some r' \<and>
            same_header r r' \<and> carries r' values x"

interpretation coil: write_traits coil_traits coil_carries
  by unfold_locales
    (auto simp: coil_traits_def coil_populatePayload_def coil_carries_def same_header_def)

interpretation holding: write_traits holding_traits holding_carries
  by unfold_locales
    (auto simp: holding_traits_def holding_populatePayload_def holding_carries_def same_header_def)

lemma begin_cursor_shape:
  assumes "begin_status T p work = Plan_Ready"
  shows "cursor_shape T p (begin_cursor work)"
  using assms
  by (auto simp: cursor_shape_def begin_cursor_def begin_status_def Let_def unat_eq_0
      split: if_splits)

lemma cursor_shape_done:
  "cursor_shape T p c \<Longrightarrow> fc_remaining c = 0 \<Longrightarrow>
     planner_next T m p c seq = Some (Next_Complete, c, newPlannedWriteRequest)"
  by (simp add: cursor_shape_def planner_next_def Let_def)

lemma advance_cursor_shape:
  assumes "cursor_shape T p c" "fc_remaining c \<noteq> 0" "q \<noteq> 0" "unat q \<le> unat (fc_remaining c)"
  shows "cursor_shape T p (advance_cursor c q)"
    and "unat (fc_remaining (advance_cursor c q)) = unat (fc_remaining c) - unat q"
    and "unat (fc_sourceOffset (advance_cursor c q)) = unat (fc_sourceOffset c) + unat q"
    and "unat (fc_fragmentIndex (advance_cursor c q)) = Suc (unat (fc_fragmentIndex c))"
proof -
  obtain a n where an: "a = unat (iw_start (fc_work c))" "n = unat (iw_count (fc_work c))" by simp
  have c: "fc_active c" "a + n \<le> 65536" "unat (fc_sourceOffset c) + unat (fc_remaining c) = n"
      "unat (fc_nextAddress c) = a + unat (fc_sourceOffset c)"
      "unat (fc_fragmentIndex c) \<le> unat (fc_sourceOffset c)"
    using assms(1,2) by (auto simp: cursor_shape_def Let_def an)
  have n: "n < 65536" using an by simp
  have q: "0 < unat q" using assms(3) by (simp add: unat_gt_0)
  have rem: "unat (fc_remaining c - q) = unat (fc_remaining c) - unat q"
    using assms(4) by (simp add: unat_sub word_le_nat_alt)
  have off: "unat (fc_sourceOffset c + q) = unat (fc_sourceOffset c) + unat q"
    using c(3) assms(4) n by (simp add: width_simps)
  have idx: "unat (fc_fragmentIndex c + 1) = Suc (unat (fc_fragmentIndex c))"
    using c(3,5) q assms(4) n by (simp add: width_simps)
  have nxt: "unat (fc_nextAddress c + q) = a + (unat (fc_sourceOffset c) + unat q)"
    if "fc_remaining c - q \<noteq> 0"
  proof -
    have "0 < unat (fc_remaining c - q)" using that by (simp add: unat_gt_0)
    then show ?thesis using c(2-4) rem by (simp add: width_simps)
  qed
  show "unat (fc_remaining (advance_cursor c q)) = unat (fc_remaining c) - unat q"
    and "unat (fc_sourceOffset (advance_cursor c q)) = unat (fc_sourceOffset c) + unat q"
    and "unat (fc_fragmentIndex (advance_cursor c q)) = Suc (unat (fc_fragmentIndex c))"
    using rem off idx by (simp_all add: advance_cursor_def)
  show "cursor_shape T p (advance_cursor c q)"
    using assms(1,4) c q rem off idx nxt
    unfolding cursor_shape_def Let_def advance_cursor_def
    by (simp add: an)
qed

context write_traits
begin

lemma next_fragment:
  assumes "searchable (fp_routes p)" "cursor_shape T p c" "fc_remaining c \<noteq> 0"
    and "snapshot_holds m (fc_work c) vs"
    and "seq \<noteq> 0 \<or> \<not> validWork (iw_identity (fc_work c))"
  obtains r where
    "planner_next T m p c seq = Some (Next_Planned, advance_cursor c (pw_quantity r), r)"
    "fragment_ok T carries p (fc_work c) vs (unat (fc_sourceOffset c))
       (unat (fc_fragmentIndex c)) seq r"
    "pw_quantity r \<noteq> 0" "unat (pw_quantity r) \<le> unat (fc_remaining c)"
proof -
  let ?t = "table_index (wt_table T)" and ?a = "fc_nextAddress c" and ?w = "fc_work c"
  have c: "fc_active c" "unat (fc_sourceOffset c) + unat (fc_remaining c) = unat (iw_count ?w)"
      "unat ?a = unat (iw_start ?w) + unat (fc_sourceOffset c)"
      "wt_maxQuantity T (fp_options p) \<noteq> 0"
    using assms(2,3) by (auto simp: cursor_shape_def Let_def)
  have rem: "0 < unat (fc_remaining c)" using assms(3) by (simp add: unat_gt_0)
  then have "covered (fp_routes p) ?t (unat ?a)"
    using assms(2) c by (simp add: cursor_shape_def Let_def)
  then obtain i where loc: "locate (fp_routes p) (wt_table T) ?a = Some (Some i)"
    using locate_spec [OF assms(1) table_in_routes, of ?a]
    by (auto simp: found_ok_def covered_def range_contains_iff split: option.splits)
  from located_route [OF assms(1) table_in_routes loc] obtain route up down where
    route: "route_at (fp_routes p) (unat i) = Some route" "array_at (er_upstream route) ?t = Some up"
      "array_at (er_downstream route) ?t = Some down" "unat i < unat (rt_count (fp_routes p))"
    and inside: "lo up \<le> unat ?a" "unat ?a < hi up" and size: "cnt down = cnt up" "hi down \<le> 65536"
    by metis
  define avail where "avail = ar_count up - (?a - ar_start up)"
  define available where
    "available = (if fc_remaining c < avail then fc_remaining c else avail)"
  define q where "q = (if available > wt_maxQuantity T (fp_options p)
    then wt_maxQuantity T (fp_options p) else available)"
  have avail: "unat avail = hi up - unat ?a"
    using chunk_available(2) [OF inside] by (simp add: avail_def)
  have qn: "unat q = min (unat (wt_maxQuantity T (fp_options p)))
      (min (unat (fc_remaining c)) (hi up - unat ?a))"
    unfolding q_def unat_min_word available_def avail [symmetric] ..
  have max: "0 < unat (wt_maxQuantity T (fp_options p))" using c(4) by (simp add: unat_gt_0)
  then have q: "0 < unat q" "unat q \<le> unat (fc_remaining c)"
    using qn rem inside(2) by auto
  then have q0: "q \<noteq> 0" by auto
  have down: "unat (ar_start down + (?a - ar_start up)) = lo down + (unat ?a - lo up)"
    using chunk_available(3) [OF inside] inside size by (simp add: width_simps)
  have load: "mem_load m (ptr_add (sv_values (iw_snapshot ?w)) (fc_sourceOffset c)) =
      Some (vs ! unat (fc_sourceOffset c))"
    using assms(4) c(2) rem unfolding snapshot_holds_def by (intro mem_load_sub) auto
  define r0 where "r0 = fragment_request T c seq i (er_endpointId route)
    (ar_start down + (?a - ar_start up)) q"
  have r0q: "pw_quantity r0 = q" by (simp add: r0_def fragment_request_def)
  from payload [OF load, of r0] obtain r where
    r: "wt_populatePayload T m (ptr_add (sv_values (iw_snapshot ?w)) (fc_sourceOffset c)) q r0 = Some r"
      "same_header r0 r"
      "carries r (ptr_add (sv_values (iw_snapshot ?w)) (fc_sourceOffset c))
         (vs ! unat (fc_sourceOffset c))"
    unfolding r0q by blast
  have rq: "pw_quantity r = q" using r(2) r0q by (simp add: same_header_def)
  have "planner_next T m p c seq = Some (Next_Planned, advance_cursor c q, r)"
    using c(1) assms(3,5) loc route q0 r(1)
    by (auto simp: planner_next_def Let_def r0_def q_def available_def avail_def)
  moreover have "fragment_ok T carries p ?w vs (unat (fc_sourceOffset c))
       (unat (fc_fragmentIndex c)) seq r"
  proof -
    have head: "ri_work (pw_identity r) = iw_identity ?w" "ri_requestSequence (pw_identity r) = seq"
      "ri_fragmentIndex (pw_identity r) = fc_fragmentIndex c" "pw_delivery r = iw_delivery ?w"
      "pw_table r = wt_table T" "pw_sourceOffset r = fc_sourceOffset c"
      "pw_upstreamStart r = ?a" "pw_routeIndex r = i" "pw_endpointId r = er_endpointId route"
      "pw_downstreamStart r = ar_start down + (?a - ar_start up)"
      "pw_finalFragment r = (fc_remaining c = q)"
      using r(2) by (simp_all add: same_header_def r0_def fragment_request_def)
    have "unat (fc_sourceOffset c) + unat q \<le> unat (iw_count ?w)"
      using c(2) q(2) by linarith
    moreover have "(fc_remaining c = q) = (unat (fc_sourceOffset c) + unat q = unat (iw_count ?w))"
      unfolding c(2) [symmetric] by (auto simp: unat_eq_iff)
    moreover have "unat ?a + unat q \<le> hi up" "unat q \<le> unat (wt_maxQuantity T (fp_options p))"
      using qn inside by linarith+
    moreover have "lo down + (unat ?a - lo up) + unat q \<le> hi down"
      using qn inside size by linarith
    ultimately show ?thesis
      unfolding fragment_ok_def Let_def head rq c(3) [symmetric] down
      using q(1) r(3) route inside(1) by simp
  qed
  ultimately show ?thesis using that rq q q0 by simp
qed

end

end
