(* ===== verification/Completion_Transition.thy ===== *)
theory Completion_Transition
  imports Cache_Image Forward_Plan
begin

text \<open>
  Model of \<open>CompletionTransition.h\<close>: terminal outcomes, the per-work completion aggregate,
  the decision for one completed request, and the applied-image transition.
\<close>

section \<open>Data\<close>

datatype DownstreamOutcome =
  Outcome_Applied | Outcome_DefinitelyNotSent | Outcome_SendUncertain
| Outcome_FailedAfterSend | OtherOutcome u8

fun isKnownDownstreamOutcome :: "DownstreamOutcome \<Rightarrow> bool" where
  "isKnownDownstreamOutcome Outcome_Applied = True"
| "isKnownDownstreamOutcome Outcome_DefinitelyNotSent = True"
| "isKnownDownstreamOutcome Outcome_SendUncertain = True"
| "isKnownDownstreamOutcome Outcome_FailedAfterSend = True"
| "isKnownDownstreamOutcome (OtherOutcome _) = False"

datatype AppliedImageAction = Applied_None | MarkAppliedRange

datatype DesiredImageDisposition = Desired_Unchanged | CallerPolicyRequired

datatype CompletionNotice = Notice_None | WorkSucceeded | WorkFailed

datatype CompletionDecisionStatus =
  Decision_Current | Decision_IdentityMismatch | Decision_StaleSession
| Decision_AggregateMismatch | Decision_OutOfOrder | Decision_AlreadyTerminal
| Decision_InvalidOutcome

record CompletionRecord =
  cr_identity :: RequestIdentity
  cr_outcome :: DownstreamOutcome

record CompletionAggregate =
  ca_work :: WorkIdentity
  ca_delivery :: IngressDelivery
  ca_nextFragmentIndex :: u16
  ca_failed :: bool
  ca_complete :: bool
  ca_noticeEmitted :: bool

definition newCompletionAggregate :: "WorkIdentity \<Rightarrow> IngressDelivery \<Rightarrow> CompletionAggregate" where
  "newCompletionAggregate work delivery =
     \<lparr>ca_work = work, ca_delivery = delivery, ca_nextFragmentIndex = 0, ca_failed = False,
      ca_complete = False, ca_noticeEmitted = False\<rparr>"

definition validAggregate :: "CompletionAggregate \<Rightarrow> bool" where
  "validAggregate a \<longleftrightarrow> validWork (ca_work a) \<and> isAccepted (ca_delivery a)"

record CompletionDecision =
  cd_status :: CompletionDecisionStatus
  cd_identity :: RequestIdentity
  cd_appliedAction :: AppliedImageAction
  cd_desiredDisposition :: DesiredImageDisposition
  cd_notice :: CompletionNotice

definition rejectedDecision :: "CompletionDecisionStatus \<Rightarrow> CompletionDecision" where
  "rejectedDecision status =
     \<lparr>cd_status = status, cd_identity = noRequestIdentity, cd_appliedAction = Applied_None,
      cd_desiredDisposition = Desired_Unchanged, cd_notice = Notice_None\<rparr>"

definition newCompletionDecision :: CompletionDecision where
  "newCompletionDecision = rejectedDecision Decision_AggregateMismatch"

definition decisionCurrent :: "CompletionDecision \<Rightarrow> bool" where
  "decisionCurrent d \<longleftrightarrow> cd_status d = Decision_Current"

section \<open>Resolving one completion\<close>

definition resolve_applied ::
  "PlannedWriteRequest \<Rightarrow> CompletionAggregate \<Rightarrow> CompletionDecision \<times> CompletionAggregate" where
  "resolve_applied expected a =
     (if pw_finalFragment expected
      then let notice = (if \<not> ca_failed a \<and> tracksPublicCompletion (pw_delivery expected) \<and>
                            \<not> ca_noticeEmitted a
                         then WorkSucceeded else Notice_None);
               a1 = a\<lparr>ca_complete := True\<rparr>;
               a2 = (if notice \<noteq> Notice_None then a1\<lparr>ca_noticeEmitted := True\<rparr> else a1)
           in (\<lparr>cd_status = Decision_Current, cd_identity = pw_identity expected,
                cd_appliedAction = MarkAppliedRange,
                cd_desiredDisposition = Desired_Unchanged, cd_notice = notice\<rparr>, a2)
      else if ca_nextFragmentIndex a = 0xFFFF
      then (rejectedDecision Decision_AggregateMismatch, a)
      else (\<lparr>cd_status = Decision_Current, cd_identity = pw_identity expected,
             cd_appliedAction = MarkAppliedRange,
             cd_desiredDisposition = Desired_Unchanged, cd_notice = Notice_None\<rparr>,
            a\<lparr>ca_nextFragmentIndex := ca_nextFragmentIndex a + 1\<rparr>))"

definition resolve_failed ::
  "PlannedWriteRequest \<Rightarrow> CompletionAggregate \<Rightarrow> CompletionDecision \<times> CompletionAggregate" where
  "resolve_failed expected a =
     (if \<not> pw_finalFragment expected \<and> ca_nextFragmentIndex a = 0xFFFF
      then (rejectedDecision Decision_AggregateMismatch, a)
      else let notice = (if tracksPublicCompletion (pw_delivery expected) \<and>
                            \<not> ca_noticeEmitted a
                         then WorkFailed else Notice_None);
               a1 = a\<lparr>ca_failed := True, ca_complete := pw_finalFragment expected\<rparr>;
               a2 = (if notice \<noteq> Notice_None then a1\<lparr>ca_noticeEmitted := True\<rparr> else a1);
               a3 = (if \<not> pw_finalFragment expected
                     then a2\<lparr>ca_nextFragmentIndex := ca_nextFragmentIndex a2 + 1\<rparr> else a2)
           in (\<lparr>cd_status = Decision_Current, cd_identity = pw_identity expected,
                cd_appliedAction = Applied_None,
                cd_desiredDisposition = CallerPolicyRequired, cd_notice = notice\<rparr>, a3))"

definition resolveCompletion ::
  "PlannedWriteRequest \<Rightarrow> CompletionRecord \<Rightarrow> SessionStateView \<Rightarrow> CompletionAggregate \<Rightarrow>
     CompletionDecision \<times> CompletionAggregate" where
  "resolveCompletion expected observed session a =
     (if \<not> validAggregate a \<or> \<not> validRequestIdentity (pw_identity expected) \<or>
         \<not> sameWorkIdentity (ri_work (pw_identity expected)) (ca_work a) \<or>
         pw_delivery expected \<noteq> ca_delivery a
      then (rejectedDecision Decision_AggregateMismatch, a)
      else if ca_complete a then (rejectedDecision Decision_AlreadyTerminal, a)
      else if \<not> isKnownDownstreamOutcome (cr_outcome observed)
      then (rejectedDecision Decision_InvalidOutcome, a)
      else if \<not> sameRequestIdentity (pw_identity expected) (cr_identity observed)
      then (rejectedDecision Decision_IdentityMismatch, a)
      else if \<not> workCurrent (ri_work (pw_identity expected)) session
      then (rejectedDecision Decision_StaleSession, a)
      else if ri_fragmentIndex (pw_identity expected) \<noteq> ca_nextFragmentIndex a
      then (rejectedDecision Decision_OutOfOrder, a)
      else if cr_outcome observed = Outcome_Applied then resolve_applied expected a
      else resolve_failed expected a)"

section \<open>The applied image\<close>

definition apply_coil_transition ::
  "bool mem \<Rightarrow> bool DesiredAppliedCache \<Rightarrow> PlannedWriteRequest \<Rightarrow> CompletionDecision \<Rightarrow>
     (bool \<times> bool mem) option" where
  "apply_coil_transition m cache request decision =
     (if \<not> decisionCurrent decision \<or>
         \<not> sameRequestIdentity (cd_identity decision) (pw_identity request)
      then Some (False, m)
      else if cd_appliedAction decision = Applied_None then Some (True, m)
      else if pw_table request \<noteq> Coils then Some (False, m)
      else markApplied m cache (pw_upstreamStart request) (pw_coilValues request)
             (pw_quantity request))"

definition apply_holding_transition ::
  "u16 mem \<Rightarrow> u16 DesiredAppliedCache \<Rightarrow> PlannedWriteRequest \<Rightarrow> CompletionDecision \<Rightarrow>
     (bool \<times> u16 mem) option" where
  "apply_holding_transition m cache request decision =
     (if \<not> decisionCurrent decision \<or>
         \<not> sameRequestIdentity (cd_identity decision) (pw_identity request)
      then Some (False, m)
      else if cd_appliedAction decision = Applied_None then Some (True, m)
      else if pw_table request \<noteq> HoldingRegisters then Some (False, m)
      else markApplied m cache (pw_upstreamStart request) (pw_holdingValues request)
             (pw_quantity request))"

section \<open>Lemmas on one resolution\<close>

lemma sameRequestIdentity_eq [simp]: "sameRequestIdentity a b \<longleftrightarrow> a = b"
  by (cases a; cases b) (simp add: sameRequestIdentity_def)

text \<open>Exactly when a completion is accepted.\<close>

definition resolve_guard ::
  "PlannedWriteRequest \<Rightarrow> CompletionRecord \<Rightarrow> SessionStateView \<Rightarrow> CompletionAggregate \<Rightarrow> bool" where
  "resolve_guard expected observed session a \<longleftrightarrow>
     isAccepted (ca_delivery a) \<and> validRequestIdentity (pw_identity expected) \<and>
     ri_work (pw_identity expected) = ca_work a \<and> pw_delivery expected = ca_delivery a \<and>
     \<not> ca_complete a \<and> isKnownDownstreamOutcome (cr_outcome observed) \<and>
     cr_identity observed = pw_identity expected \<and> workCurrent (ca_work a) session \<and>
     ri_fragmentIndex (pw_identity expected) = ca_nextFragmentIndex a \<and>
     (pw_finalFragment expected \<or> ca_nextFragmentIndex a \<noteq> 0xFFFF)"

definition tracked_notice :: "bool \<Rightarrow> CompletionAggregate \<Rightarrow> CompletionNotice \<Rightarrow> CompletionNotice" where
  "tracked_notice fires a notice =
     (if fires \<and> tracksPublicCompletion (ca_delivery a) \<and> \<not> ca_noticeEmitted a
      then notice else Notice_None)"

text \<open>The decision and the aggregate of an accepted completion, written out.\<close>

lemma resolve_accepted:
  assumes "resolve_guard e r s a"
  defines "applied \<equiv> cr_outcome r = Outcome_Applied"
  defines "notice \<equiv> (if applied then tracked_notice (pw_finalFragment e \<and> \<not> ca_failed a) a WorkSucceeded
                     else tracked_notice True a WorkFailed)"
  shows "resolveCompletion e r s a =
    (\<lparr>cd_status = Decision_Current, cd_identity = pw_identity e,
      cd_appliedAction = (if applied then MarkAppliedRange else Applied_None),
      cd_desiredDisposition = (if applied then Desired_Unchanged else CallerPolicyRequired),
      cd_notice = notice\<rparr>,
     a\<lparr>ca_nextFragmentIndex := (if pw_finalFragment e then ca_nextFragmentIndex a
                                 else ca_nextFragmentIndex a + 1),
       ca_failed := ca_failed a \<or> \<not> applied, ca_complete := pw_finalFragment e,
       ca_noticeEmitted := ca_noticeEmitted a \<or> notice \<noteq> Notice_None\<rparr>)"
  using assms(1)
  by (cases a)
    (auto simp: resolveCompletion_def resolve_guard_def validAggregate_def resolve_applied_def
      resolve_failed_def tracked_notice_def applied_def notice_def Let_def validRequestIdentity_def)

lemma resolve_rejected:
  assumes "\<not> resolve_guard e r s a"
  shows "\<exists>status. status \<noteq> Decision_Current \<and> resolveCompletion e r s a = (rejectedDecision status, a)"
proof -
  let ?mismatch = "\<not> validAggregate a \<or> \<not> validRequestIdentity (pw_identity e) \<or>
    \<not> sameWorkIdentity (ri_work (pw_identity e)) (ca_work a) \<or> pw_delivery e \<noteq> ca_delivery a"
  let ?known = "isKnownDownstreamOutcome (cr_outcome r)"
  let ?same = "sameRequestIdentity (pw_identity e) (cr_identity r)"
  let ?current = "workCurrent (ri_work (pw_identity e)) s"
  let ?next = "ri_fragmentIndex (pw_identity e) = ca_nextFragmentIndex a"
  have rej: "\<exists>status. status \<noteq> Decision_Current \<and> x = (rejectedDecision status, a)"
    if "x = (rejectedDecision status, a)" "status \<noteq> Decision_Current" for x status
    using that by blast
  have "?mismatch \<or> ca_complete a \<or> \<not> ?known \<or> \<not> ?same \<or> \<not> ?current \<or> \<not> ?next \<or>
      \<not> pw_finalFragment e \<and> ca_nextFragmentIndex a = 0xFFFF"
    using assms by (simp add: resolve_guard_def validAggregate_def) metis
  then consider
      (mismatch) ?mismatch
    | (terminal) "\<not> ?mismatch" "ca_complete a"
    | (unknown) "\<not> ?mismatch" "\<not> ca_complete a" "\<not> ?known"
    | (identity) "\<not> ?mismatch" "\<not> ca_complete a" ?known "\<not> ?same"
    | (stale) "\<not> ?mismatch" "\<not> ca_complete a" ?known ?same "\<not> ?current"
    | (order) "\<not> ?mismatch" "\<not> ca_complete a" ?known ?same ?current "\<not> ?next"
    | (overflow) "\<not> ?mismatch" "\<not> ca_complete a" ?known ?same ?current ?next
        "\<not> pw_finalFragment e" "ca_nextFragmentIndex a = 0xFFFF"
    by argo
  then show ?thesis
  proof cases
    case mismatch
    then have "resolveCompletion e r s a = (rejectedDecision Decision_AggregateMismatch, a)"
      unfolding resolveCompletion_def by (rule if_P)
    then show ?thesis by (rule rej) simp
  next
    case overflow
    show ?thesis
      unfolding resolveCompletion_def if_not_P [OF overflow(1)] resolve_applied_def resolve_failed_def
      by (rule rej [of _ Decision_AggregateMismatch]) (use overflow(2-) in simp_all)
  qed (unfold resolveCompletion_def, simp_all only: if_True if_False not_True_eq_False
      not_False_eq_True, (rule rej, rule refl, simp)+)
qed

lemma decisionCurrent_rejected [simp]:
  "decisionCurrent (rejectedDecision s) \<longleftrightarrow> s = Decision_Current"
  by (simp add: decisionCurrent_def rejectedDecision_def)

lemma decisionCurrent_guard:
  "decisionCurrent (fst (resolveCompletion e r s a)) \<longleftrightarrow> resolve_guard e r s a"
  using resolve_accepted [of e r s a] resolve_rejected [of e r s a]
  by (cases "resolve_guard e r s a") (auto simp: decisionCurrent_def rejectedDecision_def)

section \<open>Sequences of completions\<close>

text \<open>Any sequence of completions, in any order and with any duplicates, against one work.\<close>

fun resolve_all ::
  "(PlannedWriteRequest \<times> CompletionRecord \<times> SessionStateView) list \<Rightarrow> CompletionAggregate \<Rightarrow>
     CompletionDecision list \<times> CompletionAggregate" where
  "resolve_all [] a = ([], a)"
| "resolve_all ((e, r, s) # events) a =
     (let (d, a') = resolveCompletion e r s a; (ds, a'') = resolve_all events a'
      in (d # ds, a''))"

definition notices :: "CompletionDecision list \<Rightarrow> CompletionNotice list" where
  "notices ds = filter (\<lambda>n. n \<noteq> Notice_None) (map cd_notice ds)"

definition accepted_fragments :: "CompletionDecision list \<Rightarrow> nat list" where
  "accepted_fragments ds =
     map (\<lambda>d. unat (ri_fragmentIndex (cd_identity d))) (filter decisionCurrent ds)"

definition aggregate_inv :: "CompletionAggregate \<Rightarrow> bool" where
  "aggregate_inv a \<longleftrightarrow>
     (ca_noticeEmitted a \<longleftrightarrow>
        tracksPublicCompletion (ca_delivery a) \<and> (ca_failed a \<or> ca_complete a))"

lemma aggregate_inv_new: "aggregate_inv (newCompletionAggregate work delivery)"
  by (simp add: aggregate_inv_def newCompletionAggregate_def)

lemma aggregate_inv_resolve:
  assumes "aggregate_inv a"
  shows "aggregate_inv (snd (resolveCompletion e r s a))"
proof (cases "resolve_guard e r s a")
  case True
  then have "\<not> ca_complete a" by (simp add: resolve_guard_def)
  with assms resolve_accepted [OF True] show ?thesis
    by (auto simp: aggregate_inv_def tracked_notice_def)
next
  case False
  with assms resolve_rejected [OF False] show ?thesis by auto
qed

lemma notices_rejected [simp]: "notices (rejectedDecision s # ds) = notices ds"
  by (simp add: notices_def rejectedDecision_def)

lemma resolve_all_notices:
  assumes "aggregate_inv a" "resolve_all events a = (ds, a')"
  shows "aggregate_inv a' \<and> ca_delivery a' = ca_delivery a \<and>
    notices ds =
      (if ca_noticeEmitted a' \<and> \<not> ca_noticeEmitted a
       then [if ca_failed a' then WorkFailed else WorkSucceeded] else []) \<and>
    (ca_failed a \<longrightarrow> ca_failed a') \<and> (ca_noticeEmitted a \<longrightarrow> ca_noticeEmitted a') \<and>
    (ca_complete a \<longrightarrow> a' = a)"
  using assms
proof (induction events arbitrary: a ds)
  case Nil
  then show ?case by (auto simp: notices_def)
next
  case (Cons ev events)
  obtain e r s where ev: "ev = (e, r, s)" by (cases ev) auto
  obtain d a1 where step: "resolveCompletion e r s a = (d, a1)" by fastforce
  then obtain ds1 where rest: "resolve_all events a1 = (ds1, a')" "ds = d # ds1"
    using Cons.prems(2) by (auto simp: ev split: prod.splits)
  have inv1: "aggregate_inv a1"
    using aggregate_inv_resolve [OF Cons.prems(1), of e r s] step by simp
  note IH = Cons.IH [OF inv1 rest(1)]
  show ?case
  proof (cases "resolve_guard e r s a")
    case True
    then have open_a: "\<not> ca_complete a" by (simp add: resolve_guard_def)
    have emitted: "ca_noticeEmitted a1 = (ca_noticeEmitted a \<or> cd_notice d \<noteq> Notice_None)"
      and same: "ca_delivery a1 = ca_delivery a" "ca_failed a \<Longrightarrow> ca_failed a1"
      using step resolve_accepted [OF True] by auto
    have fired: "\<not> ca_noticeEmitted a \<and> (ca_failed a1 \<or> ca_complete a1) \<and>
        cd_notice d = (if ca_failed a1 then WorkFailed else WorkSucceeded)"
      if "cd_notice d \<noteq> Notice_None"
      using that step resolve_accepted [OF True] by (auto simp: tracked_notice_def split: if_splits)
    show ?thesis
    proof (cases "cd_notice d = Notice_None")
      case True
      then have "notices ds = notices ds1" using rest(2) by (simp add: notices_def)
      with True IH emitted same open_a show ?thesis by auto
    next
      case False
      then have "notices ds = cd_notice d # notices ds1" using rest(2) by (simp add: notices_def)
      with False fired IH emitted same open_a show ?thesis by auto
    qed
  next
    case False
    with resolve_rejected [OF False] step IH rest(2) show ?thesis by auto
  qed
qed

lemma resolve_all_order:
  assumes "resolve_all events a = (ds, a')"
  shows "\<exists>n. accepted_fragments ds =
      [unat (ca_nextFragmentIndex a)..<unat (ca_nextFragmentIndex a) + n] \<and>
    (ca_complete a \<longrightarrow> n = 0)"
  using assms
proof (induction events arbitrary: a ds)
  case Nil
  then show ?case by (auto simp: accepted_fragments_def intro: exI [of _ 0])
next
  case (Cons ev events)
  obtain e r s where ev: "ev = (e, r, s)" by (cases ev) auto
  obtain d a1 where step: "resolveCompletion e r s a = (d, a1)" by fastforce
  then obtain ds1 where rest: "resolve_all events a1 = (ds1, a')" "ds = d # ds1"
    using Cons.prems by (auto simp: ev split: prod.splits)
  from Cons.IH [OF rest(1)] obtain n where
    n: "accepted_fragments ds1 =
        [unat (ca_nextFragmentIndex a1)..<unat (ca_nextFragmentIndex a1) + n]"
      "ca_complete a1 \<Longrightarrow> n = 0" by auto
  let ?i = "unat (ca_nextFragmentIndex a)"
  show ?case
  proof (cases "resolve_guard e r s a")
    case False
    with resolve_rejected [OF False] step n rest(2) show ?thesis
      by (auto simp: accepted_fragments_def)
  next
    case True
    with step resolve_accepted [OF True]
    have d: "decisionCurrent d" "unat (ri_fragmentIndex (cd_identity d)) = ?i"
      and a1: "ca_complete a1 = pw_finalFragment e"
        "ca_nextFragmentIndex a1 = (if pw_finalFragment e then ca_nextFragmentIndex a
                                    else ca_nextFragmentIndex a + 1)"
      by (auto simp: decisionCurrent_def resolve_guard_def)
    have ds: "accepted_fragments ds = ?i # accepted_fragments ds1"
      using d rest(2) by (simp add: accepted_fragments_def)
    have open_a: "\<not> ca_complete a" using True by (simp add: resolve_guard_def)
    show ?thesis
    proof (cases "pw_finalFragment e")
      case final: True
      with n a1 ds open_a show ?thesis by (intro exI [of _ 1]) simp
    next
      case False
      then have "ca_nextFragmentIndex a \<noteq> 0xFFFF" using True by (simp add: resolve_guard_def)
      then have "?i \<noteq> 65535" by (simp add: unat_eq_iff)
      then have "Suc ?i < 65536" using unat_u16_bound [of "ca_nextFragmentIndex a"]
        by (simp del: unat_u16_bound)
      then have "unat (ca_nextFragmentIndex a1) = Suc ?i"
        using a1 False by (simp add: width_simps)
      with n ds open_a show ?thesis by (intro exI [of _ "Suc n"]) (simp add: upt_conv_Cons)
    qed
  qed
qed

section \<open>Properties\<close>

text \<open>
  C28. A completion is accepted exactly when it is for the aggregate's work and delivery, its
  identity repeats the planned one, the work is still current and open, the outcome is a
  known one, and the fragment is the next one. Everything else changes neither the aggregate
  nor the images, and reports no notice.
\<close>

theorem resolve_accepts_exactly:
  "(let (d, a') = resolveCompletion expected observed session a in
    if resolve_guard expected observed session a
    then decisionCurrent d \<and> cd_identity d = pw_identity expected \<and>
         (cd_appliedAction d = MarkAppliedRange \<longleftrightarrow> cr_outcome observed = Outcome_Applied) \<and>
         (cd_desiredDisposition d = CallerPolicyRequired \<longleftrightarrow> cr_outcome observed \<noteq> Outcome_Applied) \<and>
         ca_complete a' = pw_finalFragment expected \<and>
         (\<not> ca_failed a' \<longleftrightarrow> \<not> ca_failed a \<and> cr_outcome observed = Outcome_Applied)
    else a' = a \<and> \<not> decisionCurrent d \<and> d = rejectedDecision (cd_status d))"
proof (cases "resolve_guard expected observed session a")
  case True
  then show ?thesis
    by (simp add: resolve_accepted [OF True] decisionCurrent_def)
next
  case False
  with resolve_rejected [OF False] show ?thesis
    by (auto simp: rejectedDecision_def decisionCurrent_def)
qed

text \<open>
  C29. Whatever completions arrive for a fresh work, in whatever order and however often, the
  accepted fragments are 0, 1, 2 and so on in this order, and the notices are: none before
  the work failed or completed or when its delivery is not tracked, and otherwise exactly
  one, a failure if any accepted fragment failed and a success only if none did.
\<close>

theorem one_notice_in_order:
  assumes "resolve_all events (newCompletionAggregate work delivery) = (ds, a')"
  shows "notices ds =
      (if tracksPublicCompletion delivery \<and> (ca_failed a' \<or> ca_complete a')
       then [if ca_failed a' then WorkFailed else WorkSucceeded] else []) \<and>
    (\<exists>n. accepted_fragments ds = [0..<n])"
  using resolve_all_notices [OF aggregate_inv_new assms] resolve_all_order [OF assms]
  by (auto simp: newCompletionAggregate_def aggregate_inv_def)

definition example_request :: "u16 \<Rightarrow> bool \<Rightarrow> PlannedWriteRequest" where
  "example_request index final = newPlannedWriteRequest
     \<lparr>pw_identity := \<lparr>ri_work = \<lparr>wi_sourceToken = 7, wi_sessionGeneration = 3\<rparr>,
        ri_requestSequence = 5, ri_fragmentIndex = index\<rparr>,
      pw_delivery := Tracked, pw_table := HoldingRegisters, pw_quantity := 2,
      pw_upstreamStart := 1, pw_holdingValues := Ptr 2 0, pw_finalFragment := final\<rparr>"

definition current_session :: SessionStateView where
  "current_session = \<lparr>ss_active = True, ss_currentGeneration = 3, ss_appliedGeneration = 3,
     ss_phase = Ready\<rparr>"

definition example_event ::
  "u16 \<Rightarrow> bool \<Rightarrow> DownstreamOutcome \<Rightarrow> PlannedWriteRequest \<times> CompletionRecord \<times> SessionStateView" where
  "example_event index final outcome = (example_request index final,
     \<lparr>cr_identity = pw_identity (example_request index final), cr_outcome = outcome\<rparr>,
     current_session)"

lemma one_notice_in_order_witness:
  "\<exists>ds a'. resolve_all [example_event 0 False Outcome_Applied, example_event 0 False Outcome_Applied,
       example_event 1 True Outcome_SendUncertain]
     (newCompletionAggregate \<lparr>wi_sourceToken = 7, wi_sessionGeneration = 3\<rparr> Tracked) = (ds, a') \<and>
     notices ds = [WorkFailed]"
proof -
  obtain ds a' where run: "resolve_all [example_event 0 False Outcome_Applied,
       example_event 0 False Outcome_Applied, example_event 1 True Outcome_SendUncertain]
     (newCompletionAggregate \<lparr>wi_sourceToken = 7, wi_sessionGeneration = 3\<rparr> Tracked) = (ds, a')"
    by fastforce
  moreover have "ca_failed (snd (resolve_all [example_event 0 False Outcome_Applied,
       example_event 0 False Outcome_Applied, example_event 1 True Outcome_SendUncertain]
     (newCompletionAggregate \<lparr>wi_sourceToken = 7, wi_sessionGeneration = 3\<rparr> Tracked)))"
    by code_simp
  ultimately show ?thesis
    using one_notice_in_order [OF run] by (auto simp: tracksPublicCompletion_def)
qed

text \<open>
  C30. The applied image records confirmed writes only: applying the decision for an accepted
  completion of a holding request succeeds, overwrites the request's range of the applied
  image by the transferred values when the outcome is \<open>Applied\<close>, leaves the applied image as
  it was for every failure outcome, and never touches a memory range apart from it.
\<close>

theorem applied_image_follows_outcome:
  assumes "resolve_guard r observed session a"
    and "pw_table r = HoldingRegisters"
    and "mem_read m (im_values (dc_applied c)) (unat (im_count (dc_applied c))) = Some applied"
    and "mem_read m (pw_holdingValues r) (unat (pw_quantity r)) = Some vs"
    and "image_contains (dc_applied c) (pw_upstreamStart r) (pw_quantity r)"
    and "separate (im_values (dc_applied c)) (unat (im_count (dc_applied c)))
      (pw_holdingValues r) (unat (pw_quantity r))"
  shows "\<exists>m'. apply_holding_transition m c r (fst (resolveCompletion r observed session a)) =
      Some (True, m') \<and>
    mem_read m' (im_values (dc_applied c)) (unat (im_count (dc_applied c))) =
      Some (if cr_outcome observed = Outcome_Applied
            then overwrite (unat (pw_upstreamStart r)) vs applied else applied) \<and>
    (\<forall>q j. separate (im_values (dc_applied c)) (unat (im_count (dc_applied c))) q j \<longrightarrow>
       mem_read m' q j = mem_read m q j)"
proof (cases "cr_outcome observed = Outcome_Applied")
  case False
  with assms(3) show ?thesis
    by (simp add: resolve_accepted [OF assms(1)] apply_holding_transition_def decisionCurrent_def)
next
  case True
  have rng: "unat (pw_upstreamStart r) + unat (pw_quantity r) \<le> unat (im_count (dc_applied c))"
    using assms(5) by (simp add: image_contains_iff)
  have "separate (ptr_add (im_values (dc_applied c)) (pw_upstreamStart r)) (unat (pw_quantity r))
      (pw_holdingValues r) (unat (pw_quantity r))"
    using assms(6) rng by (rule separate_sub)
  then obtain m' where m': "copyFrom m (dc_applied c) (pw_upstreamStart r) (pw_holdingValues r)
        (pw_quantity r) = Some (True, m')"
      "mem_write m (ptr_add (im_values (dc_applied c)) (pw_upstreamStart r)) vs = Some m'"
      "mem_read m' (im_values (dc_applied c)) (unat (im_count (dc_applied c))) =
         Some (overwrite (unat (pw_upstreamStart r)) vs applied)"
    using copyFrom_accepts [OF assms(3-5)] by blast
  moreover have "mem_read m' q j = mem_read m q j"
    if "separate (im_values (dc_applied c)) (unat (im_count (dc_applied c))) q j" for q j
    using mem_write_frame [OF m'(2)] separate_sub [OF that rng] mem_read_length [OF assms(4)]
    by simp
  ultimately show ?thesis
    using True assms(2)
    by (simp add: resolve_accepted [OF assms(1)] apply_holding_transition_def decisionCurrent_def
        markApplied_def)
qed

lemma applied_image_follows_outcome_witness:
  "\<exists>m'. apply_holding_transition [1 \<mapsto> [4, 5, 6, 7], 2 \<mapsto> [8, 9]]
      \<lparr>dc_visible = \<lparr>im_values = Null, im_count = 0\<rparr>,
       dc_applied = \<lparr>im_values = Ptr 1 0, im_count = 4\<rparr>\<rparr> (example_request 0 True)
      (fst (resolveCompletion (example_request 0 True)
        \<lparr>cr_identity = pw_identity (example_request 0 True), cr_outcome = Outcome_Applied\<rparr>
        current_session
        (newCompletionAggregate \<lparr>wi_sourceToken = 7, wi_sessionGeneration = 3\<rparr> Tracked))) =
      Some (True, m') \<and> mem_read m' (Ptr 1 0) 4 = Some [4, 8, 9, 7]"
proof -
  have guard: "resolve_guard (example_request 0 True)
      \<lparr>cr_identity = pw_identity (example_request 0 True), cr_outcome = Outcome_Applied\<rparr>
      current_session
      (newCompletionAggregate \<lparr>wi_sourceToken = 7, wi_sessionGeneration = 3\<rparr> Tracked)"
    by code_simp
  show ?thesis
    using applied_image_follows_outcome [OF guard, where m = "[1 \<mapsto> [4, 5, 6, 7], 2 \<mapsto> [8, 9]]"
        and c = "\<lparr>dc_visible = \<lparr>im_values = Null, im_count = 0\<rparr>,
          dc_applied = \<lparr>im_values = Ptr 1 0, im_count = 4\<rparr>\<rparr>"
        and applied = "[4, 5, 6, 7]" and vs = "[8, 9]"]
    by (auto simp: example_request_def newPlannedWriteRequest_def image_contains_iff overwrite_def)
qed

end
