(* ===== verification/Completion_Ledger.thy ===== *)
theory Completion_Ledger
  imports Completion_Transition
begin

text \<open>
  Model of \<open>CompletionLedger.h\<close>: the bounded ledger of logical works, each in a slot with
  its completion aggregate and at most one outstanding request. The slots are a caller's
  array: \<open>None\<close> for a null pointer, otherwise the list of its elements. A slot access
  outside of the array is undefined (\<open>None\<close>). The pointers \<open>find\<close> and \<open>firstFree\<close>
  return are slot indices.
\<close>

section \<open>Outcomes and slots\<close>

datatype WorkCompletionOutcome =
  Work_Pending | Work_Applied | Work_DefinitelyNotSent | Work_UncertainSend
| Work_TerminalFailure

fun workOutcomeFor :: "DownstreamOutcome \<Rightarrow> WorkCompletionOutcome" where
  "workOutcomeFor Outcome_Applied = Work_Applied"
| "workOutcomeFor Outcome_DefinitelyNotSent = Work_DefinitelyNotSent"
| "workOutcomeFor Outcome_SendUncertain = Work_UncertainSend"
| "workOutcomeFor Outcome_FailedAfterSend = Work_TerminalFailure"
| "workOutcomeFor (OtherOutcome _) = Work_TerminalFailure"

definition combineWorkOutcomes ::
  "WorkCompletionOutcome \<Rightarrow> DownstreamOutcome \<Rightarrow> WorkCompletionOutcome" where
  "combineWorkOutcomes current observed =
     (let nxt = workOutcomeFor observed in
      if current = Work_Pending \<or> current = Work_Applied then nxt
      else if nxt = Work_TerminalFailure \<or> current = Work_TerminalFailure
      then Work_TerminalFailure
      else if nxt = Work_UncertainSend \<or> current = Work_UncertainSend
      then Work_UncertainSend
      else Work_DefinitelyNotSent)"

record WorkCompletionSummary =
  ws_work :: WorkIdentity
  ws_outcome :: WorkCompletionOutcome
  ws_outstandingRequests :: u16
  ws_settled :: bool
  ws_drained :: bool

definition newWorkCompletionSummary :: WorkCompletionSummary where
  "newWorkCompletionSummary = \<lparr>ws_work = noWork, ws_outcome = Work_Pending,
     ws_outstandingRequests = 0, ws_settled = False, ws_drained = False\<rparr>"

record CompletionLedgerSlot =
  ls_aggregate :: CompletionAggregate
  ls_issuedRequest :: PlannedWriteRequest
  ls_observedOutcome :: WorkCompletionOutcome
  ls_nextIssuedFragment :: u16
  ls_outstandingRequests :: u16
  ls_occupied :: bool
  ls_planningClosed :: bool

definition newLedgerSlot :: CompletionLedgerSlot where
  "newLedgerSlot =
     \<lparr>ls_aggregate = newCompletionAggregate noWork Rejected,
      ls_issuedRequest = newPlannedWriteRequest, ls_observedOutcome = Work_Pending,
      ls_nextIssuedFragment = 0, ls_outstandingRequests = 0, ls_occupied = False,
      ls_planningClosed = False\<rparr>"

datatype LedgerReserveStatus =
  Reserve_Reserved | Reserve_InvalidStorage | Reserve_InvalidWork | Reserve_DuplicateWork
| Reserve_Full

datatype LedgerIssueStatus =
  Issue_Recorded | Issue_WorkNotFound | Issue_InvalidRequest | Issue_OutOfOrder
| Issue_PlanningClosed | Issue_OutstandingRequestExists | Issue_FragmentIndexOverflow

datatype LedgerResolveStatus =
  Resolve_Resolved | Resolve_WorkNotFound | Resolve_InvalidOutcome
| Resolve_NoOutstandingRequest | Resolve_RequestMismatch | Resolve_CompletionRejected

datatype LedgerReleaseStatus = Release_Released | Release_WorkNotFound | Release_StillActive

record LedgerResolution =
  lr_status :: LedgerResolveStatus
  lr_decision :: CompletionDecision
  lr_summary :: WorkCompletionSummary

definition newLedgerResolution :: LedgerResolution where
  "newLedgerResolution = \<lparr>lr_status = Resolve_WorkNotFound,
     lr_decision = newCompletionDecision, lr_summary = newWorkCompletionSummary\<rparr>"

definition summarize :: "CompletionLedgerSlot \<Rightarrow> WorkCompletionSummary" where
  "summarize slot =
     (let drained = (ls_planningClosed slot \<and> ls_outstandingRequests slot = 0);
          failed = (ls_observedOutcome slot \<noteq> Work_Pending \<and>
                    ls_observedOutcome slot \<noteq> Work_Applied);
          settled = (failed \<or> drained)
      in \<lparr>ws_work = ca_work (ls_aggregate slot),
          ws_outcome = (if settled then ls_observedOutcome slot else Work_Pending),
          ws_outstandingRequests = ls_outstandingRequests slot,
          ws_settled = settled, ws_drained = drained\<rparr>)"

section \<open>The ledger and its slot lookup\<close>

record CompletionLedger =
  cl_slots :: "CompletionLedgerSlot list option"
  cl_capacity :: u16
  cl_size :: u16

definition cl_validStorage :: "CompletionLedger \<Rightarrow> bool" where
  "cl_validStorage l \<longleftrightarrow> cl_capacity l = 0 \<or> cl_slots l \<noteq> None"

definition slot_at :: "CompletionLedger \<Rightarrow> nat \<Rightarrow> CompletionLedgerSlot option" where
  "slot_at l i =
     (case cl_slots l of
        None \<Rightarrow> None
      | Some xs \<Rightarrow> if i < length xs then Some (xs ! i) else None)"

definition put_slot ::
  "CompletionLedger \<Rightarrow> nat \<Rightarrow> CompletionLedgerSlot \<Rightarrow> CompletionLedger option" where
  "put_slot l i slot =
     (case cl_slots l of
        None \<Rightarrow> None
      | Some xs \<Rightarrow>
          if i < length xs then Some (l\<lparr>cl_slots := Some (xs[i := slot])\<rparr>) else None)"

text \<open>The search loop that \<open>firstFree\<close> and both overloads of \<open>find\<close> share in shape.\<close>

function scan_slots ::
  "(CompletionLedgerSlot \<Rightarrow> bool) \<Rightarrow> CompletionLedger \<Rightarrow> nat \<Rightarrow> nat option option" where
  "scan_slots P l i =
     (if i < unat (cl_capacity l) then do {
        slot \<leftarrow> slot_at l i;
        if P slot then Some (Some i) else scan_slots P l (Suc i)
      } else Some None)"
  by pat_completeness auto
termination
  by (relation "measure (\<lambda>(P, l, i). unat (cl_capacity l) - i)") auto

declare scan_slots.simps [simp del]

definition firstFree :: "CompletionLedger \<Rightarrow> nat option option" where
  "firstFree l =
     (if cl_slots l = None then Some None
      else scan_slots (\<lambda>slot. \<not> ls_occupied slot) l 0)"

definition find_slot :: "CompletionLedger \<Rightarrow> WorkIdentity \<Rightarrow> nat option option" where
  "find_slot l work =
     (if cl_slots l = None \<or> \<not> validWork work then Some None
      else scan_slots (\<lambda>slot. ls_occupied slot \<and>
             sameWorkIdentity (ca_work (ls_aggregate slot)) work) l 0)"

definition releaseSlot :: "CompletionLedger \<Rightarrow> nat \<Rightarrow> CompletionLedger option" where
  "releaseSlot l i = do {
     l' \<leftarrow> put_slot l i newLedgerSlot;
     Some (l'\<lparr>cl_size := cl_size l' - 1\<rparr>) }"

section \<open>Operations\<close>

function clear_slots :: "CompletionLedger \<Rightarrow> nat \<Rightarrow> nat \<Rightarrow> CompletionLedger option" where
  "clear_slots l n i =
     (if i < n then
        (case put_slot l i newLedgerSlot of
           None \<Rightarrow> None
         | Some l' \<Rightarrow> clear_slots l' n (Suc i))
      else Some l)"
  by pat_completeness auto
termination
  by (relation "measure (\<lambda>(l, n, i). n - i)") auto

declare clear_slots.simps [simp del]

definition cl_clear :: "CompletionLedger \<Rightarrow> CompletionLedger option" where
  "cl_clear l =
     (let l0 = l\<lparr>cl_size := 0\<rparr> in
      if cl_slots l0 = None then Some l0 else clear_slots l0 (unat (cl_capacity l0)) 0)"

definition newCompletionLedger ::
  "CompletionLedgerSlot list option \<Rightarrow> u16 \<Rightarrow> CompletionLedger option" where
  "newCompletionLedger slots capacity =
     cl_clear \<lparr>cl_slots = slots, cl_capacity = capacity, cl_size = 0\<rparr>"

definition cl_empty :: "CompletionLedger \<Rightarrow> bool" where
  "cl_empty l \<longleftrightarrow> cl_size l = 0"

definition cl_full :: "CompletionLedger \<Rightarrow> bool" where
  "cl_full l \<longleftrightarrow> cl_size l = cl_capacity l"

definition reserve ::
  "CompletionLedger \<Rightarrow> WorkIdentity \<Rightarrow> IngressDelivery \<Rightarrow>
     (LedgerReserveStatus \<times> CompletionLedger) option" where
  "reserve l work delivery =
     (if \<not> cl_validStorage l then Some (Reserve_InvalidStorage, l)
      else if \<not> validWork work \<or> \<not> isAccepted delivery then Some (Reserve_InvalidWork, l)
      else do {
        existing \<leftarrow> find_slot l work;
        if existing \<noteq> None then Some (Reserve_DuplicateWork, l)
        else do {
          free \<leftarrow> firstFree l;
          (case free of
             None \<Rightarrow> Some (Reserve_Full, l)
           | Some i \<Rightarrow> do {
               l' \<leftarrow> put_slot l i (newLedgerSlot
                        \<lparr>ls_aggregate := newCompletionAggregate work delivery,
                         ls_occupied := True\<rparr>);
               Some (Reserve_Reserved, l'\<lparr>cl_size := cl_size l' + 1\<rparr>) }) } })"

definition recordIssued ::
  "CompletionLedger \<Rightarrow> PlannedWriteRequest \<Rightarrow> (LedgerIssueStatus \<times> CompletionLedger) option" where
  "recordIssued l request =
     (if \<not> validRequestIdentity (pw_identity request) \<or> \<not> isAccepted (pw_delivery request)
      then Some (Issue_InvalidRequest, l)
      else do {
        found \<leftarrow> find_slot l (ri_work (pw_identity request));
        (case found of
           None \<Rightarrow> Some (Issue_WorkNotFound, l)
         | Some i \<Rightarrow> do {
             slot \<leftarrow> slot_at l i;
             if ls_planningClosed slot then Some (Issue_PlanningClosed, l)
             else if ls_outstandingRequests slot \<noteq> 0
             then Some (Issue_OutstandingRequestExists, l)
             else if pw_delivery request \<noteq> ca_delivery (ls_aggregate slot) \<or>
                     ri_fragmentIndex (pw_identity request) \<noteq> ls_nextIssuedFragment slot
             then Some (Issue_OutOfOrder, l)
             else if ls_nextIssuedFragment slot = 0xFFFF \<and> \<not> pw_finalFragment request
             then Some (Issue_FragmentIndexOverflow, l)
             else do {
               let slot1 = slot\<lparr>ls_issuedRequest := request, ls_outstandingRequests := 1\<rparr>;
               let slot2 = (if pw_finalFragment request
                            then slot1\<lparr>ls_planningClosed := True\<rparr>
                            else slot1\<lparr>ls_nextIssuedFragment := ls_nextIssuedFragment slot1 + 1\<rparr>);
               l' \<leftarrow> put_slot l i slot2;
               Some (Issue_Recorded, l') } }) })"

definition closePlanningAfterFailure ::
  "CompletionLedger \<Rightarrow> WorkIdentity \<Rightarrow> (bool \<times> CompletionLedger) option" where
  "closePlanningAfterFailure l work = do {
     found \<leftarrow> find_slot l work;
     (case found of
        None \<Rightarrow> Some (False, l)
      | Some i \<Rightarrow> do {
          slot \<leftarrow> slot_at l i;
          if ls_observedOutcome slot = Work_Pending \<or> ls_observedOutcome slot = Work_Applied
          then Some (False, l)
          else do { l' \<leftarrow> put_slot l i (slot\<lparr>ls_planningClosed := True\<rparr>); Some (True, l') } }) }"

definition ledger_resolve ::
  "CompletionLedger \<Rightarrow> PlannedWriteRequest \<Rightarrow> CompletionRecord \<Rightarrow> SessionStateView \<Rightarrow>
     (LedgerResolution \<times> CompletionLedger) option" where
  "ledger_resolve l expected observed session = do {
     found \<leftarrow> find_slot l (ri_work (pw_identity expected));
     (case found of
        None \<Rightarrow> Some (newLedgerResolution, l)
      | Some i \<Rightarrow> do {
          slot \<leftarrow> slot_at l i;
          if \<not> isKnownDownstreamOutcome (cr_outcome observed)
          then Some (newLedgerResolution\<lparr>lr_status := Resolve_InvalidOutcome,
                       lr_summary := summarize slot\<rparr>, l)
          else if ls_outstandingRequests slot = 0
          then Some (newLedgerResolution\<lparr>lr_status := Resolve_NoOutstandingRequest,
                       lr_summary := summarize slot\<rparr>, l)
          else if \<not> samePlannedWriteRequest (ls_issuedRequest slot) expected
          then Some (newLedgerResolution\<lparr>lr_status := Resolve_RequestMismatch,
                       lr_summary := summarize slot\<rparr>, l)
          else do {
            let (decision, aggregate) =
              resolveCompletion (ls_issuedRequest slot) observed session (ls_aggregate slot);
            let slot1 = slot\<lparr>ls_aggregate := aggregate\<rparr>;
            if \<not> decisionCurrent decision
            then do {
              l' \<leftarrow> put_slot l i slot1;
              Some (\<lparr>lr_status = Resolve_CompletionRejected, lr_decision = decision,
                     lr_summary = summarize slot1\<rparr>, l') }
            else do {
              let slot2 = slot1\<lparr>ls_observedOutcome :=
                            combineWorkOutcomes (ls_observedOutcome slot1) (cr_outcome observed),
                          ls_outstandingRequests := 0,
                          ls_issuedRequest := newPlannedWriteRequest\<rparr>;
              l' \<leftarrow> put_slot l i slot2;
              Some (\<lparr>lr_status = Resolve_Resolved, lr_decision = decision,
                     lr_summary = summarize slot2\<rparr>, l') } } }) }"

definition ledger_summary ::
  "CompletionLedger \<Rightarrow> WorkIdentity \<Rightarrow> (bool \<times> WorkCompletionSummary) option" where
  "ledger_summary l work = do {
     found \<leftarrow> find_slot l work;
     (case found of
        None \<Rightarrow> Some (False, newWorkCompletionSummary)
      | Some i \<Rightarrow> do { slot \<leftarrow> slot_at l i; Some (True, summarize slot) }) }"

definition release ::
  "CompletionLedger \<Rightarrow> WorkIdentity \<Rightarrow> (LedgerReleaseStatus \<times> CompletionLedger) option" where
  "release l work = do {
     found \<leftarrow> find_slot l work;
     (case found of
        None \<Rightarrow> Some (Release_WorkNotFound, l)
      | Some i \<Rightarrow> do {
          slot \<leftarrow> slot_at l i;
          if \<not> ws_drained (summarize slot) then Some (Release_StillActive, l)
          else do { l' \<leftarrow> releaseSlot l i; Some (Release_Released, l') } }) }"

definition abandon ::
  "CompletionLedger \<Rightarrow> WorkIdentity \<Rightarrow> (bool \<times> CompletionLedger) option" where
  "abandon l work = do {
     found \<leftarrow> find_slot l work;
     (case found of
        None \<Rightarrow> Some (False, l)
      | Some i \<Rightarrow> do { l' \<leftarrow> releaseSlot l i; Some (True, l') }) }"

text \<open>The bulk loop of both \<open>abandon...\<close> helpers, from index \<open>i\<close> with count \<open>removed\<close>.\<close>

function abandon_loop ::
  "(CompletionLedgerSlot \<Rightarrow> bool) \<Rightarrow> CompletionLedger \<Rightarrow> nat \<Rightarrow> nat \<Rightarrow> u16 \<Rightarrow>
     (u16 \<times> CompletionLedger) option" where
  "abandon_loop P l n i removed =
     (if i < n then
        (case slot_at l i of
           None \<Rightarrow> None
         | Some slot \<Rightarrow>
             if P slot
             then (case releaseSlot l i of
                     None \<Rightarrow> None
                   | Some l' \<Rightarrow> abandon_loop P l' n (Suc i) (removed + 1))
             else abandon_loop P l n (Suc i) removed)
      else Some (removed, l))"
  by pat_completeness auto
termination
  by (relation "measure (\<lambda>(P, l, n, i, removed). n - i)") auto

declare abandon_loop.simps [simp del]

definition abandonGeneration ::
  "CompletionLedger \<Rightarrow> u16 \<Rightarrow> (u16 \<times> CompletionLedger) option" where
  "abandonGeneration l generation =
     (if cl_slots l = None \<or> generation = 0 then Some (0, l)
      else abandon_loop (\<lambda>slot. ls_occupied slot \<and>
             wi_sessionGeneration (ca_work (ls_aggregate slot)) = generation)
             l (unat (cl_capacity l)) 0 0)"

definition abandonNotCurrent ::
  "CompletionLedger \<Rightarrow> SessionStateView \<Rightarrow> (u16 \<times> CompletionLedger) option" where
  "abandonNotCurrent l session =
     (if cl_slots l = None then Some (0, l)
      else abandon_loop (\<lambda>slot. ls_occupied slot \<and>
             \<not> workCurrent (ca_work (ls_aggregate slot)) session)
             l (unat (cl_capacity l)) 0 0)"

section \<open>Well-formed ledgers\<close>

text \<open>
  The relation that every operation keeps between the fields of an occupied slot: one
  outstanding request at most, which is the next fragment of the aggregate; planning closed
  by the final fragment or after a failure only; the observed outcome agrees with the
  aggregate.
\<close>

definition request_matches :: "CompletionLedgerSlot \<Rightarrow> bool" where
  "request_matches s \<longleftrightarrow>
     (let r = ls_issuedRequest s; a = ls_aggregate s in
      validRequestIdentity (pw_identity r) \<and> ri_work (pw_identity r) = ca_work a \<and>
      pw_delivery r = ca_delivery a \<and>
      ri_fragmentIndex (pw_identity r) = ca_nextFragmentIndex a \<and>
      (if pw_finalFragment r
       then ls_planningClosed s \<and> ls_nextIssuedFragment s = ca_nextFragmentIndex a
       else ca_nextFragmentIndex a \<noteq> 0xFFFF \<and>
            ls_nextIssuedFragment s = ca_nextFragmentIndex a + 1 \<and>
            (ls_planningClosed s \<longrightarrow> ca_failed a)))"

definition slot_ok :: "CompletionLedgerSlot \<Rightarrow> bool" where
  "slot_ok s \<longleftrightarrow>
     (let a = ls_aggregate s in
      ls_occupied s \<and> validAggregate a \<and> aggregate_inv a \<and>
      (ca_failed a \<longleftrightarrow> ls_observedOutcome s \<noteq> Work_Pending \<and> ls_observedOutcome s \<noteq> Work_Applied) \<and>
      (ls_observedOutcome s = Work_Pending \<longrightarrow> \<not> ca_complete a) \<and>
      (if ls_outstandingRequests s = 0
       then (ca_complete a \<longrightarrow> ls_planningClosed s) \<and>
            (ls_planningClosed s \<longrightarrow> ca_complete a \<or> ca_failed a) \<and>
            (\<not> ls_planningClosed s \<longrightarrow> ls_nextIssuedFragment s = ca_nextFragmentIndex a)
       else ls_outstandingRequests s = 1 \<and> \<not> ca_complete a \<and> request_matches s))"

definition slot_work :: "CompletionLedgerSlot \<Rightarrow> WorkIdentity" where
  "slot_work s = ca_work (ls_aggregate s)"

definition live :: "CompletionLedger \<Rightarrow> CompletionLedgerSlot list" where
  "live l = (case cl_slots l of None \<Rightarrow> [] | Some xs \<Rightarrow> take (unat (cl_capacity l)) xs)"

definition ledger_backed :: "CompletionLedger \<Rightarrow> bool" where
  "ledger_backed l \<longleftrightarrow> length (live l) = unat (cl_capacity l)"

definition ledger_ok :: "CompletionLedger \<Rightarrow> bool" where
  "ledger_ok l \<longleftrightarrow>
     ledger_backed l \<and>
     unat (cl_size l) = length (filter ls_occupied (live l)) \<and>
     (\<forall>s \<in> set (live l). ls_occupied s \<longrightarrow> slot_ok s) \<and>
     distinct (map slot_work (filter ls_occupied (live l)))"

text \<open>The abstraction: a finite map from works to slots.\<close>

definition ledger_look :: "CompletionLedger \<Rightarrow> WorkIdentity \<Rightarrow> CompletionLedgerSlot option" where
  "ledger_look l w = find (\<lambda>s. ls_occupied s \<and> slot_work s = w) (live l)"

definition ledger_room :: "CompletionLedger \<Rightarrow> nat" where
  "ledger_room l = unat (cl_capacity l)"

subsection \<open>Slots of a list\<close>

lemma filter_update_split:
  assumes "i < length xs"
  shows "filter P (xs[i := x]) =
      filter P (take i xs) @ (if P x then [x] else []) @ filter P (drop (Suc i) xs)"
    and "filter P xs =
      filter P (take i xs) @ (if P (xs ! i) then [xs ! i] else []) @ filter P (drop (Suc i) xs)"
proof -
  have "filter P (xs[i := x]) = filter P (take i xs @ x # drop (Suc i) xs)"
    using assms by (simp add: upd_conv_take_nth_drop)
  then show "filter P (xs[i := x]) =
      filter P (take i xs) @ (if P x then [x] else []) @ filter P (drop (Suc i) xs)" by simp
  have "filter P xs = filter P (take i xs @ xs ! i # drop (Suc i) xs)"
    using assms by (simp add: id_take_nth_drop [symmetric])
  then show "filter P xs =
      filter P (take i xs) @ (if P (xs ! i) then [xs ! i] else []) @ filter P (drop (Suc i) xs)"
    by simp
qed

lemma find_filter: "find (\<lambda>x. P x \<and> f x = k) xs = find (\<lambda>x. f x = k) (filter P xs)"
  by (induction xs) auto

lemma find_distinct_key:
  assumes "distinct (map f xs)"
  shows "find (\<lambda>x. f x = k) xs = Some y \<longleftrightarrow> y \<in> set xs \<and> f y = k"
  using assms by (induction xs) auto

lemma distinct_key_map:
  assumes "distinct (map f xs)"
  shows "(\<lambda>k. find (\<lambda>x. f x = k) xs) = map_of (map (\<lambda>x. (f x, x)) xs)"
proof
  fix k
  show "find (\<lambda>x. f x = k) xs = map_of (map (\<lambda>x. (f x, x)) xs) k"
    using assms by (induction xs) auto
qed

text \<open>The occupied slots as an association list, and the map they define.\<close>

definition entries :: "CompletionLedgerSlot list \<Rightarrow> (WorkIdentity \<times> CompletionLedgerSlot) list" where
  "entries xs = map (\<lambda>s. (slot_work s, s)) (filter ls_occupied xs)"

lemma ledger_look_entries:
  assumes "ledger_ok l"
  shows "ledger_look l = map_of (entries (live l))"
proof -
  have d: "distinct (map slot_work (filter ls_occupied (live l)))"
    using assms by (simp add: ledger_ok_def)
  show ?thesis
    unfolding ledger_look_def find_filter entries_def distinct_key_map [OF d] ..
qed

lemma ledger_look_iff:
  assumes "ledger_ok l"
  shows "ledger_look l w = Some s \<longleftrightarrow> s \<in> set (live l) \<and> ls_occupied s \<and> slot_work s = w"
proof -
  have d: "distinct (map slot_work (filter ls_occupied (live l)))"
    using assms by (simp add: ledger_ok_def)
  show ?thesis
    unfolding ledger_look_def find_filter find_distinct_key [OF d] by auto
qed

lemma ledger_look_ok: "ledger_ok l \<Longrightarrow> ledger_look l w = Some s \<Longrightarrow> slot_ok s \<and> slot_work s = w"
  by (auto simp: ledger_look_iff ledger_ok_def)

lemma map_of_replace:
  "k \<notin> set (map fst xs) \<Longrightarrow> map_of (xs @ (k, v) # ys) = (map_of (xs @ ys))(k \<mapsto> v)"
  by (induction xs) (auto simp: fun_eq_iff)

lemma map_of_remove:
  "k \<notin> set (map fst xs) \<Longrightarrow> k \<notin> set (map fst ys) \<Longrightarrow>
     map_of (xs @ ys) = (map_of (xs @ (k, v) # ys))(k := None)"
  by (induction xs) (auto simp: fun_eq_iff map_of_eq_None_iff)

lemma entries_at:
  assumes "i < length xs"
  shows "entries xs = entries (take i xs) @
    (if ls_occupied (xs ! i) then [(slot_work (xs ! i), xs ! i)] else []) @ entries (drop (Suc i) xs)"
    and "entries (xs[i := s]) = entries (take i xs) @
    (if ls_occupied s then [(slot_work s, s)] else []) @ entries (drop (Suc i) xs)"
  using filter_update_split [OF assms, of ls_occupied] by (simp_all add: entries_def)

lemma entries_keys: "map fst (entries xs) = map slot_work (filter ls_occupied xs)"
  by (simp add: entries_def comp_def)

lemma card_ledger_look:
  assumes "ledger_ok l"
  shows "card (dom (ledger_look l)) = unat (cl_size l)"
proof -
  have "card (dom (ledger_look l)) = card (set (map fst (entries (live l))))"
    by (simp add: ledger_look_entries [OF assms] dom_map_of_conv_image_fst)
  also have "\<dots> = length (map fst (entries (live l)))"
    using assms unfolding entries_keys by (intro distinct_card) (simp add: ledger_ok_def)
  finally show ?thesis using assms by (simp add: ledger_ok_def entries_def)
qed

subsection \<open>Access to the slot array\<close>

lemma slot_at_live:
  "ledger_backed l \<Longrightarrow> i < unat (cl_capacity l) \<Longrightarrow> slot_at l i = Some (live l ! i)"
  by (auto simp: ledger_backed_def live_def slot_at_def split: option.splits)

lemma put_slot_live:
  assumes "ledger_backed l" "i < unat (cl_capacity l)"
  shows "\<exists>l'. put_slot l i s = Some l' \<and> live l' = (live l)[i := s] \<and>
    cl_capacity l' = cl_capacity l \<and> cl_size l' = cl_size l \<and> cl_slots l' \<noteq> None"
  using assms
  by (auto simp: ledger_backed_def live_def put_slot_def take_update_swap split: option.splits)

lemma ledger_backed_cong:
  "cl_capacity l' = cl_capacity l \<Longrightarrow> live l' = (live l)[i := s] \<Longrightarrow> ledger_backed l \<Longrightarrow> ledger_backed l'"
  by (simp add: ledger_backed_def)

lemma live_size_update [simp]: "live (l\<lparr>cl_size := n\<rparr>) = live l"
  by (simp add: live_def split: option.split)

lemma ledger_backed_size_update [simp]: "ledger_backed (l\<lparr>cl_size := n\<rparr>) = ledger_backed l"
  by (simp add: ledger_backed_def)

lemma scan_slots_live:
  assumes "ledger_backed l"
  shows "scan_slots P l i = Some (find (\<lambda>j. P (live l ! j)) [i..<unat (cl_capacity l)])"
proof (induction "unat (cl_capacity l) - i" arbitrary: i)
  case 0
  then show ?case by (subst scan_slots.simps) simp
next
  case (Suc n)
  then have i: "i < unat (cl_capacity l)" by simp
  with Suc have "scan_slots P l (Suc i) =
      Some (find (\<lambda>j. P (live l ! j)) [Suc i..<unat (cl_capacity l)])" by simp
  with i show ?case
    by (subst scan_slots.simps) (simp add: slot_at_live [OF assms] upt_conv_Cons)
qed

lemma find_index_in_list:
  assumes "n = length xs"
  shows "find (\<lambda>j. P (xs ! j)) [0..<n] = None \<longleftrightarrow> find P xs = None"
    and "find (\<lambda>j. P (xs ! j)) [0..<n] = Some i \<Longrightarrow> find P xs = Some (xs ! i) \<and> i < n"
proof -
  show "find (\<lambda>j. P (xs ! j)) [0..<n] = None \<longleftrightarrow> find P xs = None"
    using assms by (auto simp: find_None_iff in_set_conv_nth)
  assume "find (\<lambda>j. P (xs ! j)) [0..<n] = Some i"
  from nth_find_index [OF this] assms show "find P xs = Some (xs ! i) \<and> i < n"
    by (auto simp: find_Some_iff)
qed

text \<open>\<open>find\<close> and \<open>firstFree\<close> return, and find what the abstraction holds.\<close>

lemma find_slot_absent:
  assumes "ledger_ok l" "ledger_look l w = None"
  shows "find_slot l w = Some None"
proof -
  have b: "ledger_backed l" using assms(1) by (simp add: ledger_ok_def)
  from assms(2) have "find (\<lambda>j. ls_occupied (live l ! j) \<and>
      ca_work (ls_aggregate (live l ! j)) = w) [0..<unat (cl_capacity l)] = None"
    using find_index_in_list(1) [of "unat (cl_capacity l)" "live l"
        "\<lambda>s. ls_occupied s \<and> ca_work (ls_aggregate s) = w"] b
    by (simp add: ledger_look_def slot_work_def ledger_backed_def)
  then show ?thesis by (simp add: find_slot_def scan_slots_live [OF b])
qed

lemma find_slot_present:
  assumes "ledger_ok l" "ledger_look l w = Some s"
  obtains i where "find_slot l w = Some (Some i)" "i < unat (cl_capacity l)" "live l ! i = s"
proof -
  have b: "ledger_backed l" using assms(1) by (simp add: ledger_ok_def)
  have s: "slot_ok s" "slot_work s = w" using ledger_look_ok [OF assms] by simp_all
  then have "validWork w"
    by (auto simp: slot_ok_def Let_def validAggregate_def slot_work_def)
  moreover have "cl_slots l \<noteq> None"
    using assms(2) by (auto simp: ledger_look_def live_def split: option.splits)
  moreover obtain i where i: "find (\<lambda>j. ls_occupied (live l ! j) \<and>
      ca_work (ls_aggregate (live l ! j)) = w) [0..<unat (cl_capacity l)] = Some i"
    using find_index_in_list(1) [of "unat (cl_capacity l)" "live l"
        "\<lambda>s. ls_occupied s \<and> ca_work (ls_aggregate s) = w"] b assms(2)
    by (fastforce simp: ledger_look_def slot_work_def ledger_backed_def)
  ultimately have "find_slot l w = Some (Some i)"
    by (simp add: find_slot_def scan_slots_live [OF b])
  moreover have "live l ! i = s" "i < unat (cl_capacity l)"
    using find_index_in_list(2) [OF _ i] b assms(2)
    by (auto simp: ledger_look_def slot_work_def ledger_backed_def)
  ultimately show ?thesis using that by blast
qed

lemma firstFree_spec:
  assumes "ledger_ok l"
  shows "if unat (cl_size l) < unat (cl_capacity l)
    then \<exists>i. firstFree l = Some (Some i) \<and> i < unat (cl_capacity l) \<and> \<not> ls_occupied (live l ! i)
    else firstFree l = Some None"
proof -
  have b: "ledger_backed l" and size: "unat (cl_size l) = length (filter ls_occupied (live l))"
    using assms by (auto simp: ledger_ok_def)
  have len: "length (live l) = unat (cl_capacity l)" using b by (simp add: ledger_backed_def)
  have free: "firstFree l = Some (find (\<lambda>j. \<not> ls_occupied (live l ! j)) [0..<unat (cl_capacity l)])"
    using b by (cases "cl_slots l")
      (simp_all add: firstFree_def scan_slots_live [OF b] ledger_backed_def live_def)
  show ?thesis
  proof (cases "find (\<lambda>j. \<not> ls_occupied (live l ! j)) [0..<unat (cl_capacity l)]")
    case None
    then have "\<forall>s \<in> set (live l). ls_occupied s"
      using len by (auto simp: find_None_iff in_set_conv_nth)
    then have "length (filter ls_occupied (live l)) = unat (cl_capacity l)"
      using len by (simp add: filter_id_conv)
    then show ?thesis using free None size by simp
  next
    case (Some i)
    from nth_find_index [OF Some] have i: "i < unat (cl_capacity l)" "\<not> ls_occupied (live l ! i)"
      by simp_all
    then have "length (filter ls_occupied (live l)) < length (live l)"
      using len by (intro length_filter_less [of "live l ! i"]) auto
    then show ?thesis using free Some size len i by simp
  qed
qed

section \<open>Updating, inserting and removing one slot\<close>

lemma ledger_put:
  assumes "ledger_ok l" "i < unat (cl_capacity l)" "ls_occupied (live l ! i)"
    and "slot_ok s" "slot_work s = slot_work (live l ! i)"
  shows "\<exists>l'. put_slot l i s = Some l' \<and> ledger_ok l' \<and> ledger_room l' = ledger_room l \<and>
    cl_size l' = cl_size l \<and> ledger_look l' = (ledger_look l)(slot_work s \<mapsto> s)"
proof -
  have b: "ledger_backed l" and d: "distinct (map slot_work (filter ls_occupied (live l)))"
    and i: "i < length (live l)"
    using assms(1,2) by (auto simp: ledger_ok_def ledger_backed_def)
  obtain l' where l': "put_slot l i s = Some l'" "live l' = (live l)[i := s]"
      "cl_capacity l' = cl_capacity l" "cl_size l' = cl_size l"
    using put_slot_live [OF b assms(2), of s] by blast
  have occ: "ls_occupied s" using assms(4) by (simp add: slot_ok_def Let_def)
  note E = entries_at(1) [OF i] entries_at(2) [OF i, of s]
    and F = filter_update_split(1) [OF i, of ls_occupied s] filter_update_split(2) [OF i, of ls_occupied]
  have keys: "map slot_work (filter ls_occupied (live l')) =
      map slot_work (filter ls_occupied (live l))"
    using F assms(3,5) occ l'(2) by simp
  have "ledger_ok l'"
    unfolding ledger_ok_def
  proof (intro conjI)
    show "ledger_backed l'" by (rule ledger_backed_cong [OF l'(3,2) b])
    show "unat (cl_size l') = length (filter ls_occupied (live l'))"
      using arg_cong [OF keys, of length] assms(1) l'(4) by (simp add: ledger_ok_def)
    show "\<forall>s \<in> set (live l'). ls_occupied s \<longrightarrow> slot_ok s"
      using assms(1,4) l'(2) set_update_subset_insert [of "live l" i s]
      by (auto simp: ledger_ok_def)
    show "distinct (map slot_work (filter ls_occupied (live l')))" using d keys by simp
  qed
  moreover have "ledger_look l' = (ledger_look l)(slot_work s \<mapsto> s)"
  proof -
    have "slot_work s \<notin> set (map fst (entries (take i (live l))))"
      using d F(2) assms(3,5) unfolding entries_keys by auto
    then show ?thesis
      using E assms(3,5) occ
      by (simp add: ledger_look_entries [OF \<open>ledger_ok l'\<close>] ledger_look_entries [OF assms(1)]
          l'(2) map_of_replace del: map_of_append)
  qed
  ultimately show ?thesis using l' by (simp add: ledger_room_def)
qed

lemma ledger_insert:
  assumes "ledger_ok l" "i < unat (cl_capacity l)" "\<not> ls_occupied (live l ! i)"
    and "slot_ok s" "ledger_look l (slot_work s) = None"
  shows "\<exists>l'. put_slot l i s = Some l' \<and> ledger_ok (l'\<lparr>cl_size := cl_size l' + 1\<rparr>) \<and>
    ledger_room (l'\<lparr>cl_size := cl_size l' + 1\<rparr>) = ledger_room l \<and>
    ledger_look (l'\<lparr>cl_size := cl_size l' + 1\<rparr>) = (ledger_look l)(slot_work s \<mapsto> s)"
proof -
  have b: "ledger_backed l" and d: "distinct (map slot_work (filter ls_occupied (live l)))"
    and i: "i < length (live l)" and size: "unat (cl_size l) = length (filter ls_occupied (live l))"
    using assms(1,2) by (auto simp: ledger_ok_def ledger_backed_def)
  obtain l' where l': "put_slot l i s = Some l'" "live l' = (live l)[i := s]"
      "cl_capacity l' = cl_capacity l" "cl_size l' = cl_size l"
    using put_slot_live [OF b assms(2), of s] by blast
  let ?l = "l'\<lparr>cl_size := cl_size l' + 1\<rparr>"
  have occ: "ls_occupied s" using assms(4) by (simp add: slot_ok_def Let_def)
  note E = entries_at(1) [OF i] entries_at(2) [OF i, of s]
    and F = filter_update_split(1) [OF i, of ls_occupied s] filter_update_split(2) [OF i, of ls_occupied]
  have fresh: "slot_work s \<notin> set (map fst (entries (live l)))"
    using assms(5) by (simp add: ledger_look_entries [OF assms(1)] map_of_eq_None_iff)
  have "length (filter ls_occupied (live l)) < length (live l)"
    using i assms(3) by (intro length_filter_less [of "live l ! i"]) auto
  then have "unat (cl_size l) < unat (cl_capacity l)" using size b by (simp add: ledger_backed_def)
  then have inc: "unat (cl_size l + 1) = Suc (unat (cl_size l))" by (rule unat_Suc_below)
  have ok: "ledger_ok ?l"
    unfolding ledger_ok_def
  proof (intro conjI)
    show "ledger_backed ?l" using ledger_backed_cong [OF l'(3,2) b] by simp
    show "unat (cl_size ?l) = length (filter ls_occupied (live ?l))"
      using F assms(3) occ size inc l'(2,4) by simp
    show "\<forall>s \<in> set (live ?l). ls_occupied s \<longrightarrow> slot_ok s"
      using assms(1,4) l'(2) set_update_subset_insert [of "live l" i s]
      by (auto simp: ledger_ok_def)
    show "distinct (map slot_work (filter ls_occupied (live ?l)))"
      using d F assms(3) occ fresh l'(2) unfolding entries_keys by auto
  qed
  moreover have "ledger_look ?l = (ledger_look l)(slot_work s \<mapsto> s)"
    using E assms(3) occ fresh
    by (simp add: ledger_look_entries [OF ok] ledger_look_entries [OF assms(1)]
        l'(2) map_of_replace del: map_of_append)
  ultimately show ?thesis using l' by (simp add: ledger_room_def)
qed

lemma ledger_drop:
  assumes "ledger_ok l" "i < unat (cl_capacity l)" "ls_occupied (live l ! i)"
  shows "\<exists>l'. releaseSlot l i = Some l' \<and> ledger_ok l' \<and> ledger_room l' = ledger_room l \<and>
    cl_capacity l' = cl_capacity l \<and> live l' = (live l)[i := newLedgerSlot] \<and>
    ledger_look l' = (ledger_look l)(slot_work (live l ! i) := None)"
proof -
  have b: "ledger_backed l" and d: "distinct (map slot_work (filter ls_occupied (live l)))"
    and i: "i < length (live l)" and size: "unat (cl_size l) = length (filter ls_occupied (live l))"
    using assms(1,2) by (auto simp: ledger_ok_def ledger_backed_def)
  obtain l' where l': "put_slot l i newLedgerSlot = Some l'" "live l' = (live l)[i := newLedgerSlot]"
      "cl_capacity l' = cl_capacity l" "cl_size l' = cl_size l"
    using put_slot_live [OF b assms(2), of newLedgerSlot] by blast
  let ?l = "l'\<lparr>cl_size := cl_size l' - 1\<rparr>" and ?w = "slot_work (live l ! i)"
  have free: "\<not> ls_occupied newLedgerSlot" by (simp add: newLedgerSlot_def)
  note E = entries_at(1) [OF i] entries_at(2) [OF i, of newLedgerSlot]
    and F = filter_update_split(1) [OF i, of ls_occupied newLedgerSlot] filter_update_split(2) [OF i, of ls_occupied]
  have pos: "unat (cl_size l) \<noteq> 0" using F(2) assms(3) size by simp
  then have "cl_size l \<noteq> 0" by auto
  then have dec: "unat (cl_size l - 1) = unat (cl_size l) - 1" by (rule unat_minus_one)
  have ok: "ledger_ok ?l"
    unfolding ledger_ok_def
  proof (intro conjI)
    show "ledger_backed ?l" using ledger_backed_cong [OF l'(3,2) b] by simp
    show "unat (cl_size ?l) = length (filter ls_occupied (live ?l))"
      using F assms(3) free size dec l'(2,4) by simp
    show "\<forall>s \<in> set (live ?l). ls_occupied s \<longrightarrow> slot_ok s"
      using assms(1) free l'(2) set_update_subset_insert [of "live l" i newLedgerSlot]
      by (auto simp: ledger_ok_def)
    show "distinct (map slot_work (filter ls_occupied (live ?l)))"
      using d F assms(3) free l'(2) by auto
  qed
  moreover have "ledger_look ?l = (ledger_look l)(?w := None)"
  proof -
    have "?w \<notin> set (map fst (entries (take i (live l))))"
      "?w \<notin> set (map fst (entries (drop (Suc i) (live l))))"
      using d F(2) assms(3) unfolding entries_keys by auto
    from map_of_remove [OF this, of "live l ! i"] show ?thesis
      using E assms(3) free
      by (simp add: ledger_look_entries [OF ok] ledger_look_entries [OF assms(1)] l'(2))
  qed
  ultimately show ?thesis using l' by (simp add: releaseSlot_def ledger_room_def)
qed

section \<open>The operations on one slot and on the map of works\<close>

definition fresh_slot :: "WorkIdentity \<Rightarrow> IngressDelivery \<Rightarrow> CompletionLedgerSlot" where
  "fresh_slot work delivery = newLedgerSlot
     \<lparr>ls_aggregate := newCompletionAggregate work delivery, ls_occupied := True\<rparr>"

definition issue_slot ::
  "CompletionLedgerSlot \<Rightarrow> PlannedWriteRequest \<Rightarrow> LedgerIssueStatus \<times> CompletionLedgerSlot" where
  "issue_slot s r =
     (if ls_planningClosed s then (Issue_PlanningClosed, s)
      else if ls_outstandingRequests s \<noteq> 0 then (Issue_OutstandingRequestExists, s)
      else if pw_delivery r \<noteq> ca_delivery (ls_aggregate s) \<or>
              ri_fragmentIndex (pw_identity r) \<noteq> ls_nextIssuedFragment s
      then (Issue_OutOfOrder, s)
      else if ls_nextIssuedFragment s = 0xFFFF \<and> \<not> pw_finalFragment r
      then (Issue_FragmentIndexOverflow, s)
      else (Issue_Recorded,
        s\<lparr>ls_issuedRequest := r, ls_outstandingRequests := 1,
          ls_planningClosed := pw_finalFragment r,
          ls_nextIssuedFragment := (if pw_finalFragment r then ls_nextIssuedFragment s
                                    else ls_nextIssuedFragment s + 1)\<rparr>))"

definition resolve_slot ::
  "CompletionLedgerSlot \<Rightarrow> PlannedWriteRequest \<Rightarrow> CompletionRecord \<Rightarrow> SessionStateView \<Rightarrow>
     LedgerResolution \<times> CompletionLedgerSlot" where
  "resolve_slot s expected observed session =
     (let refused = (\<lambda>status. (newLedgerResolution\<lparr>lr_status := status, lr_summary := summarize s\<rparr>, s)) in
      if \<not> isKnownDownstreamOutcome (cr_outcome observed) then refused Resolve_InvalidOutcome
      else if ls_outstandingRequests s = 0 then refused Resolve_NoOutstandingRequest
      else if ls_issuedRequest s \<noteq> expected then refused Resolve_RequestMismatch
      else let (d, a) = resolveCompletion (ls_issuedRequest s) observed session (ls_aggregate s) in
        if \<not> decisionCurrent d
        then (\<lparr>lr_status = Resolve_CompletionRejected, lr_decision = d, lr_summary = summarize s\<rparr>, s)
        else let s' = s\<lparr>ls_aggregate := a,
               ls_observedOutcome := combineWorkOutcomes (ls_observedOutcome s) (cr_outcome observed),
               ls_outstandingRequests := 0, ls_issuedRequest := newPlannedWriteRequest\<rparr>
          in (\<lparr>lr_status = Resolve_Resolved, lr_decision = d, lr_summary = summarize s'\<rparr>, s'))"

definition close_slot :: "CompletionLedgerSlot \<Rightarrow> bool \<times> CompletionLedgerSlot" where
  "close_slot s =
     (if ls_observedOutcome s = Work_Pending \<or> ls_observedOutcome s = Work_Applied then (False, s)
      else (True, s\<lparr>ls_planningClosed := True\<rparr>))"

lemma samePlannedWriteRequest_eq [simp]: "samePlannedWriteRequest a b \<longleftrightarrow> a = b"
  by (cases a; cases b) (simp add: samePlannedWriteRequest_def)

lemma slot_ok_fresh:
  "validWork w \<Longrightarrow> isAccepted d \<Longrightarrow> slot_ok (fresh_slot w d) \<and> slot_work (fresh_slot w d) = w"
  by (simp add: slot_ok_def Let_def fresh_slot_def newLedgerSlot_def newCompletionAggregate_def
      validAggregate_def aggregate_inv_def slot_work_def)

lemma slot_ok_issue:
  assumes "slot_ok s" "validRequestIdentity (pw_identity r)" "ri_work (pw_identity r) = slot_work s"
  shows "slot_ok (snd (issue_slot s r)) \<and> slot_work (snd (issue_slot s r)) = slot_work s"
proof (cases "fst (issue_slot s r) = Issue_Recorded")
  case False
  then have "snd (issue_slot s r) = s" by (auto simp: issue_slot_def split: if_splits)
  with assms(1) show ?thesis by simp
next
  case True
  let ?s = "s\<lparr>ls_issuedRequest := r, ls_outstandingRequests := 1,
          ls_planningClosed := pw_finalFragment r,
          ls_nextIssuedFragment := (if pw_finalFragment r then ls_nextIssuedFragment s
                                    else ls_nextIssuedFragment s + 1)\<rparr>"
  have s': "snd (issue_slot s r) = ?s" and free: "ls_outstandingRequests s = 0" "\<not> ls_planningClosed s"
    and r: "pw_delivery r = ca_delivery (ls_aggregate s)"
      "ri_fragmentIndex (pw_identity r) = ls_nextIssuedFragment s"
      "pw_finalFragment r \<or> ls_nextIssuedFragment s \<noteq> 0xFFFF"
    using True by (auto simp: issue_slot_def split: if_splits)
  then have "\<not> ca_complete (ls_aggregate s)"
      "ls_nextIssuedFragment s = ca_nextFragmentIndex (ls_aggregate s)"
    using assms(1) by (auto simp: slot_ok_def Let_def)
  then have "request_matches ?s"
    using assms(2,3) r by (auto simp: request_matches_def slot_work_def)
  with assms(1) \<open>\<not> ca_complete _\<close> show ?thesis
    unfolding s' by (simp add: slot_ok_def slot_work_def Let_def)
qed

lemma slot_ok_close:
  assumes "slot_ok s"
  shows "slot_ok (snd (close_slot s)) \<and> slot_work (snd (close_slot s)) = slot_work s"
  using assms
  by (auto simp: slot_ok_def close_slot_def request_matches_def slot_work_def Let_def)

definition failed_outcome :: "WorkCompletionOutcome \<Rightarrow> bool" where
  "failed_outcome x \<longleftrightarrow> x \<noteq> Work_Pending \<and> x \<noteq> Work_Applied"

lemma combine_failed:
  assumes "isKnownDownstreamOutcome y"
  shows "failed_outcome (combineWorkOutcomes x y) \<longleftrightarrow> failed_outcome x \<or> y \<noteq> Outcome_Applied"
    and "combineWorkOutcomes x y \<noteq> Work_Pending"
  using assms by (cases x; cases y; simp add: failed_outcome_def combineWorkOutcomes_def)+

lemma resolve_slot_unresolved:
  "lr_status (fst (resolve_slot s e r session)) \<noteq> Resolve_Resolved \<Longrightarrow>
     snd (resolve_slot s e r session) = s"
  by (simp add: resolve_slot_def Let_def split: if_splits prod.splits)

lemma resolve_slot_resolved:
  assumes "lr_status (fst (resolve_slot s e r session)) = Resolve_Resolved"
  shows "resolve_guard (ls_issuedRequest s) r session (ls_aggregate s) \<and>
    ls_issuedRequest s = e \<and> ls_outstandingRequests s \<noteq> 0 \<and>
    snd (resolve_slot s e r session) =
      s\<lparr>ls_aggregate := snd (resolveCompletion e r session (ls_aggregate s)),
        ls_observedOutcome := combineWorkOutcomes (ls_observedOutcome s) (cr_outcome r),
        ls_outstandingRequests := 0, ls_issuedRequest := newPlannedWriteRequest\<rparr> \<and>
    lr_summary (fst (resolve_slot s e r session)) = summarize (snd (resolve_slot s e r session)) \<and>
    lr_decision (fst (resolve_slot s e r session)) =
      fst (resolveCompletion e r session (ls_aggregate s))"
proof (cases "resolve_guard (ls_issuedRequest s) r session (ls_aggregate s)")
  case True
  with assms show ?thesis
    using decisionCurrent_guard [of "ls_issuedRequest s" r session "ls_aggregate s"]
    by (simp add: resolve_slot_def Let_def newLedgerResolution_def split: if_splits prod.splits)
next
  case False
  with assms show ?thesis
    using decisionCurrent_guard [of "ls_issuedRequest s" r session "ls_aggregate s"]
    by (simp add: resolve_slot_def Let_def newLedgerResolution_def split: if_splits prod.splits)
qed

lemma slot_ok_resolve:
  assumes "slot_ok s"
  shows "slot_ok (snd (resolve_slot s e r session)) \<and>
    slot_work (snd (resolve_slot s e r session)) = slot_work s"
proof (cases "lr_status (fst (resolve_slot s e r session)) = Resolve_Resolved")
  case False
  with assms show ?thesis by (simp add: resolve_slot_unresolved)
next
  case True
  let ?a = "ls_aggregate s"
  define a' where "a' = snd (resolveCompletion e r session ?a)"
  define o' where "o' = combineWorkOutcomes (ls_observedOutcome s) (cr_outcome r)"
  note R = resolve_slot_resolved [OF True]
  then have e: "ls_issuedRequest s = e" and g: "resolve_guard e r session ?a"
    and s': "snd (resolve_slot s e r session) = s\<lparr>ls_aggregate := a', ls_observedOutcome := o',
        ls_outstandingRequests := 0, ls_issuedRequest := newPlannedWriteRequest\<rparr>"
    by (auto simp: a'_def o'_def)
  have known: "isKnownDownstreamOutcome (cr_outcome r)" using g by (simp add: resolve_guard_def)
  have a: "ca_work a' = ca_work ?a" "ca_delivery a' = ca_delivery ?a"
      "ca_complete a' = pw_finalFragment e" "ca_failed a' = (ca_failed ?a \<or> cr_outcome r \<noteq> Outcome_Applied)"
      "ca_nextFragmentIndex a' = (if pw_finalFragment e then ca_nextFragmentIndex ?a
         else ca_nextFragmentIndex ?a + 1)"
    by (simp_all add: a'_def resolve_accepted [OF g])
  have s: "ls_occupied s" "validAggregate ?a" "aggregate_inv ?a"
      "ca_failed ?a = failed_outcome (ls_observedOutcome s)" "request_matches s"
    using assms R by (auto simp: slot_ok_def Let_def failed_outcome_def)
  have inv: "aggregate_inv a'" using aggregate_inv_resolve [OF s(3)] by (simp add: a'_def)
  have o': "failed_outcome o' = ca_failed a'" "o' \<noteq> Work_Pending"
    using combine_failed [OF known] s(4) a(4) by (simp_all add: o'_def)
  have valid: "validAggregate a'" using s(2) a(1,2) by (simp add: validAggregate_def)
  have closed: "pw_finalFragment e \<longrightarrow> ls_planningClosed s"
      "ls_planningClosed s \<longrightarrow> pw_finalFragment e \<or> ca_failed a'"
      "\<not> ls_planningClosed s \<longrightarrow> ls_nextIssuedFragment s = ca_nextFragmentIndex a'"
    using s(5) a(4,5) e by (auto simp: request_matches_def Let_def split: if_splits)
  show ?thesis
    unfolding s' slot_ok_def Let_def slot_work_def
    using s(1) inv valid o' closed a(1,3) by (simp add: failed_outcome_def)
qed

text \<open>The answer to the outstanding request of a well-formed slot.\<close>

lemma resolve_slot_exact:
  fixes session :: SessionStateView
  assumes "slot_ok s" "ls_outstandingRequests s \<noteq> 0" "isKnownDownstreamOutcome x"
  defines "e \<equiv> ls_issuedRequest s"
  defines "res \<equiv> fst (resolve_slot s e \<lparr>cr_identity = pw_identity e, cr_outcome = x\<rparr> session)"
  shows "if workCurrent (slot_work s) session
    then lr_status res = Resolve_Resolved \<and> decisionCurrent (lr_decision res)
    else lr_status res = Resolve_CompletionRejected \<and> cd_status (lr_decision res) = Decision_StaleSession"
proof -
  let ?r = "\<lparr>cr_identity = pw_identity e, cr_outcome = x\<rparr>" and ?a = "ls_aggregate s"
  have s: "validAggregate ?a" "\<not> ca_complete ?a" "request_matches s"
    using assms(1,2) by (auto simp: slot_ok_def Let_def)
  then have m: "validRequestIdentity (pw_identity e)" "ri_work (pw_identity e) = ca_work ?a"
      "pw_delivery e = ca_delivery ?a" "ri_fragmentIndex (pw_identity e) = ca_nextFragmentIndex ?a"
      "pw_finalFragment e \<or> ca_nextFragmentIndex ?a \<noteq> 0xFFFF"
    by (auto simp: request_matches_def Let_def e_def)
  show ?thesis
  proof (cases "workCurrent (slot_work s) session")
    case True
    then have g: "resolve_guard e ?r session ?a"
      using s m assms(3) by (auto simp: resolve_guard_def validAggregate_def slot_work_def)
    then have "decisionCurrent (fst (resolveCompletion e ?r session ?a))"
      by (simp add: decisionCurrent_guard)
    with True assms(2,3) show ?thesis
      by (simp add: res_def resolve_slot_def split_beta Let_def flip: e_def)
  next
    case False
    then have "resolveCompletion e ?r session ?a = (rejectedDecision Decision_StaleSession, ?a)"
      using s m assms(3) by (simp add: resolveCompletion_def slot_work_def)
    with False assms(2,3) show ?thesis
      by (simp add: res_def resolve_slot_def rejectedDecision_def decisionCurrent_def flip: e_def)
  qed
qed

section \<open>The map of works\<close>

type_synonym work_map = "WorkIdentity \<Rightarrow> CompletionLedgerSlot option"

datatype ledger_op =
  Reserve_op WorkIdentity IngressDelivery
| Issue_op PlannedWriteRequest
| Close_op WorkIdentity
| Resolve_op PlannedWriteRequest CompletionRecord SessionStateView
| Summary_op WorkIdentity
| Release_op WorkIdentity
| Abandon_op WorkIdentity

datatype ledger_result =
  Reserve_res LedgerReserveStatus
| Issue_res LedgerIssueStatus
| Close_res bool
| Resolve_res LedgerResolution
| Summary_res bool WorkCompletionSummary
| Release_res LedgerReleaseStatus
| Abandon_res bool

text \<open>The abstract ledger: a map from works to slots with room for \<open>n\<close> works.\<close>

fun map_step :: "nat \<Rightarrow> ledger_op \<Rightarrow> work_map \<Rightarrow> ledger_result \<times> work_map" where
  "map_step n (Reserve_op w d) m =
     (if \<not> validWork w \<or> \<not> isAccepted d then (Reserve_res Reserve_InvalidWork, m)
      else if m w \<noteq> None then (Reserve_res Reserve_DuplicateWork, m)
      else if n \<le> card (dom m) then (Reserve_res Reserve_Full, m)
      else (Reserve_res Reserve_Reserved, m(w \<mapsto> fresh_slot w d)))"
| "map_step n (Issue_op r) m =
     (if \<not> validRequestIdentity (pw_identity r) \<or> \<not> isAccepted (pw_delivery r)
      then (Issue_res Issue_InvalidRequest, m)
      else case m (ri_work (pw_identity r)) of
             None \<Rightarrow> (Issue_res Issue_WorkNotFound, m)
           | Some s \<Rightarrow> (Issue_res (fst (issue_slot s r)),
                       m(ri_work (pw_identity r) \<mapsto> snd (issue_slot s r))))"
| "map_step n (Close_op w) m =
     (case m w of
        None \<Rightarrow> (Close_res False, m)
      | Some s \<Rightarrow> (Close_res (fst (close_slot s)), m(w \<mapsto> snd (close_slot s))))"
| "map_step n (Resolve_op e r session) m =
     (case m (ri_work (pw_identity e)) of
        None \<Rightarrow> (Resolve_res newLedgerResolution, m)
      | Some s \<Rightarrow> (Resolve_res (fst (resolve_slot s e r session)),
                  m(ri_work (pw_identity e) \<mapsto> snd (resolve_slot s e r session))))"
| "map_step n (Summary_op w) m =
     (case m w of
        None \<Rightarrow> (Summary_res False newWorkCompletionSummary, m)
      | Some s \<Rightarrow> (Summary_res True (summarize s), m))"
| "map_step n (Release_op w) m =
     (case m w of
        None \<Rightarrow> (Release_res Release_WorkNotFound, m)
      | Some s \<Rightarrow>
          if ws_drained (summarize s) then (Release_res Release_Released, m(w := None))
          else (Release_res Release_StillActive, m))"
| "map_step n (Abandon_op w) m =
     (case m w of
        None \<Rightarrow> (Abandon_res False, m)
      | Some s \<Rightarrow> (Abandon_res True, m(w := None)))"

text \<open>The same operation on the ledger of the code.\<close>

fun ledger_step :: "ledger_op \<Rightarrow> CompletionLedger \<Rightarrow> (ledger_result \<times> CompletionLedger) option" where
  "ledger_step (Reserve_op w d) l = map_option (map_prod Reserve_res id) (reserve l w d)"
| "ledger_step (Issue_op r) l = map_option (map_prod Issue_res id) (recordIssued l r)"
| "ledger_step (Close_op w) l =
     map_option (map_prod Close_res id) (closePlanningAfterFailure l w)"
| "ledger_step (Resolve_op e r session) l =
     map_option (map_prod Resolve_res id) (ledger_resolve l e r session)"
| "ledger_step (Summary_op w) l =
     map_option (\<lambda>(found, summary). (Summary_res found summary, l)) (ledger_summary l w)"
| "ledger_step (Release_op w) l = map_option (map_prod Release_res id) (release l w)"
| "ledger_step (Abandon_op w) l = map_option (map_prod Abandon_res id) (abandon l w)"

text \<open>One simulation step.\<close>

definition simulates :: "(ledger_result \<times> CompletionLedger) option \<Rightarrow> nat \<Rightarrow> ledger_result \<times> work_map \<Rightarrow> bool" where
  "simulates x n y \<longleftrightarrow>
     (\<exists>l'. x = Some (fst y, l') \<and> ledger_ok l' \<and> ledger_room l' = n \<and> ledger_look l' = snd y)"

lemma simulates_same: "ledger_ok l \<Longrightarrow> simulates (Some (x, l)) (ledger_room l) (x, ledger_look l)"
  by (simp add: simulates_def)

lemma put_back:
  assumes "ledger_ok l" "ledger_look l w = Some s" "slot_ok s'" "slot_work s' = w"
    and "i < unat (cl_capacity l)" "live l ! i = s"
  obtains l' where "put_slot l i s' = Some l'" "ledger_ok l'" "ledger_room l' = ledger_room l"
    "ledger_look l' = (ledger_look l)(w \<mapsto> s')"
  using ledger_put [OF assms(1,5), of s'] assms ledger_look_ok [OF assms(1,2)]
  by (auto simp: slot_ok_def Let_def)

lemma backed_of_ok: "ledger_ok l \<Longrightarrow> ledger_backed l"
  by (simp add: ledger_ok_def)

lemma step_reserve:
  assumes "ledger_ok l"
  shows "simulates (ledger_step (Reserve_op w d) l) (ledger_room l)
    (map_step (ledger_room l) (Reserve_op w d) (ledger_look l))"
proof (cases "validWork w \<and> isAccepted d \<and> ledger_look l w = None")
  case False
  have "cl_validStorage l"
    using backed_of_ok [OF assms] by (auto simp: cl_validStorage_def ledger_backed_def live_def unat_eq_0
        split: option.splits)
  moreover have "\<exists>i. find_slot l w = Some (Some i)" if "ledger_look l w \<noteq> None"
    using that find_slot_present [OF assms, of w] by auto
  ultimately show ?thesis
    using False assms by (auto simp: reserve_def simulates_def)
next
  case True
  have valid: "cl_validStorage l"
    using backed_of_ok [OF assms] by (auto simp: cl_validStorage_def ledger_backed_def live_def unat_eq_0
        split: option.splits)
  have absent: "find_slot l w = Some None" using find_slot_absent [OF assms] True by simp
  note card = card_ledger_look [OF assms] and free = firstFree_spec [OF assms]
  show ?thesis
  proof (cases "unat (cl_size l) < unat (cl_capacity l)")
    case False
    with True valid absent free card assms show ?thesis
      by (simp add: reserve_def simulates_def ledger_room_def)
  next
    case room: True
    with free obtain i where i: "firstFree l = Some (Some i)" "i < unat (cl_capacity l)"
        "\<not> ls_occupied (live l ! i)" by auto
    from ledger_insert [OF assms i(2,3), of "fresh_slot w d"] slot_ok_fresh [of w d] True
    show ?thesis
      using valid absent i(1) room card
      by (auto simp: reserve_def simulates_def ledger_room_def fresh_slot_def)
  qed
qed

lemma step_issue:
  assumes "ledger_ok l"
  shows "simulates (ledger_step (Issue_op r) l) (ledger_room l)
    (map_step (ledger_room l) (Issue_op r) (ledger_look l))"
proof (cases "validRequestIdentity (pw_identity r) \<and> isAccepted (pw_delivery r)")
  case False
  then show ?thesis using assms by (auto simp: recordIssued_def simulates_def)
next
  case True
  let ?w = "ri_work (pw_identity r)"
  show ?thesis
  proof (cases "ledger_look l ?w")
    case None
    with True assms show ?thesis
      by (simp add: recordIssued_def simulates_def find_slot_absent)
  next
    case (Some s)
    from find_slot_present [OF assms Some] obtain i where
      i: "find_slot l ?w = Some (Some i)" "i < unat (cl_capacity l)" "live l ! i = s" by metis
    have at: "slot_at l i = Some s" using slot_at_live [OF backed_of_ok [OF assms] i(2)] i(3) by simp
    have s: "slot_ok s" "slot_work s = ?w" using ledger_look_ok [OF assms Some] by simp_all
    show ?thesis
    proof (cases "fst (issue_slot s r) = Issue_Recorded")
      case False
      then have same: "snd (issue_slot s r) = s" by (auto simp: issue_slot_def split: if_splits)
      have "recordIssued l r = Some (fst (issue_slot s r), l)"
        using True i(1) at False by (auto simp: recordIssued_def issue_slot_def)
      with True Some same assms show ?thesis
        by (simp add: simulates_def map_upd_triv)
    next
      case rec: True
      have ok: "slot_ok (snd (issue_slot s r))" "slot_work (snd (issue_slot s r)) = ?w"
        using slot_ok_issue [OF s(1), of r] s(2) True by simp_all
      obtain l' where l': "put_slot l i (snd (issue_slot s r)) = Some l'" "ledger_ok l'"
          "ledger_room l' = ledger_room l" "ledger_look l' = (ledger_look l)(?w \<mapsto> snd (issue_slot s r))"
        using put_back [OF assms Some ok i(2,3)] by metis
      have "recordIssued l r = Some (Issue_Recorded, l')"
        using True i(1) at rec l'(1)
        by (cases s) (auto simp: recordIssued_def issue_slot_def Let_def split: if_splits)
      with True Some l' rec show ?thesis by (simp add: simulates_def)
    qed
  qed
qed

lemma found_slot:
  assumes "ledger_ok l" "ledger_look l w = Some s"
  obtains i where "find_slot l w = Some (Some i)" "i < unat (cl_capacity l)" "live l ! i = s"
    "slot_at l i = Some s" "slot_ok s" "slot_work s = w"
  using find_slot_present [OF assms] slot_at_live [OF backed_of_ok [OF assms(1)]]
    ledger_look_ok [OF assms]
  by metis

lemma step_close:
  assumes "ledger_ok l"
  shows "simulates (ledger_step (Close_op w) l) (ledger_room l)
    (map_step (ledger_room l) (Close_op w) (ledger_look l))"
proof (cases "ledger_look l w")
  case None
  with assms show ?thesis
    by (simp add: closePlanningAfterFailure_def simulates_def find_slot_absent)
next
  case (Some s)
  from found_slot [OF assms Some] obtain i where
    i: "find_slot l w = Some (Some i)" "i < unat (cl_capacity l)" "live l ! i = s"
    and at: "slot_at l i = Some s" and s: "slot_ok s" "slot_work s = w" by metis
  have ok: "slot_ok (snd (close_slot s))" "slot_work (snd (close_slot s)) = w"
    using slot_ok_close [OF s(1)] s(2) by simp_all
  obtain l' where l': "put_slot l i (snd (close_slot s)) = Some l'" "ledger_ok l'"
      "ledger_room l' = ledger_room l" "ledger_look l' = (ledger_look l)(w \<mapsto> snd (close_slot s))"
    using put_back [OF assms Some ok i(2,3)] by metis
  show ?thesis
  proof (cases "fst (close_slot s)")
    case True
    with i(1) at l'(1) have "closePlanningAfterFailure l w = Some (True, l')"
      by (simp add: closePlanningAfterFailure_def close_slot_def split: if_splits)
    with True Some l' show ?thesis by (simp add: simulates_def)
  next
    case False
    with i(1) at have "closePlanningAfterFailure l w = Some (False, l)" "snd (close_slot s) = s"
      by (auto simp: closePlanningAfterFailure_def close_slot_def split: if_splits)
    with False Some assms show ?thesis by (simp add: simulates_def map_upd_triv)
  qed
qed

lemma ledger_resolve_slot:
  assumes "find_slot l (ri_work (pw_identity e)) = Some (Some i)" "slot_at l i = Some s"
    and "i < unat (cl_capacity l)" "ledger_backed l" "live l ! i = s"
    and "put_slot l i (snd (resolve_slot s e r session)) = Some l'"
  shows "ledger_resolve l e r session = Some (fst (resolve_slot s e r session), l') \<or>
    snd (resolve_slot s e r session) = s \<and>
    ledger_resolve l e r session = Some (fst (resolve_slot s e r session), l)"
proof -
  obtain d a where da: "resolveCompletion e r session (ls_aggregate s) = (d, a)" by fastforce
  have same: "a = ls_aggregate s" if "\<not> decisionCurrent d"
    using that resolve_rejected [of e r session "ls_aggregate s"]
      decisionCurrent_guard [of e r session "ls_aggregate s"] da by auto
  show ?thesis
  proof (cases "\<not> isKnownDownstreamOutcome (cr_outcome r) \<or> ls_outstandingRequests s = 0 \<or>
      ls_issuedRequest s \<noteq> e")
    case True
    then show ?thesis using assms(1,2) by (auto simp: ledger_resolve_def resolve_slot_def Let_def)
  next
    case False
    then have e: "isKnownDownstreamOutcome (cr_outcome r)" "ls_outstandingRequests s \<noteq> 0"
        "ls_issuedRequest s = e" by auto
    show ?thesis
    proof (cases "decisionCurrent d")
      case True
      with e assms(1,2,6) show ?thesis
        by (simp add: ledger_resolve_def resolve_slot_def Let_def da)
    next
      case rej: False
      have "s\<lparr>ls_aggregate := ls_aggregate s\<rparr> = s" by simp
      with e rej assms(1,2,6) same [OF rej] show ?thesis
        by (simp add: ledger_resolve_def resolve_slot_def Let_def da)
    qed
  qed
qed

lemma step_resolve:
  assumes "ledger_ok l"
  shows "simulates (ledger_step (Resolve_op e r session) l) (ledger_room l)
    (map_step (ledger_room l) (Resolve_op e r session) (ledger_look l))"
proof (cases "ledger_look l (ri_work (pw_identity e))")
  case None
  with assms show ?thesis
    by (simp add: ledger_resolve_def simulates_def find_slot_absent)
next
  case (Some s)
  let ?w = "ri_work (pw_identity e)" and ?s = "snd (resolve_slot s e r session)"
  from found_slot [OF assms Some] obtain i where
    i: "find_slot l ?w = Some (Some i)" "i < unat (cl_capacity l)" "live l ! i = s"
    and at: "slot_at l i = Some s" and s: "slot_ok s" "slot_work s = ?w" by metis
  have ok: "slot_ok ?s" "slot_work ?s = ?w"
    using slot_ok_resolve [OF s(1), of e r session] s(2) by simp_all
  obtain l' where l': "put_slot l i ?s = Some l'" "ledger_ok l'"
      "ledger_room l' = ledger_room l" "ledger_look l' = (ledger_look l)(?w \<mapsto> ?s)"
    using put_back [OF assms Some ok i(2,3)] by metis
  from ledger_resolve_slot [OF i(1) at i(2) backed_of_ok [OF assms] i(3) l'(1)]
  show ?thesis
  proof
    assume "ledger_resolve l e r session = Some (fst (resolve_slot s e r session), l')"
    with Some l' show ?thesis by (simp add: simulates_def)
  next
    assume "?s = s \<and> ledger_resolve l e r session = Some (fst (resolve_slot s e r session), l)"
    with Some assms show ?thesis by (simp add: simulates_def map_upd_triv)
  qed
qed

lemma step_summary:
  assumes "ledger_ok l"
  shows "simulates (ledger_step (Summary_op w) l) (ledger_room l)
    (map_step (ledger_room l) (Summary_op w) (ledger_look l))"
proof (cases "ledger_look l w")
  case None
  with assms show ?thesis by (simp add: ledger_summary_def simulates_def find_slot_absent)
next
  case (Some s)
  from found_slot [OF assms Some] obtain i where
    "find_slot l w = Some (Some i)" "slot_at l i = Some s" by metis
  with assms Some show ?thesis by (simp add: ledger_summary_def simulates_def)
qed

lemma releaseSlot_at:
  assumes "ledger_ok l" "ledger_look l w = Some s" "i < unat (cl_capacity l)" "live l ! i = s"
  obtains l' where "releaseSlot l i = Some l'" "ledger_ok l'" "ledger_room l' = ledger_room l"
    "ledger_look l' = (ledger_look l)(w := None)"
  using ledger_drop [OF assms(1,3)] assms(4) ledger_look_ok [OF assms(1,2)]
  by (auto simp: slot_ok_def Let_def)

lemma step_release:
  assumes "ledger_ok l"
  shows "simulates (ledger_step (Release_op w) l) (ledger_room l)
    (map_step (ledger_room l) (Release_op w) (ledger_look l))"
proof (cases "ledger_look l w")
  case None
  with assms show ?thesis by (simp add: release_def simulates_def find_slot_absent)
next
  case (Some s)
  from found_slot [OF assms Some] obtain i where
    i: "find_slot l w = Some (Some i)" "i < unat (cl_capacity l)" "live l ! i = s"
    and at: "slot_at l i = Some s" by metis
  obtain l' where "releaseSlot l i = Some l'" "ledger_ok l'" "ledger_room l' = ledger_room l"
      "ledger_look l' = (ledger_look l)(w := None)"
    by (rule releaseSlot_at [OF assms Some i(2,3)])
  with Some i(1) at assms show ?thesis by (simp add: release_def simulates_def)
qed

lemma step_abandon:
  assumes "ledger_ok l"
  shows "simulates (ledger_step (Abandon_op w) l) (ledger_room l)
    (map_step (ledger_room l) (Abandon_op w) (ledger_look l))"
proof (cases "ledger_look l w")
  case None
  with assms show ?thesis by (simp add: abandon_def simulates_def find_slot_absent)
next
  case (Some s)
  from found_slot [OF assms Some] obtain i where
    i: "find_slot l w = Some (Some i)" "i < unat (cl_capacity l)" "live l ! i = s"
    and at: "slot_at l i = Some s" by metis
  obtain l' where "releaseSlot l i = Some l'" "ledger_ok l'" "ledger_room l' = ledger_room l"
      "ledger_look l' = (ledger_look l)(w := None)"
    by (rule releaseSlot_at [OF assms Some i(2,3)])
  with Some i(1) at assms show ?thesis by (simp add: abandon_def simulates_def)
qed

lemma step_simulates:
  "ledger_ok l \<Longrightarrow>
     simulates (ledger_step op l) (ledger_room l) (map_step (ledger_room l) op (ledger_look l))"
  by (cases op)
    (simp_all only: step_reserve step_issue step_close step_resolve step_summary step_release step_abandon)

section \<open>The ledger contract\<close>

text \<open>
  What the ledger promises to its user: every operation returns, keeps the invariant and the
  room, and has the result and the effect it has on the map of works. The consequences that
  hold for every provider are proved once.
\<close>

locale work_ledger =
  fixes inv :: "'l \<Rightarrow> bool"
    and look :: "'l \<Rightarrow> work_map"
    and room :: "'l \<Rightarrow> nat"
    and step :: "ledger_op \<Rightarrow> 'l \<Rightarrow> (ledger_result \<times> 'l) option"
  assumes held_ok: "inv l \<Longrightarrow> look l w = Some s \<Longrightarrow> slot_ok s \<and> slot_work s = w"
    and bounded: "inv l \<Longrightarrow> card (dom (look l)) \<le> room l"
    and step_law: "inv l \<Longrightarrow> \<exists>l'. step op l = Some (fst (map_step (room l) op (look l)), l') \<and>
          inv l' \<and> room l' = room l \<and> look l' = snd (map_step (room l) op (look l))"

fun run_steps ::
  "(ledger_op \<Rightarrow> 'l \<Rightarrow> (ledger_result \<times> 'l) option) \<Rightarrow> ledger_op list \<Rightarrow> 'l \<Rightarrow>
     (ledger_result list \<times> 'l) option" where
  "run_steps step [] l = Some ([], l)"
| "run_steps step (op # ops) l = do {
     (x, l') \<leftarrow> step op l;
     (xs, l'') \<leftarrow> run_steps step ops l';
     Some (x # xs, l'') }"

fun run_map :: "nat \<Rightarrow> ledger_op list \<Rightarrow> work_map \<Rightarrow> ledger_result list \<times> work_map" where
  "run_map n [] m = ([], m)"
| "run_map n (op # ops) m =
     (let (x, m') = map_step n op m; (xs, m'') = run_map n ops m' in (x # xs, m''))"

text \<open>The work an operation names.\<close>

fun op_work :: "ledger_op \<Rightarrow> WorkIdentity" where
  "op_work (Reserve_op w d) = w"
| "op_work (Issue_op r) = ri_work (pw_identity r)"
| "op_work (Close_op w) = w"
| "op_work (Resolve_op e r session) = ri_work (pw_identity e)"
| "op_work (Summary_op w) = w"
| "op_work (Release_op w) = w"
| "op_work (Abandon_op w) = w"

lemma map_step_frame: "w \<noteq> op_work op \<Longrightarrow> snd (map_step n op m) w = m w"
  by (cases op) (auto split: option.splits)

context work_ledger
begin

lemma run_refines_map:
  "inv l \<Longrightarrow> \<exists>l'. run_steps step ops l = Some (fst (run_map (room l) ops (look l)), l') \<and>
     inv l' \<and> room l' = room l \<and> look l' = snd (run_map (room l) ops (look l))"
proof (induction ops arbitrary: l)
  case Nil
  then show ?case by simp
next
  case (Cons op ops)
  from step_law [OF Cons.prems, of op] obtain l1 where
    "step op l = Some (fst (map_step (room l) op (look l)), l1)" "inv l1" "room l1 = room l"
    "look l1 = snd (map_step (room l) op (look l))" by blast
  with Cons.IH [of l1] show ?case by (auto simp: split_beta)
qed

lemma other_works_kept:
  assumes "inv l" "step op l = Some (x, l')" "w \<noteq> op_work op"
  shows "look l' w = look l w"
  using step_law [OF assms(1), of op] assms(2) map_step_frame [OF assms(3)] by auto

lemma one_outstanding:
  assumes "inv l" "look l w = Some s"
  shows "ls_outstandingRequests s = 0 \<or> ls_outstandingRequests s = 1"
  using held_ok [OF assms] by (auto simp: slot_ok_def Let_def split: if_splits)

lemma answer_settles:
  assumes "inv l" "look l w = Some s" "ls_outstandingRequests s \<noteq> 0"
    and "workCurrent w session" "isKnownDownstreamOutcome x"
  defines "e \<equiv> ls_issuedRequest s"
  shows "\<exists>res l' s'. step (Resolve_op e \<lparr>cr_identity = pw_identity e, cr_outcome = x\<rparr> session) l =
      Some (Resolve_res res, l') \<and> lr_status res = Resolve_Resolved \<and>
    inv l' \<and> look l' = (look l)(w \<mapsto> s') \<and> ls_outstandingRequests s' = 0 \<and>
    lr_summary res = summarize s'"
proof -
  let ?r = "\<lparr>cr_identity = pw_identity e, cr_outcome = x\<rparr>"
  have s: "slot_ok s" "slot_work s = w" using held_ok [OF assms(1,2)] by simp_all
  have w: "ri_work (pw_identity e) = w"
    using s assms(3) by (auto simp: slot_ok_def request_matches_def slot_work_def Let_def e_def)
  have res: "lr_status (fst (resolve_slot s e ?r session)) = Resolve_Resolved"
    using resolve_slot_exact [OF s(1) assms(3,5), of session] s(2) assms(4) by (simp add: e_def)
  from resolve_slot_resolved [OF res] step_law [OF assms(1), of "Resolve_op e ?r session"]
    assms(2) w res
  show ?thesis by fastforce
qed

end

interpretation ledger: work_ledger ledger_ok ledger_look ledger_room ledger_step
proof (unfold_locales, goal_cases)
  case (1 l w s)
  then show ?case by (rule ledger_look_ok)
next
  case (2 l)
  have "unat (cl_size l) \<le> unat (cl_capacity l)"
    using 2 by (metis length_filter_le ledger_backed_def ledger_ok_def)
  with card_ledger_look [OF 2] show ?case by (simp add: ledger_room_def)
next
  case (3 l op)
  then show ?case using step_simulates [of l op] by (auto simp: simulates_def)
qed

section \<open>Clearing and bulk teardown\<close>

lemma clear_slots_live:
  assumes "ledger_backed l" "n \<le> unat (cl_capacity l)" "i \<le> n"
  shows "\<exists>l'. clear_slots l n i = Some l' \<and> ledger_backed l' \<and> cl_capacity l' = cl_capacity l \<and>
    cl_size l' = cl_size l \<and>
    live l' = take i (live l) @ replicate (n - i) newLedgerSlot @ drop n (live l)"
  using assms
proof (induction "n - i" arbitrary: l i)
  case 0
  then show ?case by (subst clear_slots.simps) simp
next
  case (Suc k)
  then have i: "i < n" "i < unat (cl_capacity l)" "k = n - Suc i" by simp_all
  obtain l1 where l1: "put_slot l i newLedgerSlot = Some l1" "live l1 = (live l)[i := newLedgerSlot]"
      "cl_capacity l1 = cl_capacity l" "cl_size l1 = cl_size l"
    using put_slot_live [OF Suc.prems(1) i(2)] by blast
  have b1: "ledger_backed l1" by (rule ledger_backed_cong [OF l1(3,2) Suc.prems(1)])
  have len: "length (live l) = unat (cl_capacity l)" using Suc.prems(1) by (simp add: ledger_backed_def)
  from Suc.hyps(1) [OF i(3) b1] Suc.prems(2) i l1(3)
  obtain l' where l': "clear_slots l1 n (Suc i) = Some l'" "ledger_backed l'"
      "cl_capacity l' = cl_capacity l" "cl_size l' = cl_size l"
      "live l' = take (Suc i) (live l1) @ replicate (n - Suc i) newLedgerSlot @ drop n (live l1)"
    using l1(4) by auto
  have "live l' = take i (live l) @ replicate (n - i) newLedgerSlot @ drop n (live l)"
    using i len l'(5) l1(2) Suc.hyps(2)
    by (simp add: take_Suc_conv_app_nth Suc_diff_Suc flip: replicate_Suc)
  with l' l1(1) i(1) show ?case by (subst clear_slots.simps) simp
qed

lemma ledger_ok_empty:
  assumes "ledger_backed l" "cl_size l = 0" "set (live l) \<subseteq> {newLedgerSlot}"
  shows "ledger_ok l \<and> ledger_look l = Map.empty"
proof -
  have none: "filter ls_occupied (live l) = []"
    using assms(3) by (auto simp: filter_empty_conv newLedgerSlot_def)
  then have "ledger_ok l"
    using assms by (auto simp: ledger_ok_def newLedgerSlot_def filter_empty_conv)
  moreover from this have "ledger_look l = Map.empty"
    by (simp add: ledger_look_entries entries_def none)
  ultimately show ?thesis ..
qed

lemma cl_clear_spec:
  assumes "ledger_backed l"
  shows "\<exists>l'. cl_clear l = Some l' \<and> ledger_ok l' \<and> ledger_room l' = ledger_room l \<and>
    ledger_look l' = Map.empty"
proof (cases "cl_slots l")
  case None
  then have "live (l\<lparr>cl_size := 0\<rparr>) = []" by (simp add: live_def)
  with None assms show ?thesis
    using ledger_ok_empty [of "l\<lparr>cl_size := 0\<rparr>"] by (simp add: cl_clear_def ledger_room_def)
next
  case (Some xs)
  let ?l = "l\<lparr>cl_size := 0\<rparr>"
  obtain l' where l': "clear_slots ?l (unat (cl_capacity l)) 0 = Some l'" "ledger_backed l'"
      "cl_capacity l' = cl_capacity l" "cl_size l' = 0"
      "live l' = replicate (unat (cl_capacity l)) newLedgerSlot @ drop (unat (cl_capacity l)) (live l)"
    using clear_slots_live [of ?l "unat (cl_capacity l)" 0] assms by auto
  moreover have "drop (unat (cl_capacity l)) (live l) = []"
    using assms by (simp add: ledger_backed_def)
  ultimately have "ledger_ok l' \<and> ledger_look l' = Map.empty"
    by (intro ledger_ok_empty) auto
  with Some l' show ?thesis by (simp add: cl_clear_def ledger_room_def)
qed

text \<open>The bulk loop removes the works whose slots satisfy the predicate, and counts them.\<close>

definition works_where :: "(CompletionLedgerSlot \<Rightarrow> bool) \<Rightarrow> work_map \<Rightarrow> WorkIdentity set" where
  "works_where P m = {w. \<exists>s. m w = Some s \<and> P s}"

lemma abandon_loop_spec:
  assumes "ledger_ok l" "n = unat (cl_capacity l)" "i \<le> n"
    and "\<And>s. P s \<Longrightarrow> ls_occupied s"
    and "unat removed \<le> i"
  shows "\<exists>l' k. abandon_loop P l n i removed = Some (k, l') \<and> ledger_ok l' \<and>
    ledger_room l' = ledger_room l \<and>
    unat k = unat removed + length (filter P (drop i (live l))) \<and>
    ledger_look l' = (\<lambda>w. case ledger_look l w of
        None \<Rightarrow> None
      | Some s \<Rightarrow> if P s \<and> s \<in> set (drop i (live l)) then None else Some s)"
  using assms(1-3,5)
proof (induction "n - i" arbitrary: l i removed)
  case 0
  then have "drop i (live l) = []" by (simp add: ledger_ok_def ledger_backed_def)
  with 0 show ?case
    by (subst abandon_loop.simps) (auto split: option.splits)
next
  case (Suc m)
  have b: "ledger_backed l" using Suc.prems(1) by (rule backed_of_ok)
  have i: "i < n" "i < unat (cl_capacity l)" "m = n - Suc i" "i < length (live l)"
    using Suc b by (auto simp: ledger_backed_def)
  have at: "slot_at l i = Some (live l ! i)" by (rule slot_at_live [OF b i(2)])
  have drop: "drop i (live l) = live l ! i # drop (Suc i) (live l)"
    using i(4) by (simp add: Cons_nth_drop_Suc)
  have cap: "n < 65536" using Suc.prems(2) by simp
  show ?case
  proof (cases "P (live l ! i)")
    case False
    from Suc.hyps(1) [OF i(3) Suc.prems(1,2), of removed] i(1) Suc.prems(4)
    obtain l' k where l': "abandon_loop P l n (Suc i) removed = Some (k, l')" "ledger_ok l'"
        "ledger_room l' = ledger_room l"
        "unat k = unat removed + length (filter P (drop (Suc i) (live l)))"
        "ledger_look l' = (\<lambda>w. case ledger_look l w of None \<Rightarrow> None
          | Some s \<Rightarrow> if P s \<and> s \<in> set (drop (Suc i) (live l)) then None else Some s)"
      by auto
    have "abandon_loop P l n i removed = Some (k, l')"
      using i(1) at False l'(1) by (subst abandon_loop.simps) simp
    with l' False drop show ?thesis by (auto simp: fun_eq_iff split: option.splits)
  next
    case True
    have occ: "ls_occupied (live l ! i)" by (rule assms(4) [OF True])
    obtain l1 where l1: "releaseSlot l i = Some l1" "ledger_ok l1" "ledger_room l1 = ledger_room l"
        "cl_capacity l1 = cl_capacity l" "live l1 = (live l)[i := newLedgerSlot]"
        "ledger_look l1 = (ledger_look l)(slot_work (live l ! i) := None)"
      using ledger_drop [OF Suc.prems(1) i(2) occ] by blast
    have rem: "unat (removed + 1) = Suc (unat removed)"
      using Suc.prems(4) i(1) cap by (simp add: width_simps)
    have rest: "drop (Suc i) (live l1) = drop (Suc i) (live l)" by (simp add: l1(5))
    from Suc.hyps(1) [OF i(3) l1(2), of "removed + 1", unfolded rest] Suc.prems(2,4) i(1) l1(3,4) rem
    obtain l' k where l': "abandon_loop P l1 n (Suc i) (removed + 1) = Some (k, l')" "ledger_ok l'"
        "ledger_room l' = ledger_room l"
        "unat k = Suc (unat removed) + length (filter P (drop (Suc i) (live l)))"
        "ledger_look l' = (\<lambda>w. case ledger_look l1 w of None \<Rightarrow> None
          | Some s \<Rightarrow> if P s \<and> s \<in> set (drop (Suc i) (live l)) then None else Some s)"
      by auto
    have "abandon_loop P l n i removed = Some (k, l')"
      using i(1) at True l1(1) l'(1) by (subst abandon_loop.simps) simp
    moreover have "ledger_look l' = (\<lambda>w. case ledger_look l w of None \<Rightarrow> None
        | Some s \<Rightarrow> if P s \<and> s \<in> set (drop i (live l)) then None else Some s)"
    proof
      fix w
      have here: "ledger_look l (slot_work (live l ! i)) = Some (live l ! i)"
        using occ i(4) by (simp add: ledger_look_iff [OF Suc.prems(1)])
      have other: "s \<noteq> live l ! i" if "ledger_look l w = Some s" "w \<noteq> slot_work (live l ! i)" for s
        using ledger_look_ok [OF Suc.prems(1) that(1)] that(2) by auto
      show "ledger_look l' w = (case ledger_look l w of None \<Rightarrow> None
        | Some s \<Rightarrow> if P s \<and> s \<in> set (drop i (live l)) then None else Some s)"
        using here other True
        by (cases "w = slot_work (live l ! i)") (auto simp: l'(5) l1(6) drop split: option.splits)
    qed
    ultimately show ?thesis using l' True drop by simp
  qed
qed

lemma card_works_where:
  assumes "ledger_ok l" "\<And>s. P s \<Longrightarrow> ls_occupied s"
  shows "card (works_where P (ledger_look l)) = length (filter P (live l))"
proof -
  have sub: "filter P (live l) = filter P (filter ls_occupied (live l))"
    using assms(2) by (induction "live l" arbitrary: l) (auto intro: filter_cong)
  have d: "distinct (map slot_work (filter ls_occupied (live l)))"
    using assms(1) by (simp add: ledger_ok_def)
  then have "distinct (map slot_work (filter P (live l)))"
    unfolding sub by (rule distinct_map_filter)
  moreover have "works_where P (ledger_look l) = set (map slot_work (filter P (live l)))"
    using assms(2) by (auto simp: works_where_def ledger_look_iff [OF assms(1)])
  ultimately show ?thesis by (metis distinct_card length_map)
qed

lemma abandon_bulk:
  assumes "ledger_ok l" "\<And>s. P s \<Longrightarrow> ls_occupied s"
  shows "\<exists>l' k. abandon_loop P l (unat (cl_capacity l)) 0 0 = Some (k, l') \<and> ledger_ok l' \<and>
    ledger_room l' = ledger_room l \<and> unat k = card (works_where P (ledger_look l)) \<and>
    ledger_look l' = (ledger_look l) |` (- works_where P (ledger_look l))"
proof -
  obtain l' k where l': "abandon_loop P l (unat (cl_capacity l)) 0 0 = Some (k, l')" "ledger_ok l'"
      "ledger_room l' = ledger_room l" "unat k = length (filter P (live l))"
      "ledger_look l' = (\<lambda>w. case ledger_look l w of None \<Rightarrow> None
        | Some s \<Rightarrow> if P s \<and> s \<in> set (live l) then None else Some s)"
    using abandon_loop_spec [OF assms(1) refl _ assms(2), of 0 P 0, unfolded drop_0] by auto
  have "ledger_look l' = (ledger_look l) |` (- works_where P (ledger_look l))"
  proof
    fix w
    show "ledger_look l' w = ((ledger_look l) |` (- works_where P (ledger_look l))) w"
    proof (cases "ledger_look l w")
      case None
      then show ?thesis by (simp add: l'(5) restrict_map_def)
    next
      case (Some s)
      then have "s \<in> set (live l)" by (simp add: ledger_look_iff [OF assms(1)])
      with Some show ?thesis by (simp add: l'(5) restrict_map_def works_where_def)
    qed
  qed
  with l' card_works_where [OF assms] show ?thesis by auto
qed

end
