(* ===== verification/Ledger_Properties.thy ===== *)
theory Ledger_Properties
  imports Completion_Ledger
begin

text \<open>
  The properties of \<open>CompletionLedger.h\<close>: refinement of the map of works by every operation,
  the answer to the outstanding request, the combined outcome, release and bulk teardown.
\<close>

section \<open>Example ledger\<close>

definition example_identity :: WorkIdentity where
  "example_identity = \<lparr>wi_sourceToken = 7, wi_sessionGeneration = 3\<rparr>"

definition example_ledger :: CompletionLedger where
  "example_ledger = \<lparr>cl_slots = Some
     [newLedgerSlot, (fresh_slot example_identity Tracked)
        \<lparr>ls_issuedRequest := example_request 0 True, ls_outstandingRequests := 1,
         ls_planningClosed := True\<rparr>],
     cl_capacity = 2, cl_size = 1\<rparr>"

definition example_slot :: CompletionLedgerSlot where
  "example_slot = (fresh_slot example_identity Tracked)
     \<lparr>ls_issuedRequest := example_request 0 True, ls_outstandingRequests := 1,
      ls_planningClosed := True\<rparr>"

lemma example_slot_ok: "slot_ok example_slot"
  by (simp add: slot_ok_def example_slot_def fresh_slot_def newLedgerSlot_def Let_def
      newCompletionAggregate_def validAggregate_def aggregate_inv_def request_matches_def
      example_request_def example_identity_def validRequestIdentity_def validWork_def)

lemma example_ledger_ok: "ledger_ok example_ledger"
  using example_slot_ok
  by (simp add: ledger_ok_def ledger_backed_def live_def example_ledger_def example_slot_def)
    (simp add: fresh_slot_def newLedgerSlot_def)

lemma example_ledger_look: "ledger_look example_ledger example_identity = Some example_slot"
  by (simp add: ledger_look_def live_def example_ledger_def example_slot_def)
    (simp add: fresh_slot_def newLedgerSlot_def slot_work_def newCompletionAggregate_def)

section \<open>Properties\<close>

text \<open>
  C31. The ledger refines a map from works to slots: any script of reserve, record, close,
  resolve, summary, release and abandon calls on a well-formed ledger returns without
  leaving the slot array, with exactly the results and the final contents of the same script
  on the map, and leaves the ledger well-formed.
\<close>

theorem ledger_refines_map:
  assumes "ledger_ok l"
  shows "\<exists>l'. run_steps ledger_step ops l =
      Some (fst (run_map (unat (cl_capacity l)) ops (ledger_look l)), l') \<and>
    ledger_ok l' \<and> ledger_look l' = snd (run_map (unat (cl_capacity l)) ops (ledger_look l))"
  using ledger.run_refines_map [OF assms, of ops] by (auto simp: ledger_room_def)

lemma ledger_refines_map_witness:
  "\<exists>l'. run_steps ledger_step [Abandon_op example_identity] example_ledger =
      Some ([Abandon_res True], l') \<and> ledger_look l' example_identity = None"
  using ledger_refines_map [OF example_ledger_ok, of "[Abandon_op example_identity]"]
  by (auto simp: example_ledger_look split_beta)

text \<open>
  C32. From construction on, whatever operations are called: the ledger holds at most as many
  works as it has slots, its size field is that number, every held work has at most one
  outstanding request, and a planning-closed work without outstanding request has completed
  or failed.
\<close>

theorem ledger_always_bounded:
  assumes "length slots = unat capacity"
  shows "\<exists>l rs l'. newCompletionLedger (Some slots) capacity = Some l \<and>
    run_steps ledger_step ops l = Some (rs, l') \<and>
    unat (cl_size l') = card (dom (ledger_look l')) \<and> unat (cl_size l') \<le> unat capacity \<and>
    (\<forall>w s. ledger_look l' w = Some s \<longrightarrow>
       (ls_outstandingRequests s = 0 \<or> ls_outstandingRequests s = 1) \<and>
       (ws_drained (summarize s) \<longrightarrow>
          ca_complete (ls_aggregate s) \<or> ca_failed (ls_aggregate s)))"
proof -
  have "ledger_backed \<lparr>cl_slots = Some slots, cl_capacity = capacity, cl_size = 0\<rparr>"
    using assms by (simp add: ledger_backed_def live_def)
  then obtain l where l: "newCompletionLedger (Some slots) capacity = Some l" "ledger_ok l"
      "ledger_room l = unat capacity"
    using cl_clear_spec [of "\<lparr>cl_slots = Some slots, cl_capacity = capacity, cl_size = 0\<rparr>"]
    by (auto simp: newCompletionLedger_def ledger_room_def)
  from ledger.run_refines_map [OF l(2), of ops] obtain rs l' where
    l': "run_steps ledger_step ops l = Some (rs, l')" "ledger_ok l'" "ledger_room l' = unat capacity"
    using l(3) by auto
  have "ca_complete (ls_aggregate s) \<or> ca_failed (ls_aggregate s)"
    if "ledger_look l' w = Some s" "ws_drained (summarize s)" for w s
    using ledger.held_ok [OF l'(2) that(1)] that(2)
    by (auto simp: slot_ok_def summarize_def Let_def)
  with l l' card_ledger_look [OF l'(2)] ledger.bounded [OF l'(2)]
    ledger.one_outstanding [OF l'(2)]
  show ?thesis by auto
qed

lemma ledger_always_bounded_witness:
  "\<exists>l rs l'. newCompletionLedger (Some [newLedgerSlot, newLedgerSlot]) 2 = Some l \<and>
    run_steps ledger_step [Reserve_op example_identity Tracked,
      Reserve_op example_identity Tracked] l = Some (rs, l') \<and> unat (cl_size l') \<le> 2"
  using ledger_always_bounded [of "[newLedgerSlot, newLedgerSlot]" 2
      "[Reserve_op example_identity Tracked, Reserve_op example_identity Tracked]"] by auto

text \<open>
  C33. The terminal outcome of the outstanding request, reported with the issued request, is
  accepted while its session is current: the work then has nothing outstanding. When the
  session is no longer current it is rejected as stale and the ledger is unchanged.
\<close>

theorem ledger_answer:
  assumes "ledger_ok l" "ledger_look l w = Some s" "ls_outstandingRequests s \<noteq> 0"
    and "isKnownDownstreamOutcome x"
  shows "\<exists>res l'. ledger_resolve l (ls_issuedRequest s)
      \<lparr>cr_identity = pw_identity (ls_issuedRequest s), cr_outcome = x\<rparr> session = Some (res, l') \<and>
    ledger_ok l' \<and>
    (if workCurrent w session
     then lr_status res = Resolve_Resolved \<and> ws_outstandingRequests (lr_summary res) = 0 \<and>
       (\<exists>s'. ledger_look l' = (ledger_look l)(w \<mapsto> s') \<and> lr_summary res = summarize s')
     else lr_status res = Resolve_CompletionRejected \<and>
       cd_status (lr_decision res) = Decision_StaleSession \<and> ledger_look l' = ledger_look l)"
proof (cases "workCurrent w session")
  case True
  obtain res l' s' where r: "ledger_resolve l (ls_issuedRequest s)
        \<lparr>cr_identity = pw_identity (ls_issuedRequest s), cr_outcome = x\<rparr> session = Some (res, l')"
      "lr_status res = Resolve_Resolved" "ledger_ok l'" "ledger_look l' = (ledger_look l)(w \<mapsto> s')"
      "ls_outstandingRequests s' = 0" "lr_summary res = summarize s'"
    using ledger.answer_settles [OF assms(1-3) True assms(4)] by auto
  have "ws_outstandingRequests (summarize s') = 0" using r(5) by (simp add: summarize_def Let_def)
  with r True show ?thesis by auto
next
  case False
  let ?e = "ls_issuedRequest s" and ?r = "\<lparr>cr_identity = pw_identity (ls_issuedRequest s), cr_outcome = x\<rparr>"
  have s: "slot_ok s" "slot_work s = w" using ledger.held_ok [OF assms(1,2)] by simp_all
  then have w: "ri_work (pw_identity ?e) = w"
    using assms(3) by (auto simp: slot_ok_def request_matches_def slot_work_def Let_def)
  have res: "lr_status (fst (resolve_slot s ?e ?r session)) = Resolve_CompletionRejected"
      "cd_status (lr_decision (fst (resolve_slot s ?e ?r session))) = Decision_StaleSession"
    using resolve_slot_exact [OF s(1) assms(3,4), of session] s(2) False by simp_all
  then have "snd (resolve_slot s ?e ?r session) = s" by (simp add: resolve_slot_unresolved)
  with ledger.step_law [OF assms(1), of "Resolve_op ?e ?r session"] assms(2) w res False
  show ?thesis by (auto simp: map_upd_triv)
qed

lemma ledger_answer_witness:
  "\<exists>res l'. ledger_resolve example_ledger (example_request 0 True)
      \<lparr>cr_identity = pw_identity (example_request 0 True), cr_outcome = Outcome_Applied\<rparr>
      current_session = Some (res, l') \<and> lr_status res = Resolve_Resolved"
proof -
  have "workCurrent example_identity current_session" by code_simp
  moreover have "ls_outstandingRequests example_slot \<noteq> 0"
      "ls_issuedRequest example_slot = example_request 0 True"
    by (simp_all add: example_slot_def)
  ultimately show ?thesis
    using ledger_answer [OF example_ledger_ok example_ledger_look, of Outcome_Applied current_session]
    by auto
qed

text \<open>The scale on which outcomes are combined.\<close>

fun severity :: "WorkCompletionOutcome \<Rightarrow> nat" where
  "severity Work_Pending = 0"
| "severity Work_Applied = 1"
| "severity Work_DefinitelyNotSent = 2"
| "severity Work_UncertainSend = 3"
| "severity Work_TerminalFailure = 4"

text \<open>Outcomes ordered by severity.\<close>

instantiation WorkCompletionOutcome :: linorder
begin

definition less_eq_WorkCompletionOutcome :: "WorkCompletionOutcome \<Rightarrow> WorkCompletionOutcome \<Rightarrow> bool" where
  "less_eq_WorkCompletionOutcome x y \<longleftrightarrow> severity x \<le> severity y"

definition less_WorkCompletionOutcome :: "WorkCompletionOutcome \<Rightarrow> WorkCompletionOutcome \<Rightarrow> bool" where
  "less_WorkCompletionOutcome x y \<longleftrightarrow> severity x < severity y"

instance
proof
  fix x y :: WorkCompletionOutcome
  show "x \<le> y \<Longrightarrow> y \<le> x \<Longrightarrow> x = y"
    by (cases x; cases y; simp add: less_eq_WorkCompletionOutcome_def)
qed (auto simp: less_eq_WorkCompletionOutcome_def less_WorkCompletionOutcome_def)

end

lemma combine_is_max: "combineWorkOutcomes x y = max x (workOutcomeFor y)"
  by (cases x; cases y;
      simp add: combineWorkOutcomes_def max_def less_eq_WorkCompletionOutcome_def)

text \<open>
  The outcome that a work accumulates is the worst one observed, on the scale applied,
  definitely not sent, uncertain, failed after sending; before any it is pending.
\<close>

lemma combined_outcome_is_worst:
  "foldl combineWorkOutcomes x outcomes = fold max (map workOutcomeFor outcomes) x"
  by (induction outcomes arbitrary: x) (simp_all add: combine_is_max max.commute)

text \<open>
  C34. Ending a generation removes exactly its works, in one pass over the array, and returns
  their number; the other works keep their slots.
\<close>

theorem abandonGeneration_exact:
  assumes "ledger_ok l" "generation \<noteq> 0"
  shows "\<exists>k l'. abandonGeneration l generation = Some (k, l') \<and> ledger_ok l' \<and>
    unat k = card {w \<in> dom (ledger_look l). wi_sessionGeneration w = generation} \<and>
    ledger_look l' = (\<lambda>w. if wi_sessionGeneration w = generation then None else ledger_look l w)"
proof -
  let ?P = "\<lambda>s. ls_occupied s \<and> wi_sessionGeneration (ca_work (ls_aggregate s)) = generation"
  have works: "works_where ?P (ledger_look l) =
      {w \<in> dom (ledger_look l). wi_sessionGeneration w = generation}"
    by (auto simp: works_where_def ledger_look_iff [OF assms(1)] slot_work_def)
  show ?thesis
  proof (cases "cl_slots l")
    case None
    then have "ledger_look l = Map.empty" by (simp add: ledger_look_def live_def fun_eq_iff)
    with None assms show ?thesis by (simp add: abandonGeneration_def fun_eq_iff dom_def)
  next
    case (Some xs)
    obtain l' k where l': "abandon_loop ?P l (unat (cl_capacity l)) 0 0 = Some (k, l')"
        "ledger_ok l'" "unat k = card (works_where ?P (ledger_look l))"
        "ledger_look l' = (ledger_look l) |` (- works_where ?P (ledger_look l))"
      using abandon_bulk [OF assms(1), of ?P] by auto
    have "ledger_look l' = (\<lambda>w. if wi_sessionGeneration w = generation then None else ledger_look l w)"
      unfolding l'(4) works by (auto simp: fun_eq_iff restrict_map_def)
    with l' Some assms(2) show ?thesis by (simp add: abandonGeneration_def works)
  qed
qed

lemma abandonGeneration_exact_witness:
  "\<exists>k l'. abandonGeneration example_ledger 3 = Some (k, l') \<and>
     ledger_look l' example_identity = None"
  using abandonGeneration_exact [OF example_ledger_ok, of 3] by (auto simp: example_identity_def)

text \<open>
  C35. \<open>abandonNotCurrent\<close> removes exactly the works that the session no longer admits, and
  returns their number; current works keep their slots.
\<close>

theorem abandonNotCurrent_exact:
  assumes "ledger_ok l"
  shows "\<exists>k l'. abandonNotCurrent l session = Some (k, l') \<and> ledger_ok l' \<and>
    unat k = card {w \<in> dom (ledger_look l). \<not> workCurrent w session} \<and>
    ledger_look l' = (\<lambda>w. if workCurrent w session then ledger_look l w else None)"
proof -
  let ?P = "\<lambda>s. ls_occupied s \<and> \<not> workCurrent (ca_work (ls_aggregate s)) session"
  have works: "works_where ?P (ledger_look l) =
      {w \<in> dom (ledger_look l). \<not> workCurrent w session}"
    by (auto simp: works_where_def ledger_look_iff [OF assms(1)] slot_work_def)
  show ?thesis
  proof (cases "cl_slots l")
    case None
    then have "ledger_look l = Map.empty" by (simp add: ledger_look_def live_def fun_eq_iff)
    with None assms show ?thesis by (simp add: abandonNotCurrent_def fun_eq_iff dom_def)
  next
    case (Some xs)
    obtain l' k where l': "abandon_loop ?P l (unat (cl_capacity l)) 0 0 = Some (k, l')"
        "ledger_ok l'" "unat k = card (works_where ?P (ledger_look l))"
        "ledger_look l' = (ledger_look l) |` (- works_where ?P (ledger_look l))"
      using abandon_bulk [OF assms(1), of ?P] by auto
    have "ledger_look l' = (\<lambda>w. if workCurrent w session then ledger_look l w else None)"
      unfolding l'(4) works by (auto simp: fun_eq_iff restrict_map_def)
    with l' Some show ?thesis by (simp add: abandonNotCurrent_def works)
  qed
qed

lemma abandonNotCurrent_exact_witness:
  "\<exists>k l'. abandonNotCurrent example_ledger current_session = Some (k, l') \<and>
     ledger_look l' example_identity = Some example_slot"
proof -
  have "workCurrent example_identity current_session" by code_simp
  then show ?thesis
    using abandonNotCurrent_exact [OF example_ledger_ok, of current_session]
    by (auto simp: example_ledger_look)
qed

end
