(* ===== verification/Forward_Properties.thy ===== *)
theory Forward_Properties
  imports Forward_Plan Route_Properties
begin

text \<open>
  The properties of \<open>ForwardPlan.h\<close>: the exact classification by \<open>begin\<close>, and the write
  requests that the documented client loop over \<open>next\<close> gets for an accepted work.
\<close>

section \<open>The client loop\<close>

text \<open>
  The loop of the package documentation: call \<open>next\<close> with fresh non-zero sequences while it
  returns \<open>Planned\<close>. The result is the status that ended the loop and the planned requests.
\<close>

partial_function (option) plan_all ::
  "'v WorkTraits \<Rightarrow> 'v mem \<Rightarrow> ForwardPlanner \<Rightarrow> 'v ForwardCursor \<Rightarrow> u32 \<Rightarrow>
     (ForwardNextStatus \<times> PlannedWriteRequest list) option" where
  "plan_all T m p cursor seq = do {
     (status, cursor', request) \<leftarrow> planner_next T m p cursor seq;
     if status = Next_Planned
     then do {
       (final, requests) \<leftarrow> plan_all T m p cursor' (nextNonZeroSequence32 seq);
       Some (final, request # requests) }
     else Some (status, []) }"

declare plan_all.simps [code]

text \<open>
  The fragments of a work from offset \<open>off\<close> and index \<open>idx\<close> on: consecutive indices,
  consecutive sequences, no gap and no overlap, and the end of the work is reached.
\<close>

fun fragments ::
  "'v WorkTraits \<Rightarrow> (PlannedWriteRequest \<Rightarrow> 'v ptr \<Rightarrow> 'v \<Rightarrow> bool) \<Rightarrow> ForwardPlanner \<Rightarrow>
     'v IngressWorkView \<Rightarrow> 'v list \<Rightarrow> nat \<Rightarrow> nat \<Rightarrow> u32 \<Rightarrow> PlannedWriteRequest list \<Rightarrow> bool" where
  "fragments T carries p work vs off idx seq [] \<longleftrightarrow> off = unat (iw_count work)"
| "fragments T carries p work vs off idx seq (r # rs) \<longleftrightarrow>
     fragment_ok T carries p work vs off idx seq r \<and>
     fragments T carries p work vs (off + unat (pw_quantity r)) (Suc idx)
       (nextNonZeroSequence32 seq) rs"

text \<open>The snapshot values that a request transfers.\<close>

definition request_values :: "'v list \<Rightarrow> PlannedWriteRequest \<Rightarrow> 'v list" where
  "request_values vs r = take (unat (pw_quantity r)) (drop (unat (pw_sourceOffset r)) vs)"

lemma nextNonZeroSequence32_nonzero [simp]: "nextNonZeroSequence32 x \<noteq> 0"
  by (simp add: nextNonZeroSequence32_def Let_def)

lemma fragments_values:
  assumes "fragments T carries p work vs off idx seq rs" "length vs = unat (iw_count work)"
  shows "concat (map (request_values vs) rs) = drop off vs"
  using assms
proof (induction rs arbitrary: off idx seq)
  case (Cons r rs)
  then have "request_values vs r = take (unat (pw_quantity r)) (drop off vs)"
    by (simp add: request_values_def fragment_ok_def Let_def)
  with Cons show ?case
    by (simp add: add.commute) (metis append_take_drop_id drop_drop add.commute)
qed simp

lemma fragments_final:
  assumes "fragments T carries p work vs off idx seq rs" "off < unat (iw_count work)"
  shows "rs \<noteq> [] \<and> pw_finalFragment (last rs) \<and> (\<forall>r \<in> set (butlast rs). \<not> pw_finalFragment r)"
  using assms
proof (induction rs arbitrary: off idx seq)
  case (Cons r rs)
  let ?off = "off + unat (pw_quantity r)"
  have r: "pw_finalFragment r \<longleftrightarrow> ?off = unat (iw_count work)" "?off \<le> unat (iw_count work)"
    using Cons.prems by (simp_all add: fragment_ok_def Let_def)
  show ?case
  proof (cases "?off = unat (iw_count work)")
    case True
    with Cons.prems have "rs = []"
      by (cases rs) (auto simp: fragment_ok_def Let_def)
    with True r show ?thesis by simp
  next
    case False
    then have "?off < unat (iw_count work)" using r by simp
    with Cons.IH Cons.prems r False show ?thesis by fastforce
  qed
qed simp

lemma fragments_length:
  "fragments T carries p work vs off idx seq rs \<Longrightarrow> length rs + off \<le> unat (iw_count work)"
proof (induction rs arbitrary: off idx seq)
  case (Cons r rs)
  then have "length rs + (off + unat (pw_quantity r)) \<le> unat (iw_count work)"
    "0 < unat (pw_quantity r)"
    by (auto simp: fragment_ok_def Let_def)
  then show ?case by simp
qed simp

context write_traits
begin

lemma plan_all_fragments:
  assumes "searchable (fp_routes p)" "cursor_shape T p c"
    and "snapshot_holds m (fc_work c) vs"
    and "seq \<noteq> 0 \<or> \<not> validWork (iw_identity (fc_work c))"
  shows "\<exists>rs. plan_all T m p c seq = Some (Next_Complete, rs) \<and>
    fragments T carries p (fc_work c) vs (unat (fc_sourceOffset c)) (unat (fc_fragmentIndex c)) seq rs"
  using assms(2-)
proof (induction "unat (fc_remaining c)" arbitrary: c seq rule: less_induct)
  case less
  show ?case
  proof (cases "fc_remaining c = 0")
    case True
    with less.prems(1) have "unat (fc_sourceOffset c) = unat (iw_count (fc_work c))"
      by (simp add: cursor_shape_def Let_def)
    then show ?thesis
      using cursor_shape_done [OF less.prems(1) True]
      by (intro exI [of _ "[]"]) (subst plan_all.simps, simp)
  next
    case False
    from next_fragment [OF assms(1) less.prems(1) False less.prems(2,3)] obtain r where
      step: "planner_next T m p c seq = Some (Next_Planned, advance_cursor c (pw_quantity r), r)"
        (is "_ = Some (_, ?c', _)")
      and ok: "fragment_ok T carries p (fc_work c) vs (unat (fc_sourceOffset c))
         (unat (fc_fragmentIndex c)) seq r"
      and q: "pw_quantity r \<noteq> 0" "unat (pw_quantity r) \<le> unat (fc_remaining c)"
      by metis
    note adv = advance_cursor_shape [OF less.prems(1) False q]
    have work: "fc_work ?c' = fc_work c" by (simp add: advance_cursor_def)
    have "0 < unat (pw_quantity r)" using q(1) by (simp add: unat_gt_0)
    then have "unat (fc_remaining ?c') < unat (fc_remaining c)" using adv(2) q(2) by simp
    from less.hyps [OF this adv(1), of "nextNonZeroSequence32 seq"] less.prems(2) work
    obtain rs where rs: "plan_all T m p ?c' (nextNonZeroSequence32 seq) = Some (Next_Complete, rs)"
      "fragments T carries p (fc_work c) vs (unat (fc_sourceOffset ?c'))
         (unat (fc_fragmentIndex ?c')) (nextNonZeroSequence32 seq) rs"
      by auto
    then have "plan_all T m p c seq = Some (Next_Complete, r # rs)"
      by (subst plan_all.simps) (simp add: step)
    with ok rs adv(3,4) show ?thesis by auto
  qed
qed

lemma begin_then_plan_all:
  assumes "searchable (fp_routes p)" "snapshot_holds m work vs" "seq \<noteq> 0"
    and "planner_begin T p work = Some (Plan_Ready, c)"
  shows "\<exists>rs. plan_all T m p c seq = Some (Next_Complete, rs) \<and>
    fragments T carries p work vs 0 0 seq rs \<and> rs \<noteq> [] \<and> length rs \<le> unat (iw_count work) \<and>
    pw_finalFragment (last rs) \<and> (\<forall>r \<in> set (butlast rs). \<not> pw_finalFragment r) \<and>
    concat (map (request_values vs) rs) = vs"
proof -
  have c: "begin_status T p work = Plan_Ready" "c = begin_cursor work"
    using planner_begin_spec [OF assms(1) table_in_routes, of work] assms(4)
    by (auto simp: Let_def split: if_splits)
  have shape: "cursor_shape T p c" using begin_cursor_shape [OF c(1)] c(2) by simp
  have "snapshot_holds m (fc_work c) vs" using assms(2) c(2) by (simp add: begin_cursor_def)
  from plan_all_fragments [OF assms(1) shape this] assms(3)
  obtain rs where rs: "plan_all T m p c seq = Some (Next_Complete, rs)"
    "fragments T carries p work vs 0 0 seq rs"
    by (auto simp: c(2) begin_cursor_def)
  have len: "length vs = unat (iw_count work)"
    using assms(2) mem_read_length unfolding snapshot_holds_def by blast
  have "0 < unat (iw_count work)"
    using c(1) by (auto simp: begin_status_def Let_def split: if_splits)
  with fragments_final [OF rs(2)] fragments_values [OF rs(2) len] fragments_length [OF rs(2)] rs
  show ?thesis by auto
qed

end

lemma single_route_fragments:
  assumes "searchable (fp_routes p)" "table_index (wt_table T) < 4"
    and "single_route (fp_routes p) (table_index (wt_table T)) (unat (iw_start work))
      (unat (iw_count work))"
    and "fragments T carries p work vs off idx seq rs"
  shows "\<exists>i. \<forall>r \<in> set rs. unat (pw_routeIndex r) = i \<and>
    map_option er_endpointId (route_at (fp_routes p) i) = Some (pw_endpointId r)"
proof -
  let ?v = "fp_routes p" and ?t = "table_index (wt_table T)"
  obtain i where i: "i < unat (rt_count ?v)" "lo (up_range ?v ?t i) \<le> unat (iw_start work)"
      "unat (iw_start work) + unat (iw_count work) \<le> hi (up_range ?v ?t i)"
    using assms(3) by (auto simp: single_route_def)
  have "unat (pw_routeIndex r) = i" if r: "fragment_ok T carries p work vs off idx seq r"
    for r off idx seq
  proof -
    have "range_contains (up_range ?v ?t (unat (pw_routeIndex r))) (pw_upstreamStart r)"
      "unat (pw_routeIndex r) < unat (rt_count ?v)"
      "range_contains (up_range ?v ?t i) (pw_upstreamStart r)"
      using r i unfolding fragment_ok_def Let_def
      by (auto simp: range_contains_iff upstream_at_def)
    then show ?thesis
      using containing_route_unique [OF searchable_table_ok [OF assms(1,2)]] i(1) by metis
  qed
  moreover have "map_option er_endpointId (route_at ?v (unat (pw_routeIndex r))) = Some (pw_endpointId r)"
    if "fragment_ok T carries p work vs off idx seq r" for r off idx seq
    using that by (auto simp: fragment_ok_def Let_def)
  ultimately have "\<forall>r \<in> set rs. unat (pw_routeIndex r) = i \<and>
      map_option er_endpointId (route_at ?v i) = Some (pw_endpointId r)"
    using assms(4) by (induction rs arbitrary: off idx seq) (simp, metis fragments.simps(2) set_ConsD)
  then show ?thesis by blast
qed

text \<open>
  The client loop over \<open>next\<close> completes, its requests carry the values \<open>vs\<close> in order, and all of
  them name one route and the endpoint of that route.
\<close>

definition planned_on_one_route ::
  "'v WorkTraits \<Rightarrow> 'v mem \<Rightarrow> ForwardPlanner \<Rightarrow> 'v ForwardCursor \<Rightarrow> u32 \<Rightarrow> 'v list \<Rightarrow> bool" where
  "planned_on_one_route T m p c seq vs \<longleftrightarrow>
     (\<exists>rs i endpoint. plan_all T m p c seq = Some (Next_Complete, rs) \<and> rs \<noteq> [] \<and>
        concat (map (request_values vs) rs) = vs \<and>
        map_option er_endpointId (route_at (fp_routes p) i) = Some endpoint \<and>
        (\<forall>r \<in> set rs. unat (pw_routeIndex r) = i \<and> pw_endpointId r = endpoint))"

context write_traits
begin

lemma single_endpoint_plan:
  assumes "searchable (fp_routes p)" "snapshot_holds m work vs" "seq \<noteq> 0"
    and "planner_begin T p work = Some (Plan_Ready, c)"
    and "span_policy (fp_options p) (iw_delivery work) = SingleEndpoint"
  shows "planned_on_one_route T m p c seq vs"
proof -
  have "begin_status T p work = Plan_Ready"
    using planner_begin_spec [OF assms(1) table_in_routes, of work] assms(4)
    by (auto simp: Let_def)
  then have one: "single_route (fp_routes p) (table_index (wt_table T))
      (unat (iw_start work)) (unat (iw_count work))"
    using assms(5) by (auto simp: begin_status_def Let_def split: if_splits)
  obtain rs where rs: "plan_all T m p c seq = Some (Next_Complete, rs)"
      "fragments T carries p work vs 0 0 seq rs" "rs \<noteq> []" "concat (map (request_values vs) rs) = vs"
    using begin_then_plan_all [OF assms(1-4)] by blast
  obtain i where i: "\<forall>r \<in> set rs. unat (pw_routeIndex r) = i \<and>
      map_option er_endpointId (route_at (fp_routes p) i) = Some (pw_endpointId r)"
    using single_route_fragments [OF assms(1) table_in_routes one rs(2)] by blast
  have "hd rs \<in> set rs" using rs(3) by simp
  with i have "map_option er_endpointId (route_at (fp_routes p) i) = Some (pw_endpointId (hd rs))"
    by blast
  with rs i show ?thesis unfolding planned_on_one_route_def by (metis option.inject)
qed

end

section \<open>Example planner\<close>

definition example_planner :: ForwardPlanner where
  "example_planner = \<lparr>fp_routes = example_view, fp_options =
     (newForwardPlanOptions 8 2)\<lparr>fo_orderedSpanPolicy := PreflightAndSplit\<rparr>\<rparr>"

definition example_work :: "u16 IngressWorkView" where
  "example_work = makeHoldingIngressWork \<lparr>wi_sourceToken = 7, wi_sessionGeneration = 3\<rparr>
     102 5 Tracked (Ptr 0 0)"

definition example_session :: SessionStateView where
  "example_session = \<lparr>ss_active = True, ss_currentGeneration = 3, ss_appliedGeneration = 3,
     ss_phase = Ready\<rparr>"

definition example_memory :: "u16 mem" where
  "example_memory = [0 \<mapsto> [11, 12, 13, 14, 15]]"

lemma example_planner_searchable: "searchable (fp_routes example_planner)"
  by (simp add: example_planner_def example_searchable)

lemma example_work_holds: "snapshot_holds example_memory example_work [11, 12, 13, 14, 15]"
  by (simp add: snapshot_holds_def example_memory_def example_work_def makeHoldingIngressWork_def)

lemma example_work_begins:
  "planner_begin holding_traits example_planner example_work =
     Some (Plan_Ready, begin_cursor example_work)"
  by code_simp

definition coil_route_view :: RouteTableView where
  "coil_route_view = \<lparr>rt_routes = Some [\<lparr>er_endpointId = 2,
     er_upstream = (\<lparr>ar_start = 10, ar_count = 4\<rparr>, emptyRange, emptyRange, emptyRange),
     er_downstream = (\<lparr>ar_start = 0, ar_count = 4\<rparr>, emptyRange, emptyRange, emptyRange)\<rparr>],
     rt_count = 1\<rparr>"

definition coil_planner :: ForwardPlanner where
  "coil_planner = \<lparr>fp_routes = coil_route_view, fp_options = newForwardPlanOptions 2 8\<rparr>"

definition coil_work :: "bool IngressWorkView" where
  "coil_work = makeCoilIngressWork \<lparr>wi_sourceToken = 7, wi_sessionGeneration = 3\<rparr>
     10 3 Tracked (Ptr 0 0)"

text \<open>A holding work inside the first route, planned with two registers per request.\<close>

definition single_planner :: ForwardPlanner where
  "single_planner = \<lparr>fp_routes = example_view, fp_options = newForwardPlanOptions 8 2\<rparr>"

definition single_work :: "u16 IngressWorkView" where
  "single_work = makeHoldingIngressWork \<lparr>wi_sourceToken = 7, wi_sessionGeneration = 3\<rparr>
     100 3 Tracked (Ptr 0 0)"

lemma coil_planner_searchable: "searchable (fp_routes coil_planner)"
proof -
  have "validate coil_route_view = Some Table_Valid" by code_simp
  then show ?thesis
    by (simp add: searchable_def valid_view_def coil_planner_def)
      (simp add: backed_def coil_route_view_def)
qed

lemma coil_work_begins:
  "planner_begin coil_traits coil_planner coil_work = Some (Plan_Ready, begin_cursor coil_work)"
  by code_simp

section \<open>Properties\<close>

text \<open>
  C24. \<open>begin\<close> returns for every work and classifies it exactly, by the first failing check of:
  work of the current session, accepted delivery, non-empty, within 65536 addresses, snapshot of the announced size,
  non-zero request limit, every address mapped, and the span policy of its delivery, where
  \<open>SingleEndpoint\<close> means that one route holds the whole span. The cursor of a ready work
  covers it from its start; every rejected work gets the inactive cursor.
\<close>

theorem planner_begin_exact:
  assumes "searchable (fp_routes p)" "table_index (wt_table T) < 4"
  shows "planner_begin_session T p work session =
    Some (let s = (if workCurrent (iw_identity work) session then begin_status T p work
                   else Plan_StaleSession)
          in (s, if s = Plan_Ready then begin_cursor work else newForwardCursor))"
  using planner_begin_spec [OF assms] by (simp add: planner_begin_session_def Let_def)

lemma planner_begin_exact_witness:
  "planner_begin_session holding_traits example_planner example_work example_session =
    Some (let s = (if workCurrent (iw_identity example_work) example_session
                   then begin_status holding_traits example_planner example_work
                   else Plan_StaleSession)
          in (s, if s = Plan_Ready then begin_cursor example_work else newForwardCursor))"
  using planner_begin_exact [OF example_planner_searchable holding.table_in_routes] .

text \<open>
  C25. For a holding-register work that \<open>begin\<close> accepts, the client loop over \<open>next\<close> ends with
  \<open>Complete\<close>, never with an invalid sequence or a topology change. Its requests have
  consecutive fragment indices and sequences, each stays inside one route and under the
  request limit, exactly the last is marked final, and the values they carry, joined in
  order, are the snapshot.
\<close>

theorem holding_plan_complete:
  assumes "searchable (fp_routes p)" "snapshot_holds m work vs" "seq \<noteq> 0"
    and "planner_begin holding_traits p work = Some (Plan_Ready, c)"
  shows "\<exists>rs. plan_all holding_traits m p c seq = Some (Next_Complete, rs) \<and>
    fragments holding_traits holding_carries p work vs 0 0 seq rs \<and>
    rs \<noteq> [] \<and> length rs \<le> unat (iw_count work) \<and>
    pw_finalFragment (last rs) \<and> (\<forall>r \<in> set (butlast rs). \<not> pw_finalFragment r) \<and>
    concat (map (request_values vs) rs) = vs"
  by (rule holding.begin_then_plan_all [OF assms])

lemma holding_plan_complete_witness:
  "\<exists>rs. plan_all holding_traits example_memory example_planner (begin_cursor example_work) 9 =
      Some (Next_Complete, rs) \<and> concat (map (request_values [11, 12, 13, 14, 15]) rs) =
      [11, 12, 13, 14, 15 :: u16]"
  using holding_plan_complete [OF example_planner_searchable example_work_holds _
      example_work_begins, of 9] by auto

text \<open>
  The same for a coil work.
\<close>

lemma coil_plan_complete:
  assumes "searchable (fp_routes p)" "snapshot_holds m work vs" "seq \<noteq> 0"
    and "planner_begin coil_traits p work = Some (Plan_Ready, c)"
  shows "\<exists>rs. plan_all coil_traits m p c seq = Some (Next_Complete, rs) \<and>
    fragments coil_traits coil_carries p work vs 0 0 seq rs \<and>
    rs \<noteq> [] \<and> length rs \<le> unat (iw_count work) \<and>
    pw_finalFragment (last rs) \<and> (\<forall>r \<in> set (butlast rs). \<not> pw_finalFragment r) \<and>
    concat (map (request_values vs) rs) = vs"
  by (rule coil.begin_then_plan_all [OF assms])

lemma coil_plan_complete_witness:
  "\<exists>rs. plan_all coil_traits [0 \<mapsto> [True, False, True]] coil_planner (begin_cursor coil_work) 1 =
      Some (Next_Complete, rs) \<and> concat (map (request_values [True, False, True]) rs) =
      [True, False, True]"
proof -
  have "snapshot_holds [0 \<mapsto> [True, False, True]] coil_work [True, False, True]"
    by (simp add: snapshot_holds_def coil_work_def makeCoilIngressWork_def)
  from coil_plan_complete [OF coil_planner_searchable this _ coil_work_begins, of 1]
  show ?thesis by auto
qed

text \<open>
  C26. A work of either value type that \<open>begin\<close> accepts under the \<open>SingleEndpoint\<close> policy is
  planned for one route only: the client loop completes, its requests carry the whole snapshot,
  and all of them name the same route and its endpoint, however the request limit splits the work.
\<close>

theorem single_endpoint_one_route:
  assumes "searchable (fp_routes p)" "seq \<noteq> 0"
  shows "(snapshot_holds coils cwork bits \<and>
      planner_begin coil_traits p cwork = Some (Plan_Ready, cc) \<and>
      span_policy (fp_options p) (iw_delivery cwork) = SingleEndpoint \<longrightarrow>
      planned_on_one_route coil_traits coils p cc seq bits) \<and>
    (snapshot_holds registers hwork vs \<and>
      planner_begin holding_traits p hwork = Some (Plan_Ready, hc) \<and>
      span_policy (fp_options p) (iw_delivery hwork) = SingleEndpoint \<longrightarrow>
      planned_on_one_route holding_traits registers p hc seq vs)"
  using coil.single_endpoint_plan [OF assms(1) _ assms(2)]
    holding.single_endpoint_plan [OF assms(1) _ assms(2)] by blast

lemma single_endpoint_one_route_witness:
  "planned_on_one_route coil_traits [0 \<mapsto> [True, False, True]] coil_planner
     (begin_cursor coil_work) 1 [True, False, True] \<and>
   planned_on_one_route holding_traits example_memory single_planner
     (begin_cursor single_work) 1 [11, 12, 13]"
proof
  have "snapshot_holds [0 \<mapsto> [True, False, True]] coil_work [True, False, True]"
    by (simp add: snapshot_holds_def coil_work_def makeCoilIngressWork_def)
  moreover have "span_policy (fp_options coil_planner) (iw_delivery coil_work) = SingleEndpoint"
    by code_simp
  ultimately show "planned_on_one_route coil_traits [0 \<mapsto> [True, False, True]] coil_planner
      (begin_cursor coil_work) 1 [True, False, True]"
    using single_endpoint_one_route [OF coil_planner_searchable, of 1] coil_work_begins by simp
next
  have "searchable (fp_routes single_planner)"
    by (simp add: single_planner_def example_searchable)
  moreover have "snapshot_holds example_memory single_work [11, 12, 13]"
    by (simp add: snapshot_holds_def example_memory_def single_work_def makeHoldingIngressWork_def)
  moreover have "planner_begin holding_traits single_planner single_work =
      Some (Plan_Ready, begin_cursor single_work)" by code_simp
  moreover have "span_policy (fp_options single_planner) (iw_delivery single_work) = SingleEndpoint"
    by code_simp
  ultimately show "planned_on_one_route holding_traits example_memory single_planner
      (begin_cursor single_work) 1 [11, 12, 13]"
    using single_endpoint_one_route [of single_planner 1] by simp
qed

text \<open>
  C27. When the table under an active cursor no longer maps its next address, \<open>next\<close> reports
  \<open>TopologyChanged\<close> without planning anything, and the cursor stays finished: every later
  call, with any table, returns \<open>Complete\<close>.
\<close>

theorem topology_change_stops:
  assumes "searchable (fp_routes p)" "table_index (wt_table T) < 4"
    and "fc_active c" "fc_remaining c \<noteq> 0" "seq \<noteq> 0"
    and "\<not> covered (fp_routes p) (table_index (wt_table T)) (unat (fc_nextAddress c))"
  shows "\<exists>c'. planner_next T m p c seq = Some (Next_TopologyChanged, c', newPlannedWriteRequest) \<and>
    (\<forall>m' p' seq'. planner_next T m' p' c' seq' = Some (Next_Complete, c', newPlannedWriteRequest))"
proof -
  obtain f where f: "locate (fp_routes p) (wt_table T) (fc_nextAddress c) = Some f"
    "found_ok (fp_routes p) (table_index (wt_table T)) (fc_nextAddress c) f"
    using locate_spec [OF assms(1,2)] by blast
  with assms(6) have "f = None"
    by (auto simp: found_ok_def covered_def range_contains_iff split: option.splits)
  with f assms(3-5) show ?thesis
    by (simp add: planner_next_def Let_def)
qed

lemma topology_change_stops_witness:
  "\<exists>c'. planner_next holding_traits example_memory
      (example_planner\<lparr>fp_routes := \<lparr>rt_routes = None, rt_count = 0\<rparr>\<rparr>)
      (begin_cursor example_work) 1 = Some (Next_TopologyChanged, c', newPlannedWriteRequest)"
proof -
  have "validate \<lparr>rt_routes = None, rt_count = 0\<rparr> = Some Table_Valid" by code_simp
  then have "searchable \<lparr>rt_routes = None, rt_count = 0\<rparr>"
    by (simp add: searchable_def valid_view_def backed_def)
  then show ?thesis
    using topology_change_stops [of "example_planner\<lparr>fp_routes := \<lparr>rt_routes = None, rt_count = 0\<rparr>\<rparr>"
        holding_traits "begin_cursor example_work" 1 example_memory]
    by (auto simp: holding.table_in_routes covered_def begin_cursor_def example_work_def
        makeHoldingIngressWork_def)
qed

end
