(* ===== verification/Applied_Images.thy ===== *)
theory Applied_Images
  imports Forward_Properties Completion_Transition
begin

text \<open>
  Planner, completion transition and cached images together: confirming the fragments that the
  planner produced for a work writes its snapshot into the applied image.
\<close>

section \<open>Confirming the fragments of a work\<close>

text \<open>
  The client side of completion: each request of a work is resolved with its outcome, and the
  decision is applied to the applied image, in planner order.
\<close>

type_synonym 'v transition =
  "'v mem \<Rightarrow> 'v DesiredAppliedCache \<Rightarrow> PlannedWriteRequest \<Rightarrow> CompletionDecision \<Rightarrow> (bool \<times> 'v mem) option"

fun confirm_all ::
  "'v transition \<Rightarrow> 'v DesiredAppliedCache \<Rightarrow> SessionStateView \<Rightarrow> (PlannedWriteRequest \<times> DownstreamOutcome) list \<Rightarrow>
     CompletionAggregate \<Rightarrow> 'v mem \<Rightarrow> (CompletionDecision list \<times> CompletionAggregate \<times> 'v mem) option" where
  "confirm_all transition cache session [] a m = Some ([], a, m)"
| "confirm_all transition cache session ((r, x) # rest) a m = do {
     let (d, a1) = resolveCompletion r \<lparr>cr_identity = pw_identity r, cr_outcome = x\<rparr> session a;
     (ok, m1) \<leftarrow> transition m cache r d;
     (ds, a2, m2) \<leftarrow> confirm_all transition cache session rest a1 m1;
     Some (d # ds, a2, m2) }"

text \<open>The contract of a value type in the applied image.\<close>

locale image_traits = write_traits T carries
  for T :: "'v WorkTraits" and carries +
  fixes transition :: "'v transition"
  assumes confirmed: "carries r p x \<Longrightarrow> pw_table r = wt_table T \<Longrightarrow> decisionCurrent d \<Longrightarrow>
      cd_identity d = pw_identity r \<Longrightarrow> cd_appliedAction d = MarkAppliedRange \<Longrightarrow>
      transition m c r d = markApplied m c (pw_upstreamStart r) p (pw_quantity r)"

interpretation coil_image: image_traits coil_traits coil_carries apply_coil_transition
  by unfold_locales (simp add: apply_coil_transition_def coil_carries_def coil_traits_def)

interpretation holding_image: image_traits holding_traits holding_carries apply_holding_transition
  by unfold_locales (simp add: apply_holding_transition_def holding_carries_def holding_traits_def)

lemma overwrite_extend:
  assumes "off + n \<le> length vs" "start + length vs \<le> length xs"
  shows "overwrite (start + off) (take n (drop off vs)) (overwrite start (take off vs) xs) =
    overwrite start (take (off + n) vs) xs"
  using assms by (intro nth_equalityI) (auto simp: nth_overwrite)

lemma overwrite_nothing [simp]: "overwrite k [] xs = xs"
  by (simp add: overwrite_def)

text \<open>How many values some requests transfer.\<close>

definition transferred_values :: "PlannedWriteRequest list \<Rightarrow> nat" where
  "transferred_values rs = sum_list (map (unat \<circ> pw_quantity) rs)"

text \<open>An aggregate of the work with \<open>idx\<close> fragments applied and none failed.\<close>

definition aggregate_at :: "'v IngressWorkView \<Rightarrow> nat \<Rightarrow> CompletionAggregate \<Rightarrow> bool" where
  "aggregate_at work idx a \<longleftrightarrow>
     ca_work a = iw_identity work \<and> ca_delivery a = iw_delivery work \<and>
     unat (ca_nextFragmentIndex a) = idx \<and> \<not> ca_failed a \<and> \<not> ca_complete a \<and> \<not> ca_noticeEmitted a"

context image_traits
begin

text \<open>One confirmed fragment.\<close>

lemma confirm_fragment:
  assumes frag: "fragment_ok T carries p work vs off idx seq r"
    and "seq \<noteq> 0" "idx \<le> off" "isAccepted (iw_delivery work)"
    and current: "workCurrent (iw_identity work) session"
    and agg: "aggregate_at work idx a"
    and snap: "snapshot_holds m work vs"
    and img: "mem_read m (im_values (dc_applied c)) (unat (im_count (dc_applied c))) =
      Some (overwrite (unat (iw_start work)) (take off vs) old)"
    and len: "length old = unat (im_count (dc_applied c))"
    and inside: "unat (iw_start work) + unat (iw_count work) \<le> unat (im_count (dc_applied c))"
    and sep: "separate (im_values (dc_applied c)) (unat (im_count (dc_applied c)))
      (sv_values (iw_snapshot work)) (unat (iw_count work))"
  obtains d a' m' where
    "resolveCompletion r \<lparr>cr_identity = pw_identity r, cr_outcome = Outcome_Applied\<rparr> session a = (d, a')"
    "transition m c r d = Some (True, m')"
    "cd_notice d = (if pw_finalFragment r \<and> tracksPublicCompletion (iw_delivery work)
       then WorkSucceeded else Notice_None)"
    "pw_finalFragment r \<or> aggregate_at work (Suc idx) a'"
    "snapshot_holds m' work vs"
    "mem_read m' (im_values (dc_applied c)) (unat (im_count (dc_applied c))) =
       Some (overwrite (unat (iw_start work)) (take (off + unat (pw_quantity r)) vs) old)"
proof -
  let ?c = "dc_applied c" and ?rec = "\<lparr>cr_identity = pw_identity r, cr_outcome = Outcome_Applied\<rparr>"
  define q where "q = unat (pw_quantity r)"
  have f: "ri_work (pw_identity r) = iw_identity work" "ri_requestSequence (pw_identity r) = seq"
      "unat (ri_fragmentIndex (pw_identity r)) = idx" "pw_delivery r = iw_delivery work"
      "pw_table r = wt_table T" "unat (pw_sourceOffset r) = off" "0 < q"
      "unat (pw_upstreamStart r) = unat (iw_start work) + off" "off + q \<le> unat (iw_count work)"
      "pw_finalFragment r \<longleftrightarrow> off + q = unat (iw_count work)"
      "carries r (ptr_add (sv_values (iw_snapshot work)) (pw_sourceOffset r)) (vs ! off)"
    using frag by (simp_all add: fragment_ok_def Let_def q_def)
  have a: "ca_work a = iw_identity work" "ca_delivery a = iw_delivery work"
      "ca_nextFragmentIndex a = ri_fragmentIndex (pw_identity r)" "\<not> ca_failed a" "\<not> ca_complete a"
      "\<not> ca_noticeEmitted a"
    using agg f(3) by (simp_all add: aggregate_at_def word_unat_eq_iff)
  have small: "Suc idx < 65536" if "\<not> pw_finalFragment r"
    using that f(7,9,10) assms(3) unat_u16_bound [of "iw_count work"] by linarith
  have guard: "resolve_guard r ?rec session a"
    using a f(1-4) assms(2,4) current workCurrent_valid [OF current] small f(3)
    by (auto simp: resolve_guard_def validRequestIdentity_def)
  define d where "d = fst (resolveCompletion r ?rec session a)"
  define a' where "a' = snd (resolveCompletion r ?rec session a)"
  have d: "decisionCurrent d" "cd_identity d = pw_identity r" "cd_appliedAction d = MarkAppliedRange"
      "cd_notice d = (if pw_finalFragment r \<and> tracksPublicCompletion (iw_delivery work)
       then WorkSucceeded else Notice_None)"
    using resolve_accepted [OF guard] a
    by (simp_all add: d_def decisionCurrent_def tracked_notice_def)
  have "pw_finalFragment r \<or> aggregate_at work (Suc idx) a'"
    using resolve_accepted [OF guard] a f(3) small
    by (auto simp add: a'_def aggregate_at_def tracked_notice_def unat_word_ariths)
  moreover
  let ?p = "ptr_add (sv_values (iw_snapshot work)) (pw_sourceOffset r)" and ?xs = "take q (drop off vs)"
  have read: "mem_read m (sv_values (iw_snapshot work)) (unat (iw_count work)) = Some vs"
    using snap by (simp add: snapshot_holds_def)
  have vs: "length vs = unat (iw_count work)" by (rule mem_read_length [OF read])
  have xs: "mem_read m ?p (unat (pw_quantity r)) = Some ?xs"
    using mem_read_sub [OF read, of "pw_sourceOffset r" q] f(6,9) by (simp add: q_def)
  have part: "unat (pw_upstreamStart r) + unat (pw_quantity r) \<le> unat (im_count ?c)"
    using f(8,9) inside by (simp add: q_def)
  then have cont: "image_contains ?c (pw_upstreamStart r) (pw_quantity r)"
    using f(7) img by (cases "im_values ?c") (auto simp: image_contains_iff q_def)
  have "separate ?p (unat (pw_quantity r)) (im_values ?c) (unat (im_count ?c))"
    using sep f(6,9) by (intro separate_sub) (simp_all add: separate_sym q_def)
  then have apart: "separate (ptr_add (im_values ?c) (pw_upstreamStart r)) (unat (pw_quantity r)) ?p
      (unat (pw_quantity r))"
    using part by (intro separate_sub) (simp_all add: separate_sym)
  from copyFrom_accepts [OF img xs cont] apart obtain m' where
    m': "copyFrom m ?c (pw_upstreamStart r) ?p (pw_quantity r) = Some (True, m')"
      "mem_write m (ptr_add (im_values ?c) (pw_upstreamStart r)) ?xs = Some m'"
      "mem_read m' (im_values ?c) (unat (im_count ?c)) = Some (overwrite (unat (pw_upstreamStart r)) ?xs
         (overwrite (unat (iw_start work)) (take off vs) old))" by blast
  have "transition m c r d = Some (True, m')"
    using confirmed [OF f(11,5) d(1-3)] m'(1) by (simp add: markApplied_def)
  moreover have "snapshot_holds m' work vs"
  proof -
    have "length ?xs = unat (pw_quantity r)" using vs f(9) by (simp add: q_def)
    then show ?thesis
      using mem_write_frame [OF m'(2)] separate_sub [OF sep part] read by (simp add: snapshot_holds_def)
  qed
  moreover have "mem_read m' (im_values ?c) (unat (im_count ?c)) =
      Some (overwrite (unat (iw_start work)) (take (off + unat (pw_quantity r)) vs) old)"
    using m'(3) overwrite_extend [of off q vs "unat (iw_start work)" old] f(8,9) vs len inside
    by (simp add: q_def)
  ultimately show ?thesis
    using d(4) by (intro that [of d a' m']) (simp_all add: d_def a'_def)
qed

text \<open>Any number of confirmed fragments from the start of the planned ones.\<close>

lemma confirm_prefix:
  assumes "fragments T carries p work vs off idx seq (rs @ later)"
    and "seq \<noteq> 0" "idx \<le> off"
    and "rs = [] \<or> aggregate_at work idx a" "snapshot_holds m work vs"
    and "mem_read m (im_values (dc_applied c)) (unat (im_count (dc_applied c))) =
      Some (overwrite (unat (iw_start work)) (take off vs) old)"
    and fixed: "isAccepted (iw_delivery work)" "workCurrent (iw_identity work) session"
      "length old = unat (im_count (dc_applied c))"
      "unat (iw_start work) + unat (iw_count work) \<le> unat (im_count (dc_applied c))"
      "separate (im_values (dc_applied c)) (unat (im_count (dc_applied c)))
        (sv_values (iw_snapshot work)) (unat (iw_count work))"
  shows "\<exists>ds a' m'. confirm_all transition c session (map (\<lambda>r. (r, Outcome_Applied)) rs) a m =
      Some (ds, a', m') \<and>
    notices ds = (if rs \<noteq> [] \<and> later = [] \<and> tracksPublicCompletion (iw_delivery work)
      then [WorkSucceeded] else []) \<and>
    mem_read m' (im_values (dc_applied c)) (unat (im_count (dc_applied c))) =
      Some (overwrite (unat (iw_start work)) (take (off + transferred_values rs) vs) old)"
  using assms(1-6)
proof (induction rs arbitrary: off idx seq a m)
  case Nil
  then show ?case by (simp add: notices_def transferred_values_def)
next
  case (Cons r rs)
  have frag: "fragment_ok T carries p work vs off idx seq r"
    and rest: "fragments T carries p work vs (off + unat (pw_quantity r)) (Suc idx)
      (nextNonZeroSequence32 seq) (rs @ later)"
    using Cons.prems(1) by simp_all
  have agg: "aggregate_at work idx a" using Cons.prems(4) by simp
  obtain d a1 m1 where one:
    "resolveCompletion r \<lparr>cr_identity = pw_identity r, cr_outcome = Outcome_Applied\<rparr> session a = (d, a1)"
    "transition m c r d = Some (True, m1)"
    "cd_notice d = (if pw_finalFragment r \<and> tracksPublicCompletion (iw_delivery work)
       then WorkSucceeded else Notice_None)"
    "pw_finalFragment r \<or> aggregate_at work (Suc idx) a1" "snapshot_holds m1 work vs"
    "mem_read m1 (im_values (dc_applied c)) (unat (im_count (dc_applied c))) =
       Some (overwrite (unat (iw_start work)) (take (off + unat (pw_quantity r)) vs) old)"
    by (rule confirm_fragment [OF frag Cons.prems(2,3) fixed(1,2) agg Cons.prems(5,6) fixed(3-5)])
  have q: "0 < unat (pw_quantity r)" "pw_finalFragment r \<longleftrightarrow> off + unat (pw_quantity r) = unat (iw_count work)"
    using frag by (simp_all add: fragment_ok_def Let_def)
  have final: "pw_finalFragment r \<longleftrightarrow> rs @ later = []"
    using q(2) rest by (cases "rs @ later") (auto simp: fragment_ok_def Let_def)
  have agg1: "rs = [] \<or> aggregate_at work (Suc idx) a1" using one(4) final by auto
  have "Suc idx \<le> off + unat (pw_quantity r)" using Cons.prems(3) q(1) by linarith
  from Cons.IH [OF rest _ this agg1 one(5,6)] obtain ds a' m' where
    "confirm_all transition c session (map (\<lambda>r. (r, Outcome_Applied)) rs) a1 m1 = Some (ds, a', m')"
    "notices ds = (if rs \<noteq> [] \<and> later = [] \<and> tracksPublicCompletion (iw_delivery work)
      then [WorkSucceeded] else [])"
    "mem_read m' (im_values (dc_applied c)) (unat (im_count (dc_applied c))) =
      Some (overwrite (unat (iw_start work))
        (take (off + unat (pw_quantity r) + transferred_values rs) vs) old)"
    by auto
  then show ?case
    using one(1-3) final by (auto simp: notices_def transferred_values_def add.assoc)
qed

text \<open>An accepted work, planned and confirmed from its start.\<close>

lemma confirm_planned:
  assumes "searchable (fp_routes p)" "planner_begin T p work = Some (Plan_Ready, cursor)" "seq \<noteq> 0"
    and "workCurrent (iw_identity work) session" "snapshot_holds m work vs"
    and img: "mem_read m (im_values (dc_applied c)) (unat (im_count (dc_applied c))) = Some old"
    and fixed: "unat (iw_start work) + unat (iw_count work) \<le> unat (im_count (dc_applied c))"
      "separate (im_values (dc_applied c)) (unat (im_count (dc_applied c)))
        (sv_values (iw_snapshot work)) (unat (iw_count work))"
  shows "\<exists>rs. plan_all T m p cursor seq = Some (Next_Complete, rs) \<and>
    (\<exists>ds a' m'. confirm_all transition c session (map (\<lambda>r. (r, Outcome_Applied)) (take k rs))
        (newCompletionAggregate (iw_identity work) (iw_delivery work)) m = Some (ds, a', m') \<and>
      notices ds = (if length rs \<le> k \<and> tracksPublicCompletion (iw_delivery work)
        then [WorkSucceeded] else []) \<and>
      mem_read m' (im_values (dc_applied c)) (unat (im_count (dc_applied c))) =
        Some (overwrite (unat (iw_start work)) (take (transferred_values (take k rs)) vs) old) \<and>
      (if length rs \<le> k then take (transferred_values (take k rs)) vs = vs else True))"
proof -
  from begin_then_plan_all [OF assms(1,5,3,2)] obtain rs where
    rs: "plan_all T m p cursor seq = Some (Next_Complete, rs)"
      "fragments T carries p work vs 0 0 seq rs" "rs \<noteq> []" by blast
  have "begin_status T p work = Plan_Ready"
    using planner_begin_spec [OF assms(1) table_in_routes, of work] assms(2)
    by (auto simp: Let_def split: if_splits)
  then have acc: "isAccepted (iw_delivery work)" by (auto simp: begin_status_def Let_def split: if_splits)
  have frag: "fragments T carries p work vs 0 0 seq (take k rs @ drop k rs)" using rs(2) by simp
  have agg: "take k rs = [] \<or> aggregate_at work 0 (newCompletionAggregate (iw_identity work) (iw_delivery work))"
    by (simp add: aggregate_at_def newCompletionAggregate_def)
  have img0: "mem_read m (im_values (dc_applied c)) (unat (im_count (dc_applied c))) =
      Some (overwrite (unat (iw_start work)) (take 0 vs) old)" using img by simp
  have len: "length old = unat (im_count (dc_applied c))" by (rule mem_read_length [OF img])
  have vs: "length vs = unat (iw_count work)"
    using assms(5) mem_read_length unfolding snapshot_holds_def by blast
  from confirm_prefix [OF frag assms(3) le_refl agg assms(5) img0 acc assms(4) len fixed]
  obtain ds a' m' where
    "confirm_all transition c session (map (\<lambda>r. (r, Outcome_Applied)) (take k rs))
       (newCompletionAggregate (iw_identity work) (iw_delivery work)) m = Some (ds, a', m')"
    "notices ds = (if take k rs \<noteq> [] \<and> drop k rs = [] \<and> tracksPublicCompletion (iw_delivery work)
      then [WorkSucceeded] else [])"
    "mem_read m' (im_values (dc_applied c)) (unat (im_count (dc_applied c))) =
       Some (overwrite (unat (iw_start work)) (take (transferred_values (take k rs)) vs) old)" by auto
  moreover have "take (transferred_values rs) vs = vs"
  proof -
    have "off + transferred_values rs = unat (iw_count work)"
      if "fragments T carries p work vs off idx seq rs" for off idx seq rs
      using that by (induction rs arbitrary: off idx seq) (force simp: transferred_values_def simp flip: add.assoc)+
    from this [OF rs(2)] vs show ?thesis by simp
  qed
  ultimately show ?thesis using rs(1,3) by (intro exI [of _ rs]) auto
qed

end

section \<open>Properties\<close>

lemma confirmed_coil_work_reaches_image:
  assumes "searchable (fp_routes p)" "planner_begin coil_traits p work = Some (Plan_Ready, cursor)" "seq \<noteq> 0"
    and "workCurrent (iw_identity work) session" "snapshot_holds m work vs"
    and "mem_read m (im_values (dc_applied c)) (unat (im_count (dc_applied c))) = Some old"
    and "unat (iw_start work) + unat (iw_count work) \<le> unat (im_count (dc_applied c))"
    and "separate (im_values (dc_applied c)) (unat (im_count (dc_applied c)))
      (sv_values (iw_snapshot work)) (unat (iw_count work))"
  shows "\<exists>rs. plan_all coil_traits m p cursor seq = Some (Next_Complete, rs) \<and>
    (\<exists>ds a' m'. confirm_all apply_coil_transition c session
        (map (\<lambda>r. (r, Outcome_Applied)) (take k rs))
        (newCompletionAggregate (iw_identity work) (iw_delivery work)) m = Some (ds, a', m') \<and>
      notices ds = (if length rs \<le> k \<and> tracksPublicCompletion (iw_delivery work)
        then [WorkSucceeded] else []) \<and>
      mem_read m' (im_values (dc_applied c)) (unat (im_count (dc_applied c))) =
        Some (overwrite (unat (iw_start work))
          (if length rs \<le> k then vs else take (transferred_values (take k rs)) vs) old))"
  using coil_image.confirm_planned [OF assms, of k] by (fastforce split: if_splits)

text \<open>
  C11. What the planner planned and the master confirmed ends up in the applied image. For a
  holding work that the planner accepts, resolving the first \<open>k\<close> planned requests as \<open>Applied\<close> in
  planner order and applying each decision never fails, and the applied image then holds
  exactly the values those requests transferred over what it held before; once all of them
  are confirmed it holds the whole snapshot at the work's place. A tracked work reports
  success exactly once, with the last request, and nothing before.
\<close>

theorem confirmed_work_reaches_image:
  assumes "searchable (fp_routes p)" "planner_begin holding_traits p work = Some (Plan_Ready, cursor)" "seq \<noteq> 0"
    and "workCurrent (iw_identity work) session" "snapshot_holds m work vs"
    and "mem_read m (im_values (dc_applied c)) (unat (im_count (dc_applied c))) = Some old"
    and "unat (iw_start work) + unat (iw_count work) \<le> unat (im_count (dc_applied c))"
    and "separate (im_values (dc_applied c)) (unat (im_count (dc_applied c)))
      (sv_values (iw_snapshot work)) (unat (iw_count work))"
  shows "\<exists>rs. plan_all holding_traits m p cursor seq = Some (Next_Complete, rs) \<and>
    (\<exists>ds a' m'. confirm_all apply_holding_transition c session
        (map (\<lambda>r. (r, Outcome_Applied)) (take k rs))
        (newCompletionAggregate (iw_identity work) (iw_delivery work)) m = Some (ds, a', m') \<and>
      notices ds = (if length rs \<le> k \<and> tracksPublicCompletion (iw_delivery work)
        then [WorkSucceeded] else []) \<and>
      mem_read m' (im_values (dc_applied c)) (unat (im_count (dc_applied c))) =
        Some (overwrite (unat (iw_start work))
          (if length rs \<le> k then vs else take (transferred_values (take k rs)) vs) old))"
  using holding_image.confirm_planned [OF assms, of k] by (fastforce split: if_splits)

definition example_store :: "u16 mem" where
  "example_store = [0 \<mapsto> [11, 12, 13, 14, 15], 1 \<mapsto> replicate 110 0]"

definition example_cache :: "u16 DesiredAppliedCache" where
  "example_cache = \<lparr>dc_visible = \<lparr>im_values = Null, im_count = 0\<rparr>,
     dc_applied = \<lparr>im_values = Ptr 1 0, im_count = 110\<rparr>\<rparr>"

lemma confirmed_work_reaches_image_witness:
  "\<exists>rs ds a' m'. plan_all holding_traits example_store example_planner (begin_cursor example_work) 1 =
      Some (Next_Complete, rs) \<and>
    confirm_all apply_holding_transition example_cache example_session
      (map (\<lambda>r. (r, Outcome_Applied)) rs)
      (newCompletionAggregate (iw_identity example_work) (iw_delivery example_work)) example_store =
      Some (ds, a', m') \<and>
    notices ds = [WorkSucceeded] \<and>
    mem_read m' (Ptr 1 0) 110 = Some (overwrite 102 [11, 12, 13, 14, 15] (replicate 110 0))"
proof -
  have current: "workCurrent (iw_identity example_work) example_session" by code_simp
  have snap: "snapshot_holds example_store example_work [11, 12, 13, 14, 15]"
    by (simp add: snapshot_holds_def example_store_def example_work_def makeHoldingIngressWork_def)
  have image: "mem_read example_store (im_values (dc_applied example_cache))
      (unat (im_count (dc_applied example_cache))) = Some (replicate 110 0)"
    by (simp add: example_store_def example_cache_def)
  have place: "unat (iw_start example_work) + unat (iw_count example_work)
        \<le> unat (im_count (dc_applied example_cache))"
      "separate (im_values (dc_applied example_cache)) (unat (im_count (dc_applied example_cache)))
        (sv_values (iw_snapshot example_work)) (unat (iw_count example_work))"
    by (simp_all add: example_cache_def example_work_def makeHoldingIngressWork_def)
  have work: "unat (iw_start example_work) = 102" "unat (iw_count example_work) = 5"
      "iw_delivery example_work = Tracked" "im_values (dc_applied example_cache) = Ptr 1 0"
      "unat (im_count (dc_applied example_cache)) = 110"
    by (simp_all add: example_cache_def example_work_def makeHoldingIngressWork_def)
  from confirmed_work_reaches_image [OF example_planner_searchable example_work_begins _ current snap
      image place, of 1 5] obtain rs ds a' m' where
    r: "plan_all holding_traits example_store example_planner (begin_cursor example_work) 1 =
        Some (Next_Complete, rs)"
      "confirm_all apply_holding_transition example_cache example_session
        (map (\<lambda>r. (r, Outcome_Applied)) (take 5 rs))
        (newCompletionAggregate (iw_identity example_work) (iw_delivery example_work)) example_store =
       Some (ds, a', m')"
      "notices ds = (if length rs \<le> 5 then [WorkSucceeded] else [])"
      "mem_read m' (Ptr 1 0) 110 = Some (overwrite 102
        (if length rs \<le> 5 then [11, 12, 13, 14, 15]
         else take (transferred_values (take 5 rs)) [11, 12, 13, 14, 15]) (replicate 110 0))"
    unfolding work by (auto simp: tracksPublicCompletion_def)
  from holding.begin_then_plan_all [OF example_planner_searchable snap _ example_work_begins, of 1] r(1)
  have "length rs \<le> 5" by (auto simp: work)
  with r show ?thesis by auto
qed

end
