(* ===== verification/Fixed_Storage.thy ===== *)
theory Fixed_Storage
  imports Bridge_Prelude
begin

text \<open>
  Model of \<open>FixedStorage.h\<close>: the fixed-capacity ring queue over a caller's array. The
  array is \<open>None\<close> for a null pointer and otherwise the list of its constructed elements.
  Reading or writing outside of the array is undefined (\<open>None\<close>).
\<close>

record 'e FixedRingQueue =
  rq_storage :: "'e list option"
  rq_capacity :: u16
  rq_head :: u16
  rq_size :: u16

definition newRingQueue :: "'e list option \<Rightarrow> u16 \<Rightarrow> 'e FixedRingQueue" where
  "newRingQueue storage capacity =
     \<lparr>rq_storage = storage, rq_capacity = capacity, rq_head = 0, rq_size = 0\<rparr>"

definition rq_validStorage :: "'e FixedRingQueue \<Rightarrow> bool" where
  "rq_validStorage q \<longleftrightarrow> rq_capacity q = 0 \<or> rq_storage q \<noteq> None"

definition rq_empty :: "'e FixedRingQueue \<Rightarrow> bool" where
  "rq_empty q \<longleftrightarrow> rq_size q = 0"

definition rq_full :: "'e FixedRingQueue \<Rightarrow> bool" where
  "rq_full q \<longleftrightarrow> rq_size q = rq_capacity q"

definition rq_increment :: "'e FixedRingQueue \<Rightarrow> u16 \<Rightarrow> u16" where
  "rq_increment q index = (if index + 1 = rq_capacity q then 0 else index + 1)"

definition physicalIndex :: "'e FixedRingQueue \<Rightarrow> u16 \<Rightarrow> u16" where
  "physicalIndex q logicalIndex =
     (let sum = (ucast (rq_head q) + ucast logicalIndex :: u32) in
      ucast (if sum \<ge> ucast (rq_capacity q) then sum - ucast (rq_capacity q) else sum))"

definition rq_load :: "'e FixedRingQueue \<Rightarrow> u16 \<Rightarrow> 'e option" where
  "rq_load q i =
     (case rq_storage q of
        None \<Rightarrow> None
      | Some xs \<Rightarrow> if unat i < length xs then Some (xs ! unat i) else None)"

definition rq_store :: "'e FixedRingQueue \<Rightarrow> u16 \<Rightarrow> 'e \<Rightarrow> 'e FixedRingQueue option" where
  "rq_store q i x =
     (case rq_storage q of
        None \<Rightarrow> None
      | Some xs \<Rightarrow>
          if unat i < length xs then Some (q\<lparr>rq_storage := Some (xs[unat i := x])\<rparr>) else None)"

definition tryPush :: "'e FixedRingQueue \<Rightarrow> 'e \<Rightarrow> (bool \<times> 'e FixedRingQueue) option" where
  "tryPush q value =
     (if \<not> rq_validStorage q \<or> rq_full q then Some (False, q)
      else do { q' \<leftarrow> rq_store q (physicalIndex q (rq_size q)) value;
                Some (True, q'\<lparr>rq_size := rq_size q' + 1\<rparr>) })"

definition popFront :: "'e FixedRingQueue \<Rightarrow> bool \<times> 'e FixedRingQueue" where
  "popFront q =
     (if rq_empty q \<or> \<not> rq_validStorage q then (False, q)
      else let q1 = q\<lparr>rq_head := rq_increment q (rq_head q), rq_size := rq_size q - 1\<rparr> in
           (True, if rq_size q1 = 0 then q1\<lparr>rq_head := 0\<rparr> else q1))"

text \<open>\<open>tryPop\<close> assigns its out parameter only when it succeeds.\<close>

definition tryPop :: "'e FixedRingQueue \<Rightarrow> ('e option \<times> 'e FixedRingQueue) option" where
  "tryPop q =
     (if rq_empty q \<or> \<not> rq_validStorage q then Some (None, q)
      else do { x \<leftarrow> rq_load q (rq_head q); Some (Some x, snd (popFront q)) })"

text \<open>
  \<open>front\<close> and \<open>at\<close> return an element pointer, null when there is no element. The model
  returns the physical index; reading and updating the element are \<open>rq_load\<close> and
  \<open>rq_store\<close> at that index.
\<close>

definition rq_front :: "'e FixedRingQueue \<Rightarrow> u16 option" where
  "rq_front q = (if rq_empty q \<or> \<not> rq_validStorage q then None else Some (rq_head q))"

definition rq_at :: "'e FixedRingQueue \<Rightarrow> u16 \<Rightarrow> u16 option" where
  "rq_at q logicalIndex =
     (if logicalIndex < rq_size q \<and> rq_validStorage q
      then Some (physicalIndex q logicalIndex) else None)"

definition rq_clear :: "'e FixedRingQueue \<Rightarrow> 'e FixedRingQueue" where
  "rq_clear q = q\<lparr>rq_head := 0, rq_size := 0\<rparr>"

section \<open>The contract of a bounded queue\<close>

text \<open>
  What the clients of the queue rely on: \<open>contents\<close> is the FIFO list, \<open>room\<close> the fixed
  capacity; a push appends and reports whether there was room, a pop removes the oldest
  element, \<open>peek\<close> reads it and \<open>poke\<close> overwrites it in place.
\<close>

locale bounded_queue =
  fixes inv :: "'q \<Rightarrow> bool"
    and contents :: "'q \<Rightarrow> 'e list"
    and room :: "'q \<Rightarrow> nat"
    and push :: "'q \<Rightarrow> 'e \<Rightarrow> (bool \<times> 'q) option"
    and pop :: "'q \<Rightarrow> ('e option \<times> 'q) option"
  assumes within_room: "inv q \<Longrightarrow> length (contents q) \<le> room q"
    and push_law: "inv q \<Longrightarrow> \<exists>q'. push q x = Some (length (contents q) < room q, q') \<and>
          inv q' \<and> room q' = room q \<and>
          contents q' = (if length (contents q) < room q then contents q @ [x] else contents q)"
    and pop_law: "inv q \<Longrightarrow> \<exists>q'. pop q = Some (if contents q = [] then None else Some (hd (contents q)), q') \<and>
          inv q' \<and> room q' = room q \<and> contents q' = tl (contents q)"

locale updatable_queue = bounded_queue inv contents room push pop
  for inv :: "'q \<Rightarrow> bool" and contents :: "'q \<Rightarrow> 'e list" and room push pop +
  fixes peek :: "'q \<Rightarrow> 'e option option"
    and poke :: "'q \<Rightarrow> 'e \<Rightarrow> 'q option"
    and drop_front :: "'q \<Rightarrow> 'q"
  assumes peek_law: "inv q \<Longrightarrow> peek q = Some (if contents q = [] then None else Some (hd (contents q)))"
    and poke_law: "inv q \<Longrightarrow> contents q \<noteq> [] \<Longrightarrow>
          \<exists>q'. poke q x = Some q' \<and> inv q' \<and> room q' = room q \<and> contents q' = x # tl (contents q)"
    and drop_law: "inv q \<Longrightarrow> inv (drop_front q) \<and> room (drop_front q) = room q \<and>
          contents (drop_front q) = tl (contents q)"

text \<open>Scripts of pushes and pops, on an implementation and on the list specification.\<close>

datatype 'e queue_op = Push_op 'e | Pop_op

datatype 'e queue_result = Pushed bool | Popped "'e option"

fun run_queue ::
  "('q \<Rightarrow> 'e \<Rightarrow> (bool \<times> 'q) option) \<Rightarrow> ('q \<Rightarrow> ('e option \<times> 'q) option) \<Rightarrow>
     'e queue_op list \<Rightarrow> 'q \<Rightarrow> ('e queue_result list \<times> 'q) option" where
  "run_queue push pop [] q = Some ([], q)"
| "run_queue push pop (Push_op x # ops) q = do {
     (ok, q') \<leftarrow> push q x;
     (rs, q'') \<leftarrow> run_queue push pop ops q';
     Some (Pushed ok # rs, q'') }"
| "run_queue push pop (Pop_op # ops) q = do {
     (r, q') \<leftarrow> pop q;
     (rs, q'') \<leftarrow> run_queue push pop ops q';
     Some (Popped r # rs, q'') }"

fun run_list :: "nat \<Rightarrow> 'e queue_op list \<Rightarrow> 'e list \<Rightarrow> 'e queue_result list \<times> 'e list" where
  "run_list n [] xs = ([], xs)"
| "run_list n (Push_op x # ops) xs =
     (let (rs, ys) = run_list n ops (if length xs < n then xs @ [x] else xs)
      in (Pushed (length xs < n) # rs, ys))"
| "run_list n (Pop_op # ops) xs =
     (let (rs, ys) = run_list n ops (tl xs)
      in (Popped (if xs = [] then None else Some (hd xs)) # rs, ys))"

context bounded_queue
begin

lemma run_refines_list:
  "inv q \<Longrightarrow> \<exists>q'. run_queue push pop ops q = Some (fst (run_list (room q) ops (contents q)), q') \<and>
     inv q' \<and> room q' = room q \<and> contents q' = snd (run_list (room q) ops (contents q))"
proof (induction ops arbitrary: q)
  case Nil
  then show ?case by simp
next
  case (Cons op ops)
  show ?case
  proof (cases op)
    case (Push_op x)
    from push_law [OF Cons.prems, of x] Cons.IH show ?thesis
      unfolding Push_op by (fastforce simp: split_beta)
  next
    case Pop_op
    from pop_law [OF Cons.prems] Cons.IH show ?thesis
      unfolding Pop_op by (fastforce simp: split_beta)
  qed
qed

end

section \<open>The ring implements the contract\<close>

text \<open>The wrapped array position of the \<open>i\<close>-th element from \<open>h\<close> in a ring of \<open>c\<close> slots.\<close>

definition wrap :: "nat \<Rightarrow> nat \<Rightarrow> nat" where
  "wrap c x = (if x < c then x else x - c)"

definition ring_list :: "'e FixedRingQueue \<Rightarrow> 'e list" where
  "ring_list q =
     map (\<lambda>i. the (rq_storage q) ! wrap (unat (rq_capacity q)) (unat (rq_head q) + i))
       [0..<unat (rq_size q)]"

definition ring_room :: "'e FixedRingQueue \<Rightarrow> nat" where
  "ring_room q = unat (rq_capacity q)"

definition ring_ok :: "'e FixedRingQueue \<Rightarrow> bool" where
  "ring_ok q \<longleftrightarrow>
     unat (rq_size q) \<le> unat (rq_capacity q) \<and>
     (if rq_size q = 0 then rq_head q = 0 else unat (rq_head q) < unat (rq_capacity q)) \<and>
     (case rq_storage q of None \<Rightarrow> rq_capacity q = 0
                         | Some xs \<Rightarrow> unat (rq_capacity q) \<le> length xs)"

definition ring_peek :: "'e FixedRingQueue \<Rightarrow> 'e option option" where
  "ring_peek q =
     (case rq_front q of None \<Rightarrow> Some None | Some i \<Rightarrow> do { x \<leftarrow> rq_load q i; Some (Some x) })"

definition ring_poke :: "'e FixedRingQueue \<Rightarrow> 'e \<Rightarrow> 'e FixedRingQueue option" where
  "ring_poke q x = (case rq_front q of None \<Rightarrow> None | Some i \<Rightarrow> rq_store q i x)"

lemma length_ring_list [simp]: "length (ring_list q) = unat (rq_size q)"
  by (simp add: ring_list_def)

lemma ring_list_Nil [simp]: "ring_list q = [] \<longleftrightarrow> rq_size q = 0"
  by (metis length_0_conv length_ring_list unat_eq_0)

lemma ring_nonempty:
  assumes "ring_ok q" "rq_size q \<noteq> 0"
  obtains xs where "rq_storage q = Some xs" "unat (rq_capacity q) \<le> length xs"
    "unat (rq_head q) < unat (rq_capacity q)" "rq_validStorage q"
proof -
  have "0 < unat (rq_capacity q)"
    using assms by (auto simp: ring_ok_def)
  then have "rq_capacity q \<noteq> 0" by auto
  then obtain xs where "rq_storage q = Some xs" "unat (rq_capacity q) \<le> length xs"
    using assms by (auto simp: ring_ok_def split: option.splits)
  then show ?thesis
    using assms by (intro that [of xs]) (auto simp: ring_ok_def rq_validStorage_def)
qed

lemma unat_physicalIndex:
  assumes "unat (rq_head q) < unat (rq_capacity q)" "unat i < unat (rq_capacity q)"
  shows "unat (physicalIndex q i) = wrap (unat (rq_capacity q)) (unat (rq_head q) + unat i)"
proof -
  let ?s = "ucast (rq_head q) + ucast i :: u32"
  have s: "unat ?s = unat (rq_head q) + unat i" by (simp add: width_simps)
  have "unat (if ?s \<ge> ucast (rq_capacity q) then ?s - ucast (rq_capacity q) else ?s) =
      wrap (unat (rq_capacity q)) (unat (rq_head q) + unat i)"
    using s by (simp add: wrap_def unat_order width_simps unat_sub)
  moreover have "wrap (unat (rq_capacity q)) (unat (rq_head q) + unat i) < 65536"
    using assms unat_u16_bound [of "rq_capacity q"]
    by (cases "unat (rq_head q) + unat i < unat (rq_capacity q)")
      (auto simp: wrap_def simp del: unat_u16_bound)
  ultimately show ?thesis
    by (simp only: physicalIndex_def Let_def unat_narrow mod_less)
qed

lemma ring_new: "case storage of None \<Rightarrow> capacity = 0 | Some xs \<Rightarrow> unat capacity \<le> length xs \<Longrightarrow>
  ring_ok (newRingQueue storage capacity) \<and> ring_list (newRingQueue storage capacity) = []"
  by (auto simp: ring_ok_def newRingQueue_def ring_list_def split: option.splits)

lemma ring_head:
  assumes "ring_ok q" "rq_size q \<noteq> 0" "rq_storage q = Some xs"
  shows "hd (ring_list q) = xs ! unat (rq_head q)"
proof -
  have "0 < unat (rq_size q)" using assms(2) by (simp add: unat_gt_0)
  then show ?thesis
    using assms by (simp add: ring_list_def hd_map upt_conv_Cons wrap_def ring_ok_def)
qed

lemma ring_push_law:
  assumes "ring_ok q"
  shows "\<exists>q'. tryPush q x = Some (length (ring_list q) < ring_room q, q') \<and> ring_ok q' \<and>
    ring_room q' = ring_room q \<and>
    ring_list q' = (if length (ring_list q) < ring_room q then ring_list q @ [x] else ring_list q)"
proof (cases "rq_full q")
  case True
  with assms show ?thesis by (auto simp: tryPush_def rq_full_def ring_room_def)
next
  case False
  let ?c = "unat (rq_capacity q)" and ?h = "unat (rq_head q)" and ?n = "unat (rq_size q)"
  have n: "?n < ?c"
    using False assms by (auto simp: rq_full_def ring_ok_def unat_eq_iff)
  then have "rq_capacity q \<noteq> 0" by auto
  then obtain xs where xs: "rq_storage q = Some xs" "?c \<le> length xs"
    using assms by (auto simp: ring_ok_def split: option.splits)
  have h: "?h < ?c" using assms n by (auto simp: ring_ok_def split: if_splits)
  define k where "k = wrap ?c (?h + ?n)"
  have k: "unat (physicalIndex q (rq_size q)) = k"
    using unat_physicalIndex [OF h n] by (simp add: k_def)
  have kl: "k < length xs" using h n xs(2) by (auto simp: k_def wrap_def)
  have size: "unat (rq_size q + 1) = Suc ?n"
    using n by (rule unat_Suc_below)
  define q' where "q' = q\<lparr>rq_storage := Some (xs[k := x]), rq_size := rq_size q + 1\<rparr>"
  have "tryPush q x = Some (True, q')"
    using False \<open>rq_capacity q \<noteq> 0\<close> xs kl k
    by (simp add: tryPush_def rq_validStorage_def rq_store_def q'_def)
  moreover have "ring_ok q'"
    using assms n xs h size by (auto simp: ring_ok_def q'_def unat_eq_iff)
  moreover have "ring_list q' = ring_list q @ [x]"
  proof -
    have "xs[k := x] ! wrap ?c (?h + i) = xs ! wrap ?c (?h + i)" if "i < ?n" for i
      using that n h by (intro nth_list_update_neq) (auto simp: k_def wrap_def)
    moreover have "xs[k := x] ! wrap ?c (?h + ?n) = x"
      using kl by (simp add: k_def)
    ultimately show ?thesis
      by (simp add: ring_list_def q'_def size xs)
  qed
  ultimately show ?thesis
    using n by (intro exI [of _ q']) (simp add: ring_room_def q'_def)
qed

lemma ring_drop_law:
  assumes "ring_ok q"
  shows "ring_ok (snd (popFront q)) \<and> ring_room (snd (popFront q)) = ring_room q \<and>
    ring_list (snd (popFront q)) = tl (ring_list q)"
proof (cases "rq_size q = 0")
  case True
  with assms show ?thesis
    by (simp add: popFront_def rq_empty_def) (simp add: ring_list_def)
next
  case False
  from ring_nonempty [OF assms False] obtain xs where xs: "rq_storage q = Some xs"
      "unat (rq_capacity q) \<le> length xs" and h: "unat (rq_head q) < unat (rq_capacity q)"
    and v: "rq_validStorage q" by metis
  let ?c = "unat (rq_capacity q)" and ?h = "unat (rq_head q)" and ?n = "unat (rq_size q)"
  have n: "?n \<le> ?c" using assms by (simp add: ring_ok_def)
  have size: "unat (rq_size q - 1) = ?n - 1" using False by (rule unat_minus_one)
  have inc: "unat (rq_increment q (rq_head q)) = wrap ?c (?h + 1)"
    using h unat_Suc_below [OF h] by (auto simp: rq_increment_def wrap_def unat_eq_iff)
  have tl_list: "tl (ring_list q) = map (\<lambda>i. xs ! wrap ?c (?h + i)) [1..<?n]"
    using xs by (simp add: ring_list_def flip: map_tl)
  have shift: "map (\<lambda>i. xs ! wrap ?c (wrap ?c (?h + 1) + i)) [0..<?n - 1] =
      map (\<lambda>i. xs ! wrap ?c (?h + i)) [1..<?n]"
  proof (intro nth_equalityI)
    fix i assume "i < length (map (\<lambda>i. xs ! wrap ?c (wrap ?c (?h + 1) + i)) [0..<?n - 1])"
    then have "wrap ?c (wrap ?c (?h + 1) + i) = wrap ?c (?h + (1 + i))"
      using h n unfolding wrap_def by (simp split: if_splits) linarith
    with \<open>i < _\<close> show "map (\<lambda>i. xs ! wrap ?c (wrap ?c (?h + 1) + i)) [0..<?n - 1] ! i =
        map (\<lambda>i. xs ! wrap ?c (?h + i)) [1..<?n] ! i" by simp
  qed simp
  show ?thesis
  proof (cases "rq_size q - 1 = 0")
    case True
    then have "tl (ring_list q) = []" using size by (simp add: tl_list)
    with True False v assms show ?thesis
      by (simp add: popFront_def rq_empty_def Let_def ring_ok_def ring_room_def ring_list_def
          split: option.splits)
  next
    case one: False
    with False v assms h n shift tl_list size inc xs show ?thesis
      by (simp add: popFront_def rq_empty_def Let_def ring_ok_def ring_room_def ring_list_def)
        (auto simp: wrap_def)
  qed
qed

lemma ring_pop_law:
  assumes "ring_ok q"
  shows "\<exists>q'. tryPop q = Some (if ring_list q = [] then None else Some (hd (ring_list q)), q') \<and>
    ring_ok q' \<and> ring_room q' = ring_room q \<and> ring_list q' = tl (ring_list q)"
proof (cases "rq_size q = 0")
  case True
  with assms show ?thesis by (simp add: tryPop_def rq_empty_def) (simp add: ring_list_def)
next
  case False
  from ring_nonempty [OF assms False] obtain xs where xs: "rq_storage q = Some xs"
      "unat (rq_capacity q) \<le> length xs" "unat (rq_head q) < unat (rq_capacity q)"
    and v: "rq_validStorage q" by metis
  then have "tryPop q = Some (Some (hd (ring_list q)), snd (popFront q))"
    using False ring_head [OF assms False xs(1)]
    by (simp add: tryPop_def rq_empty_def rq_load_def)
  with False ring_drop_law [OF assms] show ?thesis by simp
qed

lemma ring_peek_law:
  assumes "ring_ok q"
  shows "ring_peek q = Some (if ring_list q = [] then None else Some (hd (ring_list q)))"
proof (cases "rq_size q = 0")
  case True
  then show ?thesis by (simp add: ring_peek_def rq_front_def rq_empty_def)
next
  case False
  from ring_nonempty [OF assms False] obtain xs where xs: "rq_storage q = Some xs"
      "unat (rq_capacity q) \<le> length xs" "unat (rq_head q) < unat (rq_capacity q)"
      "rq_validStorage q" by metis
  then show ?thesis
    using False ring_head [OF assms False xs(1)]
    by (simp add: ring_peek_def rq_front_def rq_empty_def rq_load_def)
qed

lemma ring_poke_law:
  assumes "ring_ok q" "ring_list q \<noteq> []"
  shows "\<exists>q'. ring_poke q x = Some q' \<and> ring_ok q' \<and> ring_room q' = ring_room q \<and>
    ring_list q' = x # tl (ring_list q)"
proof -
  have False: "rq_size q \<noteq> 0" using assms(2) by simp
  from ring_nonempty [OF assms(1) False] obtain xs where xs: "rq_storage q = Some xs"
      "unat (rq_capacity q) \<le> length xs" and h: "unat (rq_head q) < unat (rq_capacity q)"
    and v: "rq_validStorage q" by metis
  let ?c = "unat (rq_capacity q)" and ?h = "unat (rq_head q)" and ?n = "unat (rq_size q)"
  have n: "0 < ?n" "?n \<le> ?c" using False assms(1) by (simp_all add: ring_ok_def unat_gt_0)
  define q' where "q' = q\<lparr>rq_storage := Some (xs[?h := x])\<rparr>"
  have "ring_poke q x = Some q'"
    using False v xs h by (simp add: ring_poke_def rq_front_def rq_empty_def rq_store_def q'_def)
  moreover have "ring_ok q'" using assms(1) xs by (simp add: ring_ok_def q'_def)
  moreover have "ring_list q' = x # tl (ring_list q)"
  proof -
    have "xs[?h := x] ! wrap ?c (?h + i) = xs ! wrap ?c (?h + i)" if "0 < i" "i < ?n" for i
      using that n h by (intro nth_list_update_neq) (auto simp: wrap_def)
    moreover have "xs[?h := x] ! wrap ?c ?h = x" using h xs(2) by (simp add: wrap_def)
    moreover have "[0..<?n] = 0 # [1..<?n]" using n by (simp add: upt_conv_Cons)
    ultimately show ?thesis
      using xs by (simp add: ring_list_def q'_def)
  qed
  ultimately show ?thesis by (simp add: ring_room_def q'_def)
qed

interpretation ring: updatable_queue ring_ok ring_list ring_room tryPush tryPop
    ring_peek ring_poke "\<lambda>q. snd (popFront q)"
proof (unfold_locales, goal_cases)
  case (1 q)
  then show ?case by (simp add: ring_ok_def ring_room_def)
next
  case (2 q x)
  then show ?case by (rule ring_push_law)
next
  case (3 q)
  then show ?case by (rule ring_pop_law)
next
  case (4 q)
  then show ?case by (rule ring_peek_law)
next
  case (5 q x)
  then show ?case by (rule ring_poke_law)
next
  case (6 q)
  then show ?case by (rule ring_drop_law)
qed

section \<open>Properties\<close>

text \<open>
  C18. Any script of pushes and pops on a ring over the caller's array returns, never leaves
  the array, and gives the results and the final contents of the same script on a list
  bounded by the capacity: full pushes fail without overwriting, pops come out in FIFO order.
\<close>

theorem ring_refines_bounded_list:
  assumes "ring_ok q"
  shows "\<exists>q'. run_queue tryPush tryPop ops q =
      Some (fst (run_list (unat (rq_capacity q)) ops (ring_list q)), q') \<and>
    ring_ok q' \<and> rq_capacity q' = rq_capacity q \<and>
    ring_list q' = snd (run_list (unat (rq_capacity q)) ops (ring_list q))"
  using ring.run_refines_list [OF assms, of ops]
  by (auto simp: ring_room_def unat_eq_iff)

lemma ring_refines_bounded_list_witness:
  "\<exists>q'. run_queue tryPush tryPop [Push_op 5, Push_op 6, Push_op 7, Pop_op]
      (newRingQueue (Some [0, 0 :: nat]) 2) =
        Some ([Pushed True, Pushed True, Pushed False, Popped (Some 5)], q') \<and> ring_list q' = [6]"
proof -
  have "ring_ok (newRingQueue (Some [0, 0 :: nat]) 2)" by (simp add: ring_new)
  from ring_refines_bounded_list [OF this, of "[Push_op 5, Push_op 6, Push_op 7, Pop_op]"]
  moreover have "ring_list (newRingQueue (Some [0, 0 :: nat]) 2) = []"
    "rq_capacity (newRingQueue (Some [0, 0 :: nat]) 2) = 2"
    by (simp_all add: newRingQueue_def)
  ultimately show ?thesis by auto
qed

end
