(* ===== verification/Store_Forward_Bridge.thy ===== *)
theory Store_Forward_Bridge
  imports Fixed_Storage Completion_Ledger Poll_Planner
begin

text \<open>
  Model of \<open>StoreForwardBridge.h\<close>: the cooperative facade over the work queue, the
  completion ledger, the forward planner and the poll planner. Each method takes the bridge
  state (and the payload memory where it reads snapshots) and returns its result next to the
  new state. The ledger reference is held by value: the facade is its only user between two
  calls, which is the documented ownership rule.
\<close>

section \<open>Data\<close>

text \<open>The two payload memories a bridge reads snapshots from.\<close>

record memory =
  mm_coils :: "bool mem"
  mm_registers :: "u16 mem"

definition downstreamRequestFor :: "PlannedWriteRequest \<Rightarrow> void_ptr \<Rightarrow> DownstreamRequest" where
  "downstreamRequestFor planned consistencyContext =
     \<lparr>dr_sequence = ri_requestSequence (pw_identity planned),
      dr_operation = pw_operation planned,
      dr_endpointId = pw_endpointId planned,
      dr_startAddress = pw_downstreamStart planned,
      dr_quantity = pw_quantity planned,
      dr_coilBuffer = pw_coilValues planned,
      dr_registerBuffer = pw_holdingValues planned,
      dr_coilValue = pw_coilValue planned,
      dr_registerValue = pw_holdingValue planned,
      dr_consistencyContext = consistencyContext\<rparr>"

definition isPollOperation :: "DownstreamOperation \<Rightarrow> bool" where
  "isPollOperation operation =
     (case operation of
        ReadCoils \<Rightarrow> True
      | ReadDiscreteInputs \<Rightarrow> True
      | ReadHoldingRegisters \<Rightarrow> True
      | ReadInputRegisters \<Rightarrow> True
      | _ \<Rightarrow> False)"

record StoreForwardWorkSlot =
  sw_table :: RegisterTable
  sw_workIdentity :: WorkIdentity
  sw_upstreamStart :: u16
  sw_quantity :: u16
  sw_workDelivery :: IngressDelivery
  sw_snapshot :: void_ptr
  sw_nextAddress :: u16
  sw_remaining :: u16
  sw_sourceOffset :: u16
  sw_fragmentIndex :: u16
  sw_active :: bool
  sw_userContext :: void_ptr

definition emptyWorkSlot :: StoreForwardWorkSlot where
  "emptyWorkSlot =
     \<lparr>sw_table = Coils, sw_workIdentity = noWork, sw_upstreamStart = 0, sw_quantity = 0,
      sw_workDelivery = Rejected, sw_snapshot = Null, sw_nextAddress = 0, sw_remaining = 0,
      sw_sourceOffset = 0, sw_fragmentIndex = 0, sw_active = False, sw_userContext = Null\<rparr>"

definition newWorkSlot ::
  "RegisterTable \<Rightarrow> 'v IngressWorkView \<Rightarrow> 'v ForwardCursor \<Rightarrow> void_ptr \<Rightarrow> StoreForwardWorkSlot" where
  "newWorkSlot table work cursor context =
     \<lparr>sw_table = table, sw_workIdentity = iw_identity work, sw_upstreamStart = iw_start work,
      sw_quantity = iw_count work, sw_workDelivery = iw_delivery work,
      sw_snapshot = cast_ptr (sv_values (iw_snapshot work)),
      sw_nextAddress = fc_nextAddress cursor, sw_remaining = fc_remaining cursor,
      sw_sourceOffset = fc_sourceOffset cursor, sw_fragmentIndex = fc_fragmentIndex cursor,
      sw_active = fc_active cursor, sw_userContext = context\<rparr>"

text \<open>\<open>asCoilCursor\<close> and \<open>asHoldingCursor\<close>, with \<open>copyStateTo\<close> inlined.\<close>

definition slotCursor :: "StoreForwardWorkSlot \<Rightarrow> 'v ForwardCursor" where
  "slotCursor slot =
     \<lparr>fc_work = \<lparr>iw_identity = sw_workIdentity slot, iw_start = sw_upstreamStart slot,
        iw_count = sw_quantity slot, iw_delivery = sw_workDelivery slot,
        iw_snapshot = \<lparr>sv_values = cast_ptr (sw_snapshot slot), sv_count = sw_quantity slot\<rparr>\<rparr>,
      fc_nextAddress = sw_nextAddress slot, fc_remaining = sw_remaining slot,
      fc_sourceOffset = sw_sourceOffset slot, fc_fragmentIndex = sw_fragmentIndex slot,
      fc_active = sw_active slot\<rparr>"

definition asCoilCursor :: "StoreForwardWorkSlot \<Rightarrow> bool ForwardCursor" where
  "asCoilCursor slot = slotCursor slot"

definition asHoldingCursor :: "StoreForwardWorkSlot \<Rightarrow> u16 ForwardCursor" where
  "asHoldingCursor slot = slotCursor slot"

definition updateFrom :: "StoreForwardWorkSlot \<Rightarrow> 'v ForwardCursor \<Rightarrow> StoreForwardWorkSlot" where
  "updateFrom slot cursor =
     slot\<lparr>sw_nextAddress := fc_nextAddress cursor, sw_remaining := fc_remaining cursor,
          sw_sourceOffset := fc_sourceOffset cursor, sw_fragmentIndex := fc_fragmentIndex cursor,
          sw_active := fc_active cursor\<rparr>"

record StoreForwardAction =
  ac_kind :: ScheduledActionKind
  ac_proposalRevision :: u32
  ac_sequence :: u32
  ac_write :: PlannedWriteRequest
  ac_downstream :: DownstreamRequest
  ac_scheduling :: PollSelection
  ac_pollCount :: u16
  ac_selectedAt :: u32
  ac_requiresCompletion :: bool
  ac_workContext :: void_ptr

definition newAction :: StoreForwardAction where
  "newAction =
     \<lparr>ac_kind = Action_None, ac_proposalRevision = 0, ac_sequence = 0,
      ac_write = newPlannedWriteRequest, ac_downstream = newDownstreamRequest,
      ac_scheduling = newPollSelection, ac_pollCount = 0, ac_selectedAt = 0,
      ac_requiresCompletion = False, ac_workContext = Null\<rparr>"

definition sameDownstreamRequest :: "DownstreamRequest \<Rightarrow> DownstreamRequest \<Rightarrow> bool" where
  "sameDownstreamRequest lhs rhs \<longleftrightarrow>
     dr_sequence lhs = dr_sequence rhs \<and> dr_operation lhs = dr_operation rhs \<and>
     dr_endpointId lhs = dr_endpointId rhs \<and>
     dr_startAddress lhs = dr_startAddress rhs \<and>
     dr_quantity lhs = dr_quantity rhs \<and> dr_coilBuffer lhs = dr_coilBuffer rhs \<and>
     dr_registerBuffer lhs = dr_registerBuffer rhs \<and>
     dr_coilValue lhs = dr_coilValue rhs \<and>
     dr_registerValue lhs = dr_registerValue rhs \<and>
     dr_consistencyContext lhs = dr_consistencyContext rhs"

definition sameStoreForwardAction :: "StoreForwardAction \<Rightarrow> StoreForwardAction \<Rightarrow> bool" where
  "sameStoreForwardAction lhs rhs \<longleftrightarrow>
     ac_kind lhs = ac_kind rhs \<and>
     ac_proposalRevision lhs = ac_proposalRevision rhs \<and>
     ac_sequence lhs = ac_sequence rhs \<and>
     samePlannedWriteRequest (ac_write lhs) (ac_write rhs) \<and>
     sameDownstreamRequest (ac_downstream lhs) (ac_downstream rhs) \<and>
     ps_kind (ac_scheduling lhs) = ps_kind (ac_scheduling rhs) \<and>
     ps_pollIndex (ac_scheduling lhs) = ps_pollIndex (ac_scheduling rhs) \<and>
     ps_originatingPollCount (ac_scheduling lhs) = ps_originatingPollCount (ac_scheduling rhs) \<and>
     ps_pollCountBound (ac_scheduling lhs) = ps_pollCountBound (ac_scheduling rhs) \<and>
     ac_pollCount lhs = ac_pollCount rhs \<and> ac_selectedAt lhs = ac_selectedAt rhs \<and>
     ac_requiresCompletion lhs = ac_requiresCompletion rhs \<and>
     ac_workContext lhs = ac_workContext rhs"

section \<open>Statuses and results\<close>

datatype StoreForwardAdmitStatus =
  Admit_Admitted | Admit_InvalidStorage | Admit_QueueFull | Admit_PlanRejected
| Admit_LedgerRejected

record StoreForwardAdmission =
  ad_status :: StoreForwardAdmitStatus
  ad_planStatus :: ForwardPlanStatus
  ad_ledgerStatus :: LedgerReserveStatus

definition newAdmission :: StoreForwardAdmission where
  "newAdmission = \<lparr>ad_status = Admit_InvalidStorage, ad_planStatus = Plan_InvalidWork,
     ad_ledgerStatus = Reserve_InvalidWork\<rparr>"

datatype StoreForwardNextStatus =
  Action_Ready | Action_NoAction | Action_ActionInFlight | Action_InvalidStorage
| Action_InvalidPollStorage | Action_InvalidPollRequest | Action_StaleWork
| Action_PlanningFailed

datatype StoreForwardActionAdmitStatus =
  ActionAdmit_Admitted | ActionAdmit_Consumed | ActionAdmit_ActionInFlight
| ActionAdmit_InvalidAction | ActionAdmit_StaleProposal | ActionAdmit_LedgerRejected
| ActionAdmit_FairnessRejected

datatype StoreForwardCompleteStatus =
  Complete_Completed | Complete_NoActionInFlight | Complete_ActionMismatch
| Complete_InvalidOutcome | Complete_LedgerRejected | Complete_StaleSession

record StoreForwardCompletion =
  cp_status :: StoreForwardCompleteStatus
  cp_kind :: ScheduledActionKind
  cp_outcome :: DownstreamOutcome
  cp_decision :: CompletionDecision
  cp_work :: WorkCompletionSummary
  cp_workRetired :: bool
  cp_workContext :: void_ptr

definition newCompletion :: StoreForwardCompletion where
  "newCompletion =
     \<lparr>cp_status = Complete_NoActionInFlight, cp_kind = Action_None,
      cp_outcome = Outcome_SendUncertain, cp_decision = newCompletionDecision,
      cp_work = newWorkCompletionSummary, cp_workRetired = False, cp_workContext = Null\<rparr>"

record StoreForwardRetirement =
  re_work :: WorkIdentity
  re_table :: RegisterTable
  re_userContext :: void_ptr

definition newRetirement :: StoreForwardRetirement where
  "newRetirement = \<lparr>re_work = noWork, re_table = Coils, re_userContext = Null\<rparr>"

datatype StoreForwardRetireStatus =
  Retire_Retired | Retire_Empty | Retire_ActionInFlight | Retire_WorkStillCurrent

section \<open>The bridge state\<close>

record StoreForwardBridge =
  sb_forwardPlanner :: ForwardPlanner
  sb_workQueue :: "StoreForwardWorkSlot FixedRingQueue"
  sb_completionLedger :: CompletionLedger
  sb_pollPlanner :: PollPlannerOptions
  sb_pollState :: PollPlannerState
  sb_requestSequence :: u32
  sb_revision :: u32
  sb_inFlight :: bool
  sb_inFlightAction :: StoreForwardAction
  sb_inFlightWork :: WorkIdentity

definition newBridge ::
  "ForwardPlanner \<Rightarrow> StoreForwardWorkSlot list option \<Rightarrow> u16 \<Rightarrow> CompletionLedger \<Rightarrow>
     PollPlannerOptions \<Rightarrow> StoreForwardBridge" where
  "newBridge forwardPlanner workStorage workCapacity completionLedger pollPlanner =
     \<lparr>sb_forwardPlanner = forwardPlanner,
      sb_workQueue = newRingQueue workStorage workCapacity,
      sb_completionLedger = completionLedger, sb_pollPlanner = pollPlanner,
      sb_pollState = newPollPlannerState, sb_requestSequence = 0, sb_revision = 1,
      sb_inFlight = False, sb_inFlightAction = newAction, sb_inFlightWork = noWork\<rparr>"

definition sb_validStorage :: "StoreForwardBridge \<Rightarrow> bool" where
  "sb_validStorage b \<longleftrightarrow>
     rq_validStorage (sb_workQueue b) \<and> cl_validStorage (sb_completionLedger b)"

text \<open>The observers of the public interface.\<close>

definition queuedWork :: "StoreForwardBridge \<Rightarrow> u16" where
  "queuedWork b = rq_size (sb_workQueue b)"

definition actionInFlight :: "StoreForwardBridge \<Rightarrow> bool" where
  "actionInFlight b = sb_inFlight b"

definition lastRequestSequence :: "StoreForwardBridge \<Rightarrow> u32" where
  "lastRequestSequence b = sb_requestSequence b"

definition advanceRevision :: "StoreForwardBridge \<Rightarrow> StoreForwardBridge" where
  "advanceRevision b = b\<lparr>sb_revision := nextNonZeroSequence32 (sb_revision b)\<rparr>"

definition clearInFlight :: "StoreForwardBridge \<Rightarrow> StoreForwardBridge" where
  "clearInFlight b =
     b\<lparr>sb_inFlight := False, sb_inFlightAction := newAction, sb_inFlightWork := noWork\<rparr>"

text \<open>The work slot behind \<open>workQueue_.front()\<close>, \<open>Some None\<close> for a null pointer.\<close>

definition frontSlot :: "StoreForwardBridge \<Rightarrow> StoreForwardWorkSlot option option" where
  "frontSlot b =
     (case rq_front (sb_workQueue b) of
        None \<Rightarrow> Some None
      | Some i \<Rightarrow> do { slot \<leftarrow> rq_load (sb_workQueue b) i; Some (Some slot) })"

definition popFrontIf :: "StoreForwardBridge \<Rightarrow> WorkIdentity \<Rightarrow> StoreForwardBridge option" where
  "popFrontIf b work = do {
     front \<leftarrow> frontSlot b;
     Some (case front of
             None \<Rightarrow> b
           | Some slot \<Rightarrow>
               if sameWorkIdentity (sw_workIdentity slot) work
               then b\<lparr>sb_workQueue := snd (popFront (sb_workQueue b))\<rparr> else b) }"

section \<open>Admission of work\<close>

text \<open>The common body of the two overloads, over the traits of the value type.\<close>

definition admitWork ::
  "'v WorkTraits \<Rightarrow> StoreForwardBridge \<Rightarrow> 'v IngressWorkView \<Rightarrow> SessionStateView \<Rightarrow> void_ptr \<Rightarrow>
     (StoreForwardAdmission \<times> StoreForwardBridge) option" where
  "admitWork T b work session userContext =
     (if \<not> sb_validStorage b then Some (newAdmission, b)
      else if rq_full (sb_workQueue b)
      then Some (newAdmission\<lparr>ad_status := Admit_QueueFull\<rparr>, b)
      else do {
        (planStatus, cursor) \<leftarrow>
          planner_begin_session T (sb_forwardPlanner b) work session;
        let result1 = newAdmission\<lparr>ad_planStatus := planStatus\<rparr>;
        if planStatus \<noteq> Plan_Ready
        then Some (result1\<lparr>ad_status := Admit_PlanRejected\<rparr>, b)
        else do {
          (ledgerStatus, ledger) \<leftarrow>
            reserve (sb_completionLedger b) (iw_identity work) (iw_delivery work);
          let result2 = result1\<lparr>ad_ledgerStatus := ledgerStatus\<rparr>;
          let b1 = b\<lparr>sb_completionLedger := ledger\<rparr>;
          if ledgerStatus \<noteq> Reserve_Reserved
          then Some (result2\<lparr>ad_status := Admit_LedgerRejected\<rparr>, b1)
          else do {
            (pushed, queue) \<leftarrow> tryPush (sb_workQueue b1)
              (newWorkSlot (wt_table T) work cursor userContext);
            if \<not> pushed
            then do {
              (_, ledger') \<leftarrow> abandon ledger (iw_identity work);
              Some (result2\<lparr>ad_status := Admit_QueueFull\<rparr>,
                    b1\<lparr>sb_completionLedger := ledger'\<rparr>) }
            else Some (result2\<lparr>ad_status := Admit_Admitted\<rparr>,
                       advanceRevision (b1\<lparr>sb_workQueue := queue\<rparr>)) } } })"

definition admitCoilWork ::
  "StoreForwardBridge \<Rightarrow> bool IngressWorkView \<Rightarrow> SessionStateView \<Rightarrow> void_ptr \<Rightarrow>
     (StoreForwardAdmission \<times> StoreForwardBridge) option" where
  "admitCoilWork = admitWork coil_traits"

definition admitHoldingWork ::
  "StoreForwardBridge \<Rightarrow> u16 IngressWorkView \<Rightarrow> SessionStateView \<Rightarrow> void_ptr \<Rightarrow>
     (StoreForwardAdmission \<times> StoreForwardBridge) option" where
  "admitHoldingWork = admitWork holding_traits"

section \<open>Preview\<close>

text \<open>The result of \<open>previewAction\<close>: status, proposal, and the two advanced cursors.\<close>

type_synonym preview =
  "StoreForwardNextStatus \<times> StoreForwardAction \<times> bool ForwardCursor \<times> u16 ForwardCursor"

definition preview_failed :: "StoreForwardNextStatus \<Rightarrow> preview" where
  "preview_failed status = (status, newAction, newForwardCursor, newForwardCursor)"

text \<open>The fields every selected action carries.\<close>

definition selected_action ::
  "StoreForwardBridge \<Rightarrow> PollSelection \<Rightarrow> u16 \<Rightarrow> u32 \<Rightarrow> StoreForwardAction" where
  "selected_action b selection pollCount now =
     newAction\<lparr>ac_kind := ps_kind selection, ac_proposalRevision := sb_revision b,
       ac_scheduling := selection, ac_pollCount := pollCount, ac_selectedAt := now\<rparr>"

definition preview_poll ::
  "StoreForwardBridge \<Rightarrow> PollCandidate list option \<Rightarrow> u16 \<Rightarrow> PollSelection \<Rightarrow>
     StoreForwardAction \<Rightarrow> preview option" where
  "preview_poll b polls pollCount selection action =
     (if polls = None \<or> ps_pollIndex selection \<ge> pollCount
      then Some (preview_failed Action_InvalidPollStorage)
      else do {
        candidate \<leftarrow> poll_at polls (unat (ps_pollIndex selection));
        let action1 = action\<lparr>ac_requiresCompletion := pc_requiresDispatch candidate\<rparr>;
        if \<not> ac_requiresCompletion action1
        then Some (Action_Ready, action1, newForwardCursor, newForwardCursor)
        else do {
          let sequence = nextNonZeroSequence32 (sb_requestSequence b);
          let action2 = action1\<lparr>ac_sequence := sequence,
                ac_downstream := (pc_request candidate)\<lparr>dr_sequence := sequence\<rparr>\<rparr>;
          if \<not> isPollOperation (dr_operation (ac_downstream action2)) \<or>
             validateDownstreamRequest (ac_downstream action2) \<noteq> Request_Valid
          then Some (preview_failed Action_InvalidPollRequest)
          else Some (Action_Ready, action2, newForwardCursor, newForwardCursor) } })"

text \<open>
  The forward branch. When planning fails the code resets only the action, so the cursors
  keep what \<open>next\<close> left in them.
\<close>

definition preview_forward ::
  "memory \<Rightarrow> StoreForwardBridge \<Rightarrow> StoreForwardWorkSlot \<Rightarrow> StoreForwardAction \<Rightarrow> void_ptr \<Rightarrow>
     preview option" where
  "preview_forward m b front action writeConsistencyContext = do {
     let sequence = nextNonZeroSequence32 (sb_requestSequence b);
     let action1 = action\<lparr>ac_sequence := sequence, ac_requiresCompletion := True,
                          ac_workContext := sw_userContext front\<rparr>;
     (planned, write, coilCursor, holdingCursor) \<leftarrow>
       (if sw_table front = Coils
        then do {
          (status, cursor, request) \<leftarrow> planner_next coil_traits (mm_coils m)
            (sb_forwardPlanner b) (asCoilCursor front) sequence;
          Some (status, request, cursor, newForwardCursor) }
        else if sw_table front = HoldingRegisters
        then do {
          (status, cursor, request) \<leftarrow> planner_next holding_traits (mm_registers m)
            (sb_forwardPlanner b) (asHoldingCursor front) sequence;
          Some (status, request, newForwardCursor, cursor) }
        else Some (Next_TopologyChanged, ac_write action1, newForwardCursor, newForwardCursor));
     if planned \<noteq> Next_Planned
     then Some (Action_PlanningFailed, newAction, coilCursor, holdingCursor)
     else Some (Action_Ready,
                action1\<lparr>ac_write := write,
                  ac_downstream := downstreamRequestFor write writeConsistencyContext\<rparr>,
                coilCursor, holdingCursor) }"

definition previewAction ::
  "memory \<Rightarrow> StoreForwardBridge \<Rightarrow> SessionStateView \<Rightarrow> u32 \<Rightarrow> PollCandidate list option \<Rightarrow>
     u16 \<Rightarrow> void_ptr \<Rightarrow> preview option" where
  "previewAction m b session now polls pollCount writeConsistencyContext =
     (if \<not> sb_validStorage b then Some (preview_failed Action_InvalidStorage)
      else if sb_inFlight b then Some (preview_failed Action_ActionInFlight)
      else do {
        front \<leftarrow> frontSlot b;
        if (case front of None \<Rightarrow> False
            | Some slot \<Rightarrow> \<not> workCurrent (sw_workIdentity slot) session)
        then Some (preview_failed Action_StaleWork)
        else do {
          (selected, selection) \<leftarrow> select (sb_pollPlanner b) now (front \<noteq> None) polls pollCount
             (sb_pollState b);
          if selected = Select_InvalidStorage
          then Some (preview_failed Action_InvalidPollStorage)
          else if selected = Select_NoAction then Some (preview_failed Action_NoAction)
          else do {
            let action = selected_action b selection pollCount now;
            if ps_kind selection = Poll
            then preview_poll b polls pollCount selection action
            else (case front of
                    None \<Rightarrow> Some (preview_failed Action_PlanningFailed)
                  | Some slot \<Rightarrow>
                      if ps_kind selection \<noteq> ForwardWrite
                      then Some (preview_failed Action_PlanningFailed)
                      else preview_forward m b slot action writeConsistencyContext) } } })"

definition nextAction ::
  "memory \<Rightarrow> StoreForwardBridge \<Rightarrow> SessionStateView \<Rightarrow> u32 \<Rightarrow> PollCandidate list option \<Rightarrow>
     u16 \<Rightarrow> void_ptr \<Rightarrow> (StoreForwardNextStatus \<times> StoreForwardAction) option" where
  "nextAction m b session now polls pollCount writeConsistencyContext = do {
     (status, action, _, _) \<leftarrow>
       previewAction m b session now polls pollCount writeConsistencyContext;
     Some (status, action) }"

section \<open>Admission of an action\<close>

text \<open>The tail shared by an admitted forward write and an admitted poll.\<close>

definition publish_action ::
  "StoreForwardBridge \<Rightarrow> StoreForwardAction \<Rightarrow> StoreForwardBridge" where
  "publish_action b action =
     advanceRevision (b\<lparr>sb_requestSequence := ac_sequence action, sb_inFlight := True,
                        sb_inFlightAction := action\<rparr>)"

definition admit_forward ::
  "StoreForwardBridge \<Rightarrow> StoreForwardAction \<Rightarrow> StoreForwardAction \<Rightarrow> bool ForwardCursor \<Rightarrow>
     u16 ForwardCursor \<Rightarrow> (StoreForwardActionAdmitStatus \<times> StoreForwardBridge) option" where
  "admit_forward b action currentProposal coilCursor holdingCursor =
     (if ps_kind (ac_scheduling action) \<noteq> ForwardWrite
      then Some (ActionAdmit_InvalidAction, b)
      else (case rq_front (sb_workQueue b) of
              None \<Rightarrow> Some (ActionAdmit_StaleProposal, b)
            | Some frontIndex \<Rightarrow> do {
                let committedRequest = ac_write currentProposal;
                let (committed, pollState) = commit (ac_scheduling action) (ac_pollCount action)
                      (ac_selectedAt action) (sb_pollState b);
                if \<not> committed
                then Some (ActionAdmit_FairnessRejected, b\<lparr>sb_pollState := pollState\<rparr>)
                else do {
                  (issued, ledger) \<leftarrow> recordIssued (sb_completionLedger b) committedRequest;
                  if issued \<noteq> Issue_Recorded
                  then Some (ActionAdmit_LedgerRejected, b\<lparr>sb_completionLedger := ledger\<rparr>)
                  else do {
                    slot \<leftarrow> rq_load (sb_workQueue b) frontIndex;
                    queue \<leftarrow> rq_store (sb_workQueue b) frontIndex
                      (if sw_table slot = Coils then updateFrom slot coilCursor
                       else updateFrom slot holdingCursor);
                    Some (ActionAdmit_Admitted,
                      publish_action (b\<lparr>sb_pollState := pollState,
                        sb_completionLedger := ledger, sb_workQueue := queue,
                        sb_inFlightWork := ri_work (pw_identity committedRequest)\<rparr>) action) } } }))"

definition admit_poll ::
  "StoreForwardBridge \<Rightarrow> StoreForwardAction \<Rightarrow> StoreForwardActionAdmitStatus \<times> StoreForwardBridge" where
  "admit_poll b action =
     (if ps_kind (ac_scheduling action) \<noteq> Poll \<or>
         dr_sequence (ac_downstream action) \<noteq> ac_sequence action
      then (ActionAdmit_InvalidAction, b)
      else if \<not> isPollOperation (dr_operation (ac_downstream action)) \<or>
         validateDownstreamRequest (ac_downstream action) \<noteq> Request_Valid
      then (ActionAdmit_InvalidAction, b)
      else if \<not> ac_requiresCompletion action
      then (ActionAdmit_FairnessRejected, b)
      else let (committed, pollState) = commit (ac_scheduling action) (ac_pollCount action)
                 (ac_selectedAt action) (sb_pollState b)
           in if \<not> committed
              then (ActionAdmit_FairnessRejected, b\<lparr>sb_pollState := pollState\<rparr>)
              else (ActionAdmit_Admitted,
                    publish_action (b\<lparr>sb_pollState := pollState, sb_inFlightWork := noWork\<rparr>) action))"

text \<open>A poll phase without dispatch: fairness is committed, nothing goes in flight.\<close>

definition consume_poll ::
  "StoreForwardBridge \<Rightarrow> StoreForwardAction \<Rightarrow> StoreForwardActionAdmitStatus \<times> StoreForwardBridge" where
  "consume_poll b action =
     (if ac_sequence action \<noteq> 0 then (ActionAdmit_FairnessRejected, b)
      else let (committed, pollState) = commit (ac_scheduling action) (ac_pollCount action)
                 (ac_selectedAt action) (sb_pollState b)
           in if \<not> committed
              then (ActionAdmit_FairnessRejected, b\<lparr>sb_pollState := pollState\<rparr>)
              else (ActionAdmit_Consumed, advanceRevision (b\<lparr>sb_pollState := pollState\<rparr>)))"

definition admitAction ::
  "memory \<Rightarrow> StoreForwardBridge \<Rightarrow> StoreForwardAction \<Rightarrow> SessionStateView \<Rightarrow>
     PollCandidate list option \<Rightarrow> u16 \<Rightarrow>
     (StoreForwardActionAdmitStatus \<times> StoreForwardBridge) option" where
  "admitAction m b action session polls pollCount =
     (if sb_inFlight b then Some (ActionAdmit_ActionInFlight, b)
      else if ac_kind action = Action_None then Some (ActionAdmit_InvalidAction, b)
      else if ac_proposalRevision action \<noteq> sb_revision b
      then Some (ActionAdmit_StaleProposal, b)
      else do {
        (status, currentProposal, coilCursor, holdingCursor) \<leftarrow>
          previewAction m b session (ac_selectedAt action) polls pollCount
            (dr_consistencyContext (ac_downstream action));
        if status \<noteq> Action_Ready \<or> \<not> sameStoreForwardAction action currentProposal \<or>
           ac_kind action \<noteq> ps_kind (ac_scheduling action)
        then Some (ActionAdmit_StaleProposal, b)
        else if ac_kind action = Poll \<and> \<not> ac_requiresCompletion action
        then Some (consume_poll b action)
        else if ac_sequence action = 0 \<or>
                ac_sequence action \<noteq> nextNonZeroSequence32 (sb_requestSequence b)
        then Some (ActionAdmit_StaleProposal, b)
        else if ac_kind action = ForwardWrite
        then admit_forward b action currentProposal coilCursor holdingCursor
        else if ac_kind action = Poll then Some (admit_poll b action)
        else Some (ActionAdmit_InvalidAction, b) })"

section \<open>Completion\<close>

text \<open>The branch of a stale session: drop the queue and ledger state of the old work.\<close>

definition complete_stale ::
  "StoreForwardBridge \<Rightarrow> StoreForwardCompletion \<Rightarrow>
     (StoreForwardCompletion \<times> StoreForwardBridge) option" where
  "complete_stale b result = do {
     (_, ledger) \<leftarrow> abandon (sb_completionLedger b) (sb_inFlightWork b);
     b1 \<leftarrow> popFrontIf (b\<lparr>sb_completionLedger := ledger\<rparr>) (sb_inFlightWork b);
     Some (result\<lparr>cp_status := Complete_StaleSession, cp_workRetired := True\<rparr>,
           advanceRevision (clearInFlight b1)) }"

text \<open>The branch of a resolved write: close planning after a failure, retire when drained.\<close>

definition complete_resolved ::
  "StoreForwardBridge \<Rightarrow> WorkIdentity \<Rightarrow> DownstreamOutcome \<Rightarrow> StoreForwardCompletion \<Rightarrow>
     (StoreForwardCompletion \<times> StoreForwardBridge) option" where
  "complete_resolved b work outcome result = do {
     let b1 = clearInFlight b;
     (b2, result1) \<leftarrow>
       (if outcome \<noteq> Outcome_Applied
        then do {
          (_, ledger) \<leftarrow> closePlanningAfterFailure (sb_completionLedger b1) work;
          (_, summary) \<leftarrow> ledger_summary ledger work;
          Some (b1\<lparr>sb_completionLedger := ledger\<rparr>, result\<lparr>cp_work := summary\<rparr>) }
        else Some (b1, result));
     (b3, result2) \<leftarrow>
       (if ws_drained (cp_work result1)
        then do {
          (_, ledger) \<leftarrow> release (sb_completionLedger b2) work;
          b' \<leftarrow> popFrontIf (b2\<lparr>sb_completionLedger := ledger\<rparr>) work;
          Some (b', result1\<lparr>cp_workRetired := True\<rparr>) }
        else Some (b2, result1));
     Some (result2\<lparr>cp_status := Complete_Completed\<rparr>, advanceRevision b3) }"

definition complete ::
  "StoreForwardBridge \<Rightarrow> StoreForwardAction \<Rightarrow> DownstreamOutcome \<Rightarrow> SessionStateView \<Rightarrow>
     (StoreForwardCompletion \<times> StoreForwardBridge) option" where
  "complete b admittedAction outcome session =
     (let result = newCompletion
        \<lparr>cp_kind := (if sb_inFlight b then ac_kind (sb_inFlightAction b)
                     else ac_kind admittedAction),
         cp_outcome := outcome,
         cp_workContext := (if sb_inFlight b then ac_workContext (sb_inFlightAction b) else Null)\<rparr>
      in if \<not> sb_inFlight b then Some (result, b)
      else if \<not> sameStoreForwardAction admittedAction (sb_inFlightAction b)
      then Some (result\<lparr>cp_status := Complete_ActionMismatch\<rparr>, b)
      else if \<not> isKnownDownstreamOutcome outcome
      then Some (result\<lparr>cp_status := Complete_InvalidOutcome\<rparr>, b)
      else if ac_kind (sb_inFlightAction b) = Poll
      then Some (result\<lparr>cp_status := Complete_Completed\<rparr>, advanceRevision (clearInFlight b))
      else if ac_kind (sb_inFlightAction b) \<noteq> ForwardWrite \<or>
         \<not> sameWorkIdentity (ri_work (pw_identity (ac_write admittedAction))) (sb_inFlightWork b)
      then Some (result\<lparr>cp_status := Complete_ActionMismatch\<rparr>, b)
      else do {
        (resolution, ledger) \<leftarrow> ledger_resolve (sb_completionLedger b) (ac_write admittedAction)
          \<lparr>cr_identity = pw_identity (ac_write admittedAction), cr_outcome = outcome\<rparr> session;
        let b1 = b\<lparr>sb_completionLedger := ledger\<rparr>;
        let result1 = result\<lparr>cp_decision := lr_decision resolution,
                             cp_work := lr_summary resolution\<rparr>;
        if lr_status resolution \<noteq> Resolve_Resolved
        then (if lr_status resolution = Resolve_CompletionRejected \<and>
                 cd_status (lr_decision resolution) = Decision_StaleSession
              then complete_stale b1 result1
              else Some (result1\<lparr>cp_status := Complete_LedgerRejected\<rparr>, b1))
        else complete_resolved b1 (ri_work (pw_identity (ac_write admittedAction))) outcome result1 })"

section \<open>Retirement and reset\<close>

definition retireFront ::
  "StoreForwardBridge \<Rightarrow> StoreForwardWorkSlot \<Rightarrow> (StoreForwardRetirement \<times> StoreForwardBridge) option" where
  "retireFront b front = do {
     (_, ledger) \<leftarrow> abandon (sb_completionLedger b) (sw_workIdentity front);
     Some (\<lparr>re_work = sw_workIdentity front, re_table = sw_table front,
            re_userContext = sw_userContext front\<rparr>,
           advanceRevision (b\<lparr>sb_completionLedger := ledger,
                              sb_workQueue := snd (popFront (sb_workQueue b))\<rparr>)) }"

definition discardOneStaleWork ::
  "StoreForwardBridge \<Rightarrow> SessionStateView \<Rightarrow>
     (StoreForwardRetireStatus \<times> StoreForwardRetirement \<times> StoreForwardBridge) option" where
  "discardOneStaleWork b session =
     (if sb_inFlight b then Some (Retire_ActionInFlight, newRetirement, b)
      else do {
        front \<leftarrow> frontSlot b;
        (case front of
           None \<Rightarrow> Some (Retire_Empty, newRetirement, b)
         | Some slot \<Rightarrow>
             if workCurrent (sw_workIdentity slot) session
             then Some (Retire_WorkStillCurrent, newRetirement, b)
             else do { (retired, b') \<leftarrow> retireFront b slot;
                       Some (Retire_Retired, retired, b') }) })"

definition abandonFront ::
  "StoreForwardBridge \<Rightarrow>
     (StoreForwardRetireStatus \<times> StoreForwardRetirement \<times> StoreForwardBridge) option" where
  "abandonFront b =
     (if sb_inFlight b then Some (Retire_ActionInFlight, newRetirement, b)
      else do {
        front \<leftarrow> frontSlot b;
        (case front of
           None \<Rightarrow> Some (Retire_Empty, newRetirement, b)
         | Some slot \<Rightarrow> do { (retired, b') \<leftarrow> retireFront b slot;
                              Some (Retire_Retired, retired, b') }) })"

text \<open>The loop of \<open>reset\<close>, over the queue and the ledger.\<close>

partial_function (option) reset_loop ::
  "StoreForwardWorkSlot FixedRingQueue \<Rightarrow> CompletionLedger \<Rightarrow>
     (StoreForwardWorkSlot FixedRingQueue \<times> CompletionLedger) option" where
  "reset_loop q l =
     (case rq_front q of
        None \<Rightarrow> Some (q, l)
      | Some i \<Rightarrow> do {
          slot \<leftarrow> rq_load q i;
          r \<leftarrow> abandon l (sw_workIdentity slot);
          reset_loop (snd (popFront q)) (snd r) })"

declare reset_loop.simps [code]

definition reset :: "StoreForwardBridge \<Rightarrow> (bool \<times> StoreForwardBridge) option" where
  "reset b =
     (if sb_inFlight b then Some (False, b)
      else do {
        (queue, ledger) \<leftarrow> reset_loop (sb_workQueue b) (sb_completionLedger b);
        Some (True, advanceRevision (b\<lparr>sb_workQueue := queue, sb_completionLedger := ledger,
                                       sb_pollState := newPollPlannerState\<rparr>)) })"

end
