(* ===== verification/Bridge_Invariant.thy ===== *)
theory Bridge_Invariant
  imports Store_Forward_Bridge Poll_Properties
begin

text \<open>
  The invariant of the bridge facade: the queue and the ledger hold the same works, in queue
  order; at most the front work has an outstanding request, which is then the write in
  flight; every other queued work waits with an untouched ledger entry.
\<close>

section \<open>Comparisons are equalities\<close>

lemma sameDownstreamRequest_eq [simp]: "sameDownstreamRequest a b \<longleftrightarrow> a = b"
  by (cases a; cases b) (simp add: sameDownstreamRequest_def)

lemma sameStoreForwardAction_eq [simp]: "sameStoreForwardAction a b \<longleftrightarrow> a = b"
proof
  assume same: "sameStoreForwardAction a b"
  then have "ac_scheduling a = ac_scheduling b"
    by (cases "ac_scheduling a"; cases "ac_scheduling b") (simp add: sameStoreForwardAction_def)
  with same show "a = b" by (cases a; cases b) (simp add: sameStoreForwardAction_def)
qed (simp add: sameStoreForwardAction_def)

section \<open>The invariant\<close>

definition works :: "StoreForwardBridge \<Rightarrow> StoreForwardWorkSlot list" where
  "works b = ring_list (sb_workQueue b)"

definition entry :: "StoreForwardBridge \<Rightarrow> WorkIdentity \<Rightarrow> CompletionLedgerSlot option" where
  "entry b = ledger_look (sb_completionLedger b)"

definition slot_shape :: "ForwardPlanner \<Rightarrow> StoreForwardWorkSlot \<Rightarrow> bool" where
  "slot_shape p slot \<longleftrightarrow>
     (case sw_table slot of
        Coils \<Rightarrow> cursor_shape coil_traits p (asCoilCursor slot)
      | HoldingRegisters \<Rightarrow> cursor_shape holding_traits p (asHoldingCursor slot)
      | _ \<Rightarrow> False)"

text \<open>A queued work without request on the way, and the front work of a write in flight.\<close>

definition idle_entry :: "work_map \<Rightarrow> StoreForwardWorkSlot \<Rightarrow> bool" where
  "idle_entry m slot \<longleftrightarrow>
     (\<exists>s. m (sw_workIdentity slot) = Some s \<and> ls_outstandingRequests s = 0 \<and>
        \<not> ls_planningClosed s \<and> \<not> ca_failed (ls_aggregate s) \<and>
        ca_delivery (ls_aggregate s) = sw_workDelivery slot \<and>
        ls_nextIssuedFragment s = sw_fragmentIndex slot \<and> sw_remaining slot \<noteq> 0)"

definition busy_entry :: "work_map \<Rightarrow> StoreForwardWorkSlot \<Rightarrow> PlannedWriteRequest \<Rightarrow> bool" where
  "busy_entry m slot r \<longleftrightarrow>
     (\<exists>s. m (sw_workIdentity slot) = Some s \<and> ls_outstandingRequests s \<noteq> 0 \<and>
        ls_issuedRequest s = r \<and> \<not> ca_failed (ls_aggregate s) \<and>
        ca_delivery (ls_aggregate s) = sw_workDelivery slot \<and>
        (pw_finalFragment r \<longleftrightarrow> sw_remaining slot = 0) \<and>
        (\<not> pw_finalFragment r \<longrightarrow> ls_nextIssuedFragment s = sw_fragmentIndex slot))"

definition write_in_flight :: "StoreForwardBridge \<Rightarrow> bool" where
  "write_in_flight b \<longleftrightarrow> sb_inFlight b \<and> ac_kind (sb_inFlightAction b) = ForwardWrite"

definition bridge_ok :: "StoreForwardBridge \<Rightarrow> bool" where
  "bridge_ok b \<longleftrightarrow>
     searchable (fp_routes (sb_forwardPlanner b)) \<and>
     ring_ok (sb_workQueue b) \<and> ledger_ok (sb_completionLedger b) \<and>
     distinct (map sw_workIdentity (works b)) \<and>
     set (map sw_workIdentity (works b)) = dom (entry b) \<and>
     (\<forall>slot \<in> set (works b). slot_shape (sb_forwardPlanner b) slot) \<and>
     (\<forall>slot \<in> set (if write_in_flight b then tl (works b) else works b). idle_entry (entry b) slot) \<and>
     (sb_inFlight b \<longrightarrow> ac_kind (sb_inFlightAction b) \<in> {ForwardWrite, Poll}) \<and>
     (write_in_flight b \<longrightarrow>
        works b \<noteq> [] \<and> sb_inFlightWork b = sw_workIdentity (hd (works b)) \<and>
        busy_entry (entry b) (hd (works b)) (ac_write (sb_inFlightAction b)))"

text \<open>The caller's part: the snapshot of every queued work is readable.\<close>

definition slot_backed :: "memory \<Rightarrow> StoreForwardWorkSlot \<Rightarrow> bool" where
  "slot_backed m slot \<longleftrightarrow>
     (if sw_table slot = Coils
      then \<exists>vs. snapshot_holds (mm_coils m) (fc_work (asCoilCursor slot)) vs
      else \<exists>vs. snapshot_holds (mm_registers m) (fc_work (asHoldingCursor slot)) vs)"

definition snapshots_held :: "memory \<Rightarrow> StoreForwardBridge \<Rightarrow> bool" where
  "snapshots_held m b \<longleftrightarrow> (\<forall>slot \<in> set (works b). slot_backed m slot)"

definition polls_backed :: "PollCandidate list option \<Rightarrow> u16 \<Rightarrow> bool" where
  "polls_backed polls n \<longleftrightarrow> (case polls of None \<Rightarrow> True | Some xs \<Rightarrow> unat n \<le> length xs)"

lemma bridge_okD:
  assumes "bridge_ok b"
  shows "searchable (fp_routes (sb_forwardPlanner b))" "ring_ok (sb_workQueue b)"
    "ledger_ok (sb_completionLedger b)" "distinct (map sw_workIdentity (works b))"
    "sw_workIdentity ` set (works b) = dom (entry b)"
    "\<And>slot. slot \<in> set (works b) \<Longrightarrow> slot_shape (sb_forwardPlanner b) slot"
  using assms by (simp_all add: bridge_ok_def)

lemma bridge_ok_validStorage:
  assumes "bridge_ok b"
  shows "sb_validStorage b"
proof -
  have "ring_ok (sb_workQueue b)" "ledger_backed (sb_completionLedger b)"
    using bridge_okD [OF assms] by (simp_all add: ledger_ok_def)
  then show ?thesis
    by (auto simp: sb_validStorage_def rq_validStorage_def cl_validStorage_def ring_ok_def
        ledger_backed_def live_def unat_eq_0 split: option.splits)
qed

text \<open>Queue access through the queue contract.\<close>

lemma frontSlot_works:
  assumes "bridge_ok b"
  shows "frontSlot b = Some (if works b = [] then None else Some (hd (works b)))"
  using ring.peek_law [OF bridge_okD(2) [OF assms]]
  by (simp add: frontSlot_def ring_peek_def works_def)

lemma rq_full_works:
  assumes "ring_ok q"
  shows "rq_full q \<longleftrightarrow> \<not> length (ring_list q) < ring_room q"
  using ring.within_room [OF assms]
  by (auto simp: rq_full_def ring_room_def word_unat_eq_iff)

lemma front_index:
  assumes "ring_ok q" "ring_list q \<noteq> []"
  obtains i where "rq_front q = Some i" "rq_load q i = Some (hd (ring_list q))"
    "\<And>x. \<exists>q'. rq_store q i x = Some q' \<and> ring_ok q' \<and> ring_list q' = x # tl (ring_list q)"
proof -
  obtain i where i: "rq_front q = Some i"
    using ring.peek_law [OF assms(1)] assms(2)
    by (cases "rq_front q") (auto simp: ring_peek_def)
  moreover have "rq_load q i = Some (hd (ring_list q))"
    using ring.peek_law [OF assms(1)] assms(2) i
    by (cases "rq_load q i") (auto simp: ring_peek_def)
  moreover have "\<exists>q'. rq_store q i x = Some q' \<and> ring_ok q' \<and> ring_list q' = x # tl (ring_list q)" for x
    using ring.poke_law [OF assms, of x] i by (auto simp: ring_poke_def)
  ultimately show ?thesis using that by blast
qed

lemma front_index_empty:
  "ring_ok q \<Longrightarrow> ring_list q = [] \<Longrightarrow> rq_front q = None"
  by (simp add: rq_front_def rq_empty_def)

lemma works_popFront:
  assumes "ring_ok q"
  shows "ring_ok (snd (popFront q))" "ring_list (snd (popFront q)) = tl (ring_list q)"
  using ring.drop_law [OF assms] by simp_all

lemma slot_ok_look:
  "bridge_ok b \<Longrightarrow> entry b w = Some s \<Longrightarrow> slot_ok s \<and> slot_work s = w"
  using ledger.held_ok [OF bridge_okD(3)] by (simp add: entry_def)

text \<open>The ledger operations, as the facade uses them.\<close>

lemma abandon_present:
  assumes "ledger_ok l" "ledger_look l w = Some s"
  obtains l' where "abandon l w = Some (True, l')" "ledger_ok l'" "ledger_look l' = (ledger_look l)(w := None)"
  using ledger.step_law [OF assms(1), of "Abandon_op w"] assms(2) by auto

lemma reserve_unreserved:
  assumes "reserve l w d = Some (status, l')" "status \<noteq> Reserve_Reserved"
  shows "l' = l"
  using assms by (auto simp: reserve_def split: if_splits option.splits elim!: bind_SomeE)

lemma bridge_ok_idle:
  assumes "bridge_ok b" "\<not> write_in_flight b" "slot \<in> set (works b)"
  shows "idle_entry (entry b) slot"
  using assms by (simp add: bridge_ok_def)

lemma works_field_cong [simp]:
  "works (advanceRevision b) = works b" "works (clearInFlight b) = works b"
  "works (b\<lparr>sb_completionLedger := l\<rparr>) = works b" "works (b\<lparr>sb_workQueue := q\<rparr>) = ring_list q"
  "works (b\<lparr>sb_pollState := st\<rparr>) = works b" "works (b\<lparr>sb_inFlightWork := w\<rparr>) = works b"
  "works (b\<lparr>sb_inFlight := f\<rparr>) = works b" "works (b\<lparr>sb_inFlightAction := a\<rparr>) = works b"
  "works (b\<lparr>sb_requestSequence := r\<rparr>) = works b" "works (b\<lparr>sb_revision := r\<rparr>) = works b"
  by (simp_all add: works_def advanceRevision_def clearInFlight_def)

lemma entry_field_cong [simp]:
  "entry (advanceRevision b) = entry b" "entry (clearInFlight b) = entry b"
  "entry (b\<lparr>sb_completionLedger := l\<rparr>) = ledger_look l" "entry (b\<lparr>sb_workQueue := q\<rparr>) = entry b"
  "entry (b\<lparr>sb_pollState := st\<rparr>) = entry b" "entry (b\<lparr>sb_inFlightWork := w\<rparr>) = entry b"
  "entry (b\<lparr>sb_inFlight := f\<rparr>) = entry b" "entry (b\<lparr>sb_inFlightAction := a\<rparr>) = entry b"
  "entry (b\<lparr>sb_requestSequence := r\<rparr>) = entry b" "entry (b\<lparr>sb_revision := r\<rparr>) = entry b"
  by (simp_all add: entry_def advanceRevision_def clearInFlight_def)

lemma bridge_field_cong [simp]:
  "sb_forwardPlanner (advanceRevision b) = sb_forwardPlanner b"
  "sb_workQueue (advanceRevision b) = sb_workQueue b"
  "sb_completionLedger (advanceRevision b) = sb_completionLedger b"
  "sb_inFlight (advanceRevision b) = sb_inFlight b"
  "sb_inFlightAction (advanceRevision b) = sb_inFlightAction b"
  "sb_inFlightWork (advanceRevision b) = sb_inFlightWork b"
  "sb_forwardPlanner (clearInFlight b) = sb_forwardPlanner b"
  "sb_workQueue (clearInFlight b) = sb_workQueue b"
  "sb_completionLedger (clearInFlight b) = sb_completionLedger b"
  "\<not> sb_inFlight (clearInFlight b)"
  by (simp_all add: advanceRevision_def clearInFlight_def)

lemma bridge_ok_advanceRevision [simp]: "bridge_ok (advanceRevision b) = bridge_ok b"
  by (simp add: bridge_ok_def write_in_flight_def)

section \<open>Admission of work\<close>

text \<open>
  The contract of a value type that the facade queues: a ready work gives a well-shaped slot.
\<close>

locale queued_traits = write_traits T carries
  for T :: "'v WorkTraits" and carries +
  assumes queued: "begin_status T p work = Plan_Ready \<Longrightarrow>
      slot_shape p (newWorkSlot (wt_table T) work (begin_cursor work) context)"

lemma slotCursor_new:
  assumes "begin_status T p work = Plan_Ready"
  shows "slotCursor (newWorkSlot table work (begin_cursor work) context) = begin_cursor work"
proof -
  have "sv_count (iw_snapshot work) = iw_count work"
    using assms by (auto simp: begin_status_def Let_def split: if_splits)
  then show ?thesis
    by (cases work; cases "iw_snapshot work")
      (simp add: slotCursor_def newWorkSlot_def begin_cursor_def)
qed

interpretation coil_queue: queued_traits coil_traits coil_carries
proof (unfold_locales, goal_cases)
  case (1 p work ctx)
  have "sw_table (newWorkSlot (wt_table coil_traits) work (begin_cursor work) ctx) = Coils"
    by (simp add: newWorkSlot_def coil_traits_def)
  with begin_cursor_shape [OF 1] show ?case
    by (simp add: slot_shape_def asCoilCursor_def slotCursor_new [OF 1])
qed

interpretation holding_queue: queued_traits holding_traits holding_carries
proof (unfold_locales, goal_cases)
  case (1 p work ctx)
  have "sw_table (newWorkSlot (wt_table holding_traits) work (begin_cursor work) ctx) = HoldingRegisters"
    by (simp add: newWorkSlot_def holding_traits_def)
  with begin_cursor_shape [OF 1] show ?case
    by (simp add: slot_shape_def asHoldingCursor_def slotCursor_new [OF 1])
qed

definition plan_status ::
  "'v WorkTraits \<Rightarrow> ForwardPlanner \<Rightarrow> 'v IngressWorkView \<Rightarrow> SessionStateView \<Rightarrow> ForwardPlanStatus" where
  "plan_status T p work session =
     (if workCurrent (iw_identity work) session then begin_status T p work else Plan_StaleSession)"

text \<open>The declarative outcome of an admission.\<close>

definition admit_status ::
  "'v WorkTraits \<Rightarrow> StoreForwardBridge \<Rightarrow> 'v IngressWorkView \<Rightarrow> SessionStateView \<Rightarrow> StoreForwardAdmitStatus" where
  "admit_status T b work session =
     (if ring_room (sb_workQueue b) \<le> length (works b) then Admit_QueueFull
      else if plan_status T (sb_forwardPlanner b) work session \<noteq> Plan_Ready then Admit_PlanRejected
      else if iw_identity work \<in> set (map sw_workIdentity (works b)) \<or>
              ledger_room (sb_completionLedger b) \<le> length (works b)
      then Admit_LedgerRejected
      else Admit_Admitted)"

lemma card_entries:
  assumes "bridge_ok b"
  shows "card (dom (entry b)) = length (works b)"
  using bridge_okD(4,5) [OF assms] by (metis distinct_card length_map set_map)

lemma reserve_entry:
  assumes "bridge_ok b" "validWork w" "isAccepted d"
  shows "\<exists>status l'. reserve (sb_completionLedger b) w d = Some (status, l') \<and>
    (if w \<in> set (map sw_workIdentity (works b)) \<or> ledger_room (sb_completionLedger b) \<le> length (works b)
     then status \<noteq> Reserve_Reserved \<and> l' = sb_completionLedger b
     else status = Reserve_Reserved \<and> ledger_ok l' \<and> ledger_look l' = (entry b)(w \<mapsto> fresh_slot w d) \<and>
       ledger_room l' = ledger_room (sb_completionLedger b))"
proof -
  let ?l = "sb_completionLedger b"
  from ledger.step_law [OF bridge_okD(3) [OF assms(1)], of "Reserve_op w d"]
  obtain status l' where r: "reserve ?l w d = Some (status, l')" "ledger_ok l'"
      "ledger_room l' = ledger_room ?l"
      "Reserve_res status = fst (map_step (ledger_room ?l) (Reserve_op w d) (ledger_look ?l))"
      "ledger_look l' = snd (map_step (ledger_room ?l) (Reserve_op w d) (ledger_look ?l))"
    by auto
  have dom: "w \<in> set (map sw_workIdentity (works b)) \<longleftrightarrow> ledger_look ?l w \<noteq> None"
    using bridge_okD(5) [OF assms(1)] by (auto simp: entry_def)
  have card: "card (dom (ledger_look ?l)) = length (works b)"
    using card_entries [OF assms(1)] by (simp add: entry_def)
  show ?thesis
  proof (cases "status = Reserve_Reserved")
    case True
    with r assms(2,3) show ?thesis
      unfolding dom by (auto simp: card entry_def split: if_splits)
  next
    case False
    with r(4) assms(2,3) have "ledger_look ?l w \<noteq> None \<or> ledger_room ?l \<le> length (works b)"
      by (auto simp: card split: if_splits)
    with r(1) False reserve_unreserved [OF r(1) False] show ?thesis unfolding dom by simp
  qed
qed

lemma idle_entry_other:
  assumes "idle_entry m slot" "w \<noteq> sw_workIdentity slot"
  shows "idle_entry (m(w := x)) slot"
  using assms by (auto simp: idle_entry_def)

lemma busy_entry_other:
  assumes "busy_entry m slot r" "w \<noteq> sw_workIdentity slot"
  shows "busy_entry (m(w := x)) slot r"
  using assms by (auto simp: busy_entry_def)

text \<open>Appending a work that the ledger has just reserved keeps the invariant.\<close>

lemma bridge_ok_append:
  assumes "bridge_ok b" and w: "sw_workIdentity slot \<notin> set (map sw_workIdentity (works b))"
    and "ring_ok q" "ring_list q = works b @ [slot]"
    and "ledger_ok l" "ledger_look l = (entry b)(sw_workIdentity slot \<mapsto> s)"
    and "slot_shape (sb_forwardPlanner b) slot" "idle_entry (ledger_look l) slot"
  shows "bridge_ok (b\<lparr>sb_completionLedger := l, sb_workQueue := q\<rparr>)" (is "bridge_ok ?b")
proof -
  have wif: "write_in_flight ?b = write_in_flight b" by (simp add: write_in_flight_def)
  have others: "idle_entry (ledger_look l) x" if "idle_entry (entry b) x" "x \<in> set (works b)" for x
    using that w unfolding assms(6) by (intro idle_entry_other) auto
  have busy: "busy_entry (ledger_look l) (hd (works b)) r"
    if "busy_entry (entry b) (hd (works b)) r" "works b \<noteq> []" for r
    using that w hd_in_set [OF that(2)] unfolding assms(6) by (intro busy_entry_other) auto
  have idle: "\<forall>x \<in> set (if write_in_flight b then tl (works b @ [slot]) else works b @ [slot]).
      idle_entry (ledger_look l) x"
    using assms(1,8) others list.set_sel(2)
    by (cases "works b") (auto simp: bridge_ok_def)
  show ?thesis
    using assms(1-5,7) w busy idle
    unfolding bridge_ok_def wif by (auto simp: assms(6))
qed

context queued_traits
begin

lemma admitWork_spec:
  assumes ok: "bridge_ok b"
  shows "\<exists>adm b'. admitWork T b work session context = Some (adm, b') \<and> bridge_ok b' \<and>
    ad_status adm = admit_status T b work session \<and>
    (ad_status adm \<noteq> Admit_QueueFull \<longrightarrow>
       ad_planStatus adm = plan_status T (sb_forwardPlanner b) work session) \<and>
    (if ad_status adm = Admit_Admitted
     then works b' = works b @ [newWorkSlot (wt_table T) work (begin_cursor work) context] \<and>
       sb_inFlight b' = sb_inFlight b \<and> sb_inFlightAction b' = sb_inFlightAction b
     else b' = b)"
proof -
  let ?p = "sb_forwardPlanner b" and ?q = "sb_workQueue b" and ?l = "sb_completionLedger b"
  let ?w = "iw_identity work" and ?slot = "newWorkSlot (wt_table T) work (begin_cursor work) context"
  note valid = bridge_ok_validStorage [OF ok]
  have q: "ring_ok ?q" by (rule bridge_okD(2) [OF ok])
  have full: "rq_full ?q \<longleftrightarrow> ring_room ?q \<le> length (works b)"
    using rq_full_works [OF q] by (auto simp: works_def)
  show ?thesis
  proof (cases "rq_full ?q")
    case True
    with valid full ok show ?thesis by (simp add: admitWork_def admit_status_def)
  next
    case False
    have plan: "planner_begin_session T ?p work session =
        Some (plan_status T ?p work session,
          if plan_status T ?p work session = Plan_Ready then begin_cursor work else newForwardCursor)"
      using planner_begin_spec [OF bridge_okD(1) [OF ok] table_in_routes, of work]
      by (simp add: planner_begin_session_def plan_status_def Let_def)
    show ?thesis
    proof (cases "plan_status T ?p work session = Plan_Ready")
      case notready: False
      with valid False full ok plan show ?thesis by (simp add: admitWork_def admit_status_def)
    next
      case ready: True
      then have cur: "workCurrent ?w session" and st: "begin_status T ?p work = Plan_Ready"
        by (auto simp: plan_status_def split: if_splits)
      have "validWork ?w" "isAccepted (iw_delivery work)"
        using workCurrent_valid [OF cur] st by (auto simp: begin_status_def Let_def split: if_splits)
      from reserve_entry [OF ok this] obtain status l' where
        r: "reserve ?l ?w (iw_delivery work) = Some (status, l')"
        "if ?w \<in> set (map sw_workIdentity (works b)) \<or> ledger_room ?l \<le> length (works b)
         then status \<noteq> Reserve_Reserved \<and> l' = ?l
         else status = Reserve_Reserved \<and> ledger_ok l' \<and>
           ledger_look l' = (entry b)(?w \<mapsto> fresh_slot ?w (iw_delivery work)) \<and>
           ledger_room l' = ledger_room ?l" by blast
      show ?thesis
      proof (cases "status = Reserve_Reserved")
        case refused: False
        then have "b\<lparr>sb_completionLedger := l'\<rparr> = b" using r(2) by (auto split: if_splits)
        with refused r valid False full ok plan ready show ?thesis
          by (simp add: admitWork_def admit_status_def split: if_splits)
      next
        case True
        then have fresh: "?w \<notin> set (map sw_workIdentity (works b))" "\<not> ledger_room ?l \<le> length (works b)"
          and l': "ledger_ok l'" "ledger_look l' = (entry b)(?w \<mapsto> fresh_slot ?w (iw_delivery work))"
          using r(2) by (auto split: if_splits)
        have room: "length (ring_list ?q) < ring_room ?q" using False rq_full_works [OF q] by simp
        from ring.push_law [OF q, of ?slot] room obtain q' where
          q': "tryPush ?q ?slot = Some (True, q')" "ring_ok q'" "ring_list q' = works b @ [?slot]"
          by (auto simp: works_def)
        have id: "sw_workIdentity ?slot = ?w" by (simp add: newWorkSlot_def)
        have "iw_count work \<noteq> 0" using st by (auto simp: begin_status_def Let_def split: if_splits)
        then have idle: "idle_entry (ledger_look l') ?slot"
          unfolding l'(2) by (simp add: idle_entry_def newWorkSlot_def begin_cursor_def fresh_slot_def
              newLedgerSlot_def newCompletionAggregate_def)
        have "bridge_ok (b\<lparr>sb_completionLedger := l', sb_workQueue := q'\<rparr>)"
          using bridge_ok_append [OF ok _ q'(2,3) l'(1) _ queued [OF st] idle] fresh(1) l'(2) id by simp
        moreover have "admitWork T b work session context =
            Some (\<lparr>ad_status = Admit_Admitted, ad_planStatus = Plan_Ready, ad_ledgerStatus = Reserve_Reserved\<rparr>,
              advanceRevision (b\<lparr>sb_completionLedger := l', sb_workQueue := q'\<rparr>))"
          using valid False plan ready r(1) True q'(1)
          by (simp add: admitWork_def newAdmission_def)
        ultimately show ?thesis
          using fresh room full False ready q'(3)
          by (simp add: admit_status_def works_def)
      qed
    qed
  qed
qed

end

section \<open>Planning the front work\<close>

text \<open>The request planned for a slot, and the slot after its admission.\<close>

definition planned ::
  "ForwardPlanner \<Rightarrow> StoreForwardWorkSlot \<Rightarrow> u32 \<Rightarrow> PlannedWriteRequest \<Rightarrow> StoreForwardWorkSlot \<Rightarrow> bool" where
  "planned p slot seq r slot' \<longleftrightarrow>
     pw_identity r = \<lparr>ri_work = sw_workIdentity slot, ri_requestSequence = seq,
       ri_fragmentIndex = sw_fragmentIndex slot\<rparr> \<and>
     pw_delivery r = sw_workDelivery slot \<and> pw_table r = sw_table slot \<and>
     slot_shape p slot' \<and> fc_work (asCoilCursor slot') = fc_work (asCoilCursor slot) \<and>
     fc_work (asHoldingCursor slot') = fc_work (asHoldingCursor slot) \<and>
     sw_table slot' = sw_table slot \<and> sw_workIdentity slot' = sw_workIdentity slot \<and>
     sw_workDelivery slot' = sw_workDelivery slot \<and>
     unat (sw_remaining slot') < unat (sw_remaining slot) \<and>
     (pw_finalFragment r \<longleftrightarrow> sw_remaining slot' = 0) \<and>
     sw_fragmentIndex slot' = sw_fragmentIndex slot + 1 \<and> sw_fragmentIndex slot \<noteq> 0xFFFF"

lemma slotCursor_update:
  assumes "fc_work c = fc_work (slotCursor slot :: 'v ForwardCursor)"
  shows "slotCursor (updateFrom slot (c :: 'v ForwardCursor)) = c"
  using assms by (cases c) (auto simp: slotCursor_def updateFrom_def)

lemma fc_work_update [simp]: "fc_work (slotCursor (updateFrom slot c)) = fc_work (slotCursor slot)"
  by (simp add: slotCursor_def updateFrom_def)

context write_traits
begin

lemma next_planned:
  assumes "searchable (fp_routes p)" "cursor_shape T p (slotCursor slot)" "sw_remaining slot \<noteq> 0"
    and "snapshot_holds m (fc_work (slotCursor slot)) vs" "seq \<noteq> 0" "wt_table T = sw_table slot"
  obtains r c where "planner_next T m p (slotCursor slot) seq = Some (Next_Planned, c, r)"
    "cursor_shape T p c" "slotCursor (updateFrom slot c) = c"
    "cursor_shape T p c \<Longrightarrow> slot_shape p (updateFrom slot c) \<Longrightarrow> planned p slot seq r (updateFrom slot c)"
proof -
  let ?c = "slotCursor slot :: 'v ForwardCursor"
  have proj: "fc_remaining ?c = sw_remaining slot" "fc_fragmentIndex ?c = sw_fragmentIndex slot"
      "iw_identity (fc_work ?c) = sw_workIdentity slot" "iw_delivery (fc_work ?c) = sw_workDelivery slot"
    by (simp_all add: slotCursor_def)
  have rem: "fc_remaining ?c \<noteq> 0" using assms(3) proj by simp
  from next_fragment [OF assms(1,2) rem assms(4), of seq] assms(5) obtain r where
    r: "planner_next T m p ?c seq = Some (Next_Planned, advance_cursor ?c (pw_quantity r), r)"
    "fragment_ok T carries p (fc_work ?c) vs (unat (fc_sourceOffset ?c)) (unat (fc_fragmentIndex ?c)) seq r"
    "pw_quantity r \<noteq> 0" "unat (pw_quantity r) \<le> unat (fc_remaining ?c)" by auto
  let ?d = "advance_cursor ?c (pw_quantity r)"
  note adv = advance_cursor_shape [OF assms(2) rem r(3,4)]
  have d: "slotCursor (updateFrom slot ?d) = ?d"
    by (rule slotCursor_update) (simp add: advance_cursor_def)
  have q: "0 < unat (pw_quantity r)" using r(3) by (simp add: unat_gt_0)
  have total: "unat (fc_sourceOffset ?c) + unat (fc_remaining ?c) = unat (iw_count (fc_work ?c))"
    using assms(2) by (simp add: cursor_shape_def Let_def)
  have "pw_finalFragment r \<longleftrightarrow> unat (fc_remaining ?d) = 0"
    using r(2,4) adv(2) total unfolding fragment_ok_def Let_def by auto
  then have final: "pw_finalFragment r \<longleftrightarrow> fc_remaining ?d = 0" by (simp add: unat_eq_0)
  have less: "unat (fc_remaining ?d) < unat (fc_remaining ?c)" using adv(2) q r(4) by simp
  have idx: "fc_fragmentIndex ?c \<noteq> 0xFFFF"
    using adv(4) unat_u16_bound [of "fc_fragmentIndex ?d"] by (auto simp del: unat_u16_bound)
  have sw: "sw_remaining (updateFrom slot ?d) = fc_remaining ?d"
      "sw_fragmentIndex (updateFrom slot ?d) = fc_fragmentIndex ?c + 1"
      "sw_table (updateFrom slot ?d) = sw_table slot"
      "sw_workIdentity (updateFrom slot ?d) = sw_workIdentity slot"
      "sw_workDelivery (updateFrom slot ?d) = sw_workDelivery slot"
    by (simp_all add: updateFrom_def advance_cursor_def)
  have id: "pw_identity r = \<lparr>ri_work = sw_workIdentity slot, ri_requestSequence = seq,
       ri_fragmentIndex = sw_fragmentIndex slot\<rparr>" "pw_delivery r = sw_workDelivery slot"
      "pw_table r = sw_table slot"
    using r(2) proj assms(6) unfolding fragment_ok_def Let_def
    by (cases "pw_identity r", auto simp: word_unat_eq_iff)
  show ?thesis
    using r(1) adv(1) d
    by (rule that) (use final less idx sw id proj in
      \<open>simp_all add: planned_def asCoilCursor_def asHoldingCursor_def\<close>)
qed

end

lemma plan_front:
  assumes "searchable (fp_routes (sb_forwardPlanner b))" "slot_shape (sb_forwardPlanner b) slot"
    and "sw_remaining slot \<noteq> 0" "slot_backed m slot"
  defines "seq \<equiv> nextNonZeroSequence32 (sb_requestSequence b)"
  obtains r cc hc where
    "preview_forward m b slot action context = Some (Action_Ready,
       action\<lparr>ac_sequence := seq, ac_requiresCompletion := True, ac_workContext := sw_userContext slot,
         ac_write := r, ac_downstream := downstreamRequestFor r context\<rparr>, cc, hc)"
    "planned (sb_forwardPlanner b) slot seq r
       (if sw_table slot = Coils then updateFrom slot cc else updateFrom slot hc)"
proof -
  let ?p = "sb_forwardPlanner b"
  have seq: "seq \<noteq> 0" by (simp add: seq_def nextNonZeroSequence32_def Let_def)
  consider (coil) "sw_table slot = Coils" "cursor_shape coil_traits ?p (slotCursor slot)"
    | (holding) "sw_table slot = HoldingRegisters" "cursor_shape holding_traits ?p (slotCursor slot)"
    using assms(2)
    by (cases "sw_table slot") (auto simp: slot_shape_def asCoilCursor_def asHoldingCursor_def)
  then show ?thesis
  proof cases
    case coil
    obtain vs where vs: "snapshot_holds (mm_coils m) (fc_work (slotCursor slot)) vs"
      using assms(4) coil(1) by (auto simp: slot_backed_def asCoilCursor_def)
    have table: "wt_table coil_traits = sw_table slot" using coil(1) by (simp add: coil_traits_def)
    from coil.next_planned [OF assms(1) coil(2) assms(3) vs seq table] obtain r c where
      r: "planner_next coil_traits (mm_coils m) ?p (slotCursor slot) seq = Some (Next_Planned, c, r)"
      "cursor_shape coil_traits ?p c" "slotCursor (updateFrom slot c) = c"
      "slot_shape ?p (updateFrom slot c) \<Longrightarrow> planned ?p slot seq r (updateFrom slot c)"
      by metis
    have "sw_table (updateFrom slot c) = Coils" using coil(1) by (simp add: updateFrom_def)
    then have "slot_shape ?p (updateFrom slot c)"
      using r(2,3) by (simp add: slot_shape_def asCoilCursor_def)
    with r coil(1) show ?thesis
      by (intro that [of r c newForwardCursor])
        (simp_all add: preview_forward_def asCoilCursor_def flip: seq_def)
  next
    case holding
    obtain vs where vs: "snapshot_holds (mm_registers m) (fc_work (slotCursor slot)) vs"
      using assms(4) holding(1) by (auto simp: slot_backed_def asHoldingCursor_def)
    have table: "wt_table holding_traits = sw_table slot"
      using holding(1) by (simp add: holding_traits_def)
    from holding.next_planned [OF assms(1) holding(2) assms(3) vs seq table] obtain r c where
      r: "planner_next holding_traits (mm_registers m) ?p (slotCursor slot) seq = Some (Next_Planned, c, r)"
      "cursor_shape holding_traits ?p c" "slotCursor (updateFrom slot c) = c"
      "slot_shape ?p (updateFrom slot c) \<Longrightarrow> planned ?p slot seq r (updateFrom slot c)"
      by metis
    have "sw_table (updateFrom slot c) = HoldingRegisters"
      using holding(1) by (simp add: updateFrom_def)
    then have "slot_shape ?p (updateFrom slot c)"
      using r(2,3) by (simp add: slot_shape_def asHoldingCursor_def)
    with r holding(1) show ?thesis
      by (intro that [of r newForwardCursor c])
        (simp_all add: preview_forward_def asHoldingCursor_def flip: seq_def)
  qed
qed

section \<open>Proposals\<close>

lemma select_no_polls: "select opts now ready None 0 st = select opts now ready (Some []) 0 st"
proof -
  have "due_loop now polls newPollScanCursor = Some (None, newPollScanCursor)" for polls
    by (subst due_loop.simps) (simp add: nextIndex_def newPollScanCursor_def)
  then show ?thesis by (simp add: select_def nextDue_def beginPollScan_def newPollScanCursor_def)
qed

lemma select_total:
  assumes "polls_backed polls n"
  obtains (storage) "select opts now ready polls n st = Some (Select_InvalidStorage, newPollSelection)"
      "polls = None" "n \<noteq> 0"
    | (no_action) "select opts now ready polls n st = Some (Select_NoAction, newPollSelection)" "\<not> ready"
    | (forward) "select opts now ready polls n st =
        Some (Select_Selected, fromCandidateSet ForwardWrite 0 n)" "ready"
    | (poll) xs i where "select opts now ready polls n st =
        Some (Select_Selected, fromCandidateSet Poll i n)" "polls = Some xs"
      "first_due now xs n st = Some i"
proof (cases polls)
  case (Some xs)
  with assms have "unat n \<le> length xs" by (simp add: polls_backed_def)
  note sel = select_exact_nonempty [OF this, of opts now ready st]
  show ?thesis
  proof (cases "first_due now xs n st")
    case None
    show ?thesis
    proof (cases ready)
      case True
      with None sel have "select opts now ready polls n st =
          Some (Select_Selected, fromCandidateSet ForwardWrite 0 n)"
        unfolding \<open>polls = Some xs\<close> by simp
      then show ?thesis using True by (rule that(3))
    next
      case False
      with None sel have "select opts now ready polls n st = Some (Select_NoAction, newPollSelection)"
        unfolding \<open>polls = Some xs\<close> by simp
      then show ?thesis using False by (rule that(2))
    qed
  next
    case due: (Some i)
    show ?thesis
    proof (cases "ready \<and> pp_forwardsSincePoll st < po_maxConsecutiveForwards opts")
      case True
      with due sel have "select opts now ready polls n st =
          Some (Select_Selected, fromCandidateSet ForwardWrite 0 n)"
        unfolding \<open>polls = Some xs\<close> by simp
      then show ?thesis using True by (intro that(3)) simp_all
    next
      case False
      with due sel have "select opts now ready polls n st =
          Some (Select_Selected, fromCandidateSet Poll i n)"
        unfolding \<open>polls = Some xs\<close> by auto
      then show ?thesis using Some due by (rule that(4))
    qed
  qed
next
  case None
  show ?thesis
  proof (cases "n = 0")
    case False
    with None that(1) show ?thesis by (simp add: select_def)
  next
    case True
    from select_exact_nonempty [of 0 "[]" opts now ready st] first_due_less [of now "[]" 0 st]
    have "select opts now ready None 0 st =
        Some (if ready then (Select_Selected, fromCandidateSet ForwardWrite 0 0)
              else (Select_NoAction, newPollSelection))"
      unfolding select_no_polls by (auto split: option.splits)
    with None True that(2,3) show ?thesis by (cases ready) auto
  qed
qed

text \<open>
  What a proposal holds, for each of the two kinds. A poll is taken from the first due candidate
  in round-robin order; if it is dispatched, it carries the request of that candidate.
\<close>

definition forward_proposal ::
  "StoreForwardBridge \<Rightarrow> SessionStateView \<Rightarrow> u32 \<Rightarrow> u16 \<Rightarrow> void_ptr \<Rightarrow> StoreForwardAction \<Rightarrow>
     StoreForwardWorkSlot \<Rightarrow> bool" where
  "forward_proposal b session now n context action slot' \<longleftrightarrow>
     works b \<noteq> [] \<and> workCurrent (sw_workIdentity (hd (works b))) session \<and>
     ac_kind action = ForwardWrite \<and> ac_scheduling action = fromCandidateSet ForwardWrite 0 n \<and>
     ac_pollCount action = n \<and> ac_selectedAt action = now \<and>
     ac_proposalRevision action = sb_revision b \<and>
     ac_sequence action = nextNonZeroSequence32 (sb_requestSequence b) \<and>
     ac_requiresCompletion action \<and> ac_workContext action = sw_userContext (hd (works b)) \<and>
     ac_downstream action = downstreamRequestFor (ac_write action) context \<and>
     planned (sb_forwardPlanner b) (hd (works b)) (ac_sequence action) (ac_write action) slot'"

definition poll_proposal ::
  "StoreForwardBridge \<Rightarrow> PollCandidate list option \<Rightarrow> u32 \<Rightarrow> u16 \<Rightarrow> StoreForwardAction \<Rightarrow> bool" where
  "poll_proposal b polls now n action \<longleftrightarrow>
     ac_kind action = Poll \<and>
     (\<exists>xs i. polls = Some xs \<and> first_due now xs n (sb_pollState b) = Some i \<and> unat i < unat n \<and>
        ac_scheduling action = fromCandidateSet Poll i n \<and>
        ac_requiresCompletion action = pc_requiresDispatch (xs ! unat i) \<and>
        (ac_requiresCompletion action \<longrightarrow>
           ac_downstream action = (pc_request (xs ! unat i))\<lparr>dr_sequence := ac_sequence action\<rparr>)) \<and>
     ac_pollCount action = n \<and> ac_selectedAt action = now \<and>
     ac_proposalRevision action = sb_revision b \<and>
     (if ac_requiresCompletion action
      then ac_sequence action = nextNonZeroSequence32 (sb_requestSequence b) \<and>
           dr_sequence (ac_downstream action) = ac_sequence action \<and>
           isPollOperation (dr_operation (ac_downstream action)) \<and>
           validateDownstreamRequest (ac_downstream action) = Request_Valid
      else ac_sequence action = 0)"

definition updated_slot ::
  "StoreForwardWorkSlot \<Rightarrow> bool ForwardCursor \<Rightarrow> u16 ForwardCursor \<Rightarrow> StoreForwardWorkSlot" where
  "updated_slot slot cc hc = (if sw_table slot = Coils then updateFrom slot cc else updateFrom slot hc)"

lemma kind_selection [simp]:
  "ps_kind (fromCandidateSet k i n) = k" "ps_pollIndex (fromCandidateSet k i n) = i"
  by (simp_all add: fromCandidateSet_def unboundPollSelection_def)

lemma validate_sequence [simp]:
  "validateDownstreamRequest (r\<lparr>dr_sequence := s\<rparr>) = validateDownstreamRequest r"
  by (simp add: validateDownstreamRequest_def validate_coil_buffer_def validate_register_buffer_def
      cong: DownstreamOperation.case_cong)

lemma preview_poll_cases:
  fixes now :: u32
  assumes "polls = Some xs" "unat n \<le> length xs" "first_due now xs n (sb_pollState b) = Some i"
  defines "action \<equiv> selected_action b (fromCandidateSet Poll i n) n now"
  shows "\<exists>status a. preview_poll b polls n (fromCandidateSet Poll i n) action =
      Some (status, a, newForwardCursor, newForwardCursor) \<and>
    (status = Action_InvalidPollRequest \<or> status = Action_Ready \<and> poll_proposal b polls now n a)"
proof -
  note less = first_due_less [OF assms(3)]
  have at: "poll_at polls (unat i) = Some (xs ! unat i)" "\<not> n \<le> i"
    using assms(1,2) less by (simp_all add: poll_at_def word_le_nat_alt)
  show ?thesis
  proof (cases "pc_requiresDispatch (xs ! unat i)")
    case False
    with at assms(1,3) less show ?thesis
      by (simp add: preview_poll_def action_def selected_action_def poll_proposal_def newAction_def)
  next
    case True
    with at assms(1,3) less show ?thesis
      by (simp add: preview_poll_def action_def selected_action_def poll_proposal_def newAction_def
          Let_def preview_failed_def)
  qed
qed

lemma preview_spec:
  assumes ok: "bridge_ok b" and "\<not> sb_inFlight b" "snapshots_held m b" "polls_backed polls n"
  shows "\<exists>status action cc hc. previewAction m b session now polls n context =
      Some (status, action, cc, hc) \<and>
    status \<noteq> Action_InvalidStorage \<and> status \<noteq> Action_ActionInFlight \<and> status \<noteq> Action_PlanningFailed \<and>
    (status = Action_StaleWork \<longleftrightarrow>
       works b \<noteq> [] \<and> \<not> workCurrent (sw_workIdentity (hd (works b))) session) \<and>
    (status = Action_NoAction \<longrightarrow> works b = []) \<and>
    (status = Action_InvalidPollStorage \<longrightarrow> polls = None \<and> n \<noteq> 0) \<and>
    (status = Action_InvalidPollRequest \<longrightarrow> polls \<noteq> None) \<and>
    (status = Action_Ready \<longrightarrow>
       forward_proposal b session now n context action (updated_slot (hd (works b)) cc hc) \<or>
       poll_proposal b polls now n action)"
proof -
  note valid = bridge_ok_validStorage [OF ok] and front = frontSlot_works [OF ok]
  show ?thesis
  proof (cases "works b \<noteq> [] \<and> \<not> workCurrent (sw_workIdentity (hd (works b))) session")
    case True
    with valid front assms(2) show ?thesis by (simp add: previewAction_def preview_failed_def)
  next
    case current: False
    let ?ready = "works b \<noteq> []"
    have reduced: "previewAction m b session now polls n context = do {
        (selected, selection) \<leftarrow> select (sb_pollPlanner b) now ?ready polls n (sb_pollState b);
        if selected = Select_InvalidStorage then Some (preview_failed Action_InvalidPollStorage)
        else if selected = Select_NoAction then Some (preview_failed Action_NoAction)
        else if ps_kind selection = Poll
        then preview_poll b polls n selection (selected_action b selection n now)
        else if works b = [] \<or> ps_kind selection \<noteq> ForwardWrite
        then Some (preview_failed Action_PlanningFailed)
        else preview_forward m b (hd (works b)) (selected_action b selection n now) context }"
      using valid front assms(2) current
      by (cases "select (sb_pollPlanner b) now ?ready polls n (sb_pollState b)"; cases "works b = []")
        (simp_all add: previewAction_def Let_def split_beta)
    show ?thesis
      using assms(4)
    proof (cases rule: select_total [of polls n "sb_pollPlanner b" now ?ready "sb_pollState b"])
      case storage
      with current show ?thesis using storage(2,3) unfolding reduced storage(1)
        by (simp add: preview_failed_def)
    next
      case no_action
      with current show ?thesis unfolding reduced no_action(1) by (simp add: preview_failed_def)
    next
      case (poll xs i)
      from poll(2) assms(4) have "unat n \<le> length xs" by (simp add: polls_backed_def)
      from preview_poll_cases [OF poll(2) this poll(3)] obtain status a where
        "preview_poll b polls n (fromCandidateSet Poll i n)
           (selected_action b (fromCandidateSet Poll i n) n now) =
          Some (status, a, newForwardCursor, newForwardCursor)"
        "status = Action_InvalidPollRequest \<or> status = Action_Ready \<and> poll_proposal b polls now n a" by blast
      with current poll(2) show ?thesis unfolding reduced poll(1) by auto
    next
      case forward
      let ?slot = "hd (works b)"
      have slot: "?slot \<in> set (works b)" using forward(2) by simp
      have "idle_entry (entry b) ?slot"
        using bridge_ok_idle [OF ok _ slot] assms(2) by (simp add: write_in_flight_def)
      then have rem: "sw_remaining ?slot \<noteq> 0" by (auto simp: idle_entry_def)
      have backed: "slot_backed m ?slot" using assms(3) slot by (simp add: snapshots_held_def)
      from plan_front [OF bridge_okD(1) [OF ok] bridge_okD(6) [OF ok slot] rem backed,
          of "selected_action b (fromCandidateSet ForwardWrite 0 n) n now" "context"]
      obtain r cc hc where r: "preview_forward m b ?slot
          (selected_action b (fromCandidateSet ForwardWrite 0 n) n now) context = Some (Action_Ready,
          (selected_action b (fromCandidateSet ForwardWrite 0 n) n now)
            \<lparr>ac_sequence := nextNonZeroSequence32 (sb_requestSequence b), ac_requiresCompletion := True,
             ac_workContext := sw_userContext ?slot, ac_write := r,
             ac_downstream := downstreamRequestFor r context\<rparr>, cc, hc)"
        "planned (sb_forwardPlanner b) ?slot (nextNonZeroSequence32 (sb_requestSequence b)) r
           (updated_slot ?slot cc hc)"
        unfolding updated_slot_def by metis
      from forward(2) r(1)
      have "previewAction m b session now polls n context = Some (Action_Ready,
          (selected_action b (fromCandidateSet ForwardWrite 0 n) n now)
            \<lparr>ac_sequence := nextNonZeroSequence32 (sb_requestSequence b), ac_requiresCompletion := True,
             ac_workContext := sw_userContext ?slot, ac_write := r,
             ac_downstream := downstreamRequestFor r context\<rparr>, cc, hc)"
        unfolding reduced forward(1) by simp
      with r(2) forward(2) current show ?thesis
        by (simp add: forward_proposal_def selected_action_def newAction_def)
    qed
  qed
qed

end
