(* ===== verification/Bridge_Operations.thy ===== *)
theory Bridge_Operations
  imports Bridge_Invariant
begin

text \<open>
  Each operation of the facade from a state that satisfies the invariant: what it returns, that
  it returns, and that it keeps the invariant; then the states reachable by any sequence of
  calls.
\<close>

section \<open>Admission of an action\<close>

lemma recordIssued_idle:
  assumes "bridge_ok b" "idle_entry (entry b) slot" "workCurrent (sw_workIdentity slot) session"
    and "planned p slot seq r slot'" "seq \<noteq> 0"
  obtains l' s' where "recordIssued (sb_completionLedger b) r = Some (Issue_Recorded, l')"
    "ledger_ok l'" "ledger_look l' = (entry b)(sw_workIdentity slot \<mapsto> s')"
    "busy_entry (ledger_look l') slot' r"
proof -
  let ?w = "sw_workIdentity slot"
  obtain s where s: "entry b ?w = Some s" "ls_outstandingRequests s = 0" "\<not> ls_planningClosed s"
      "\<not> ca_failed (ls_aggregate s)" "ca_delivery (ls_aggregate s) = sw_workDelivery slot"
      "ls_nextIssuedFragment s = sw_fragmentIndex slot"
    using assms(2) by (auto simp: idle_entry_def)
  have ok: "slot_ok s" "slot_work s = ?w" using slot_ok_look [OF assms(1) s(1)] by simp_all
  have r: "ri_work (pw_identity r) = ?w" "ri_fragmentIndex (pw_identity r) = sw_fragmentIndex slot"
      "ri_requestSequence (pw_identity r) = seq" "pw_delivery r = sw_workDelivery slot"
      "pw_finalFragment r \<longleftrightarrow> sw_remaining slot' = 0" "sw_fragmentIndex slot \<noteq> 0xFFFF"
      "sw_fragmentIndex slot' = sw_fragmentIndex slot + 1" "sw_workIdentity slot' = ?w"
      "sw_workDelivery slot' = sw_workDelivery slot"
    using assms(4) by (auto simp: planned_def)
  have valid: "validRequestIdentity (pw_identity r)" "isAccepted (pw_delivery r)"
    using workCurrent_valid [OF assms(3)] assms(5) r ok(1) s(5)
    by (auto simp: validRequestIdentity_def slot_ok_def validAggregate_def Let_def)
  have issue: "issue_slot s r = (Issue_Recorded,
      s\<lparr>ls_issuedRequest := r, ls_outstandingRequests := 1,
        ls_planningClosed := pw_finalFragment r,
        ls_nextIssuedFragment := (if pw_finalFragment r then ls_nextIssuedFragment s
                                  else ls_nextIssuedFragment s + 1)\<rparr>)"
    using s r by (simp add: issue_slot_def)
  from ledger.step_law [OF bridge_okD(3) [OF assms(1)], of "Issue_op r"] valid s(1) r(1) issue
  obtain l' where l': "recordIssued (sb_completionLedger b) r = Some (Issue_Recorded, l')"
      "ledger_ok l'" "ledger_look l' = (entry b)(?w \<mapsto> snd (issue_slot s r))"
    by (auto simp: entry_def)
  then show ?thesis
    using s r by (intro that [of l' "snd (issue_slot s r)"]) (simp_all add: busy_entry_def issue)
qed

lemma bridge_ok_forward:
  assumes ok: "bridge_ok b" and "\<not> sb_inFlight b" "works b \<noteq> []"
    and "planned (sb_forwardPlanner b) (hd (works b)) seq r slot'"
    and q: "ring_ok q" "ring_list q = slot' # tl (works b)"
    and l: "ledger_ok l" "ledger_look l = (entry b)(sw_workIdentity (hd (works b)) \<mapsto> s)"
    and "busy_entry (ledger_look l) slot' r"
    and "ac_kind action = ForwardWrite" "ac_write action = r"
  shows "bridge_ok (publish_action (b\<lparr>sb_pollState := st, sb_completionLedger := l,
    sb_workQueue := q, sb_inFlightWork := ri_work (pw_identity r)\<rparr>) action)"
    (is "bridge_ok ?b")
proof -
  obtain slot rest where works: "works b = slot # rest" using assms(3) by (cases "works b") auto
  have slot': "slot_shape (sb_forwardPlanner b) slot'" "sw_workIdentity slot' = sw_workIdentity slot"
      "ri_work (pw_identity r) = sw_workIdentity slot"
    using assms(4) works by (auto simp: planned_def)
  define b' where "b' = ?b"
  have fields: "works b' = slot' # rest" "entry b' = ledger_look l" "write_in_flight b' = True"
      "sb_inFlight b' = True" "sb_inFlightAction b' = action" "sb_inFlightWork b' = sw_workIdentity slot"
      "sb_forwardPlanner b' = sb_forwardPlanner b" "sb_workQueue b' = q" "sb_completionLedger b' = l"
    using assms(10) q(2) slot'(3) works
    by (simp_all add: b'_def publish_action_def write_in_flight_def)
  have rest: "idle_entry (ledger_look l) x" if "x \<in> set rest" for x
  proof -
    have "idle_entry (entry b) x"
      using bridge_ok_idle [OF ok] that works assms(2) by (simp add: write_in_flight_def)
    moreover have "sw_workIdentity slot \<noteq> sw_workIdentity x"
      using bridge_okD(4) [OF ok] that works by auto
    ultimately show ?thesis using l(2) works by (simp add: idle_entry_other)
  qed
  have dom: "dom (ledger_look l) = dom (entry b)"
    using bridge_okD(5) [OF ok] l(2) works by auto
  have "bridge_ok b'"
    using bridge_okD [OF ok] q(1) l(1) rest dom slot' assms(9-11)
    unfolding bridge_ok_def fields works by auto
  then show ?thesis by (simp only: b'_def)
qed

lemma commit_bound:
  assumes "scheduling = fromCandidateSet k i n" "k = ForwardWrite \<or> k = Poll \<and> unat i < unat n"
  shows "fst (commit scheduling n now st)"
  using assms(2)
proof
  assume "k = ForwardWrite"
  then show ?thesis by (simp add: assms(1) commit_forward)
next
  assume poll: "k = Poll \<and> unat i < unat n"
  from poll obtain st' where "commit (fromCandidateSet Poll i n) n now st = (True, st')"
    using commit_poll [of i n now st] by metis
  with poll show ?thesis by (simp add: assms(1))
qed

lemma bridge_ok_poll_state:
  assumes "bridge_ok b"
  shows "bridge_ok (advanceRevision (b\<lparr>sb_pollState := st\<rparr>))"
  using assms by (auto simp: bridge_ok_def write_in_flight_def split: if_splits)

lemma bridge_ok_poll_in_flight:
  assumes "bridge_ok b" "\<not> sb_inFlight b" "ac_kind action = Poll"
  shows "bridge_ok (publish_action (b\<lparr>sb_pollState := st, sb_inFlightWork := w\<rparr>) action)"
  using assms by (simp add: bridge_ok_def publish_action_def write_in_flight_def)

text \<open>A current proposal is admitted, or consumed when it needs no dispatch.\<close>

lemma admit_proposal:
  assumes ok: "bridge_ok b" and "\<not> sb_inFlight b" "snapshots_held m b" "polls_backed polls n"
    and preview: "previewAction m b session (ac_selectedAt action) polls n
        (dr_consistencyContext (ac_downstream action)) = Some (Action_Ready, action, cc, hc)"
  shows "\<exists>b'. admitAction m b action session polls n =
      Some (if ac_requiresCompletion action then ActionAdmit_Admitted else ActionAdmit_Consumed, b') \<and>
    bridge_ok b' \<and>
    (if ac_requiresCompletion action
     then sb_inFlight b' \<and> sb_inFlightAction b' = action
     else \<not> sb_inFlight b' \<and> ac_kind action = Poll) \<and>
    (if ac_kind action = ForwardWrite
     then works b' = updated_slot (hd (works b)) cc hc # tl (works b) \<and>
       forward_proposal b session (ac_selectedAt action) n
         (dr_consistencyContext (ac_downstream action)) action (updated_slot (hd (works b)) cc hc)
     else works b' = works b)"
proof -
  let ?now = "ac_selectedAt action" and ?ctx = "dr_consistencyContext (ac_downstream action)"
  have seq: "nextNonZeroSequence32 (sb_requestSequence b) \<noteq> 0"
    by (simp add: nextNonZeroSequence32_def Let_def)
  from preview_spec [OF ok assms(2-4), of session ?now ?ctx] preview
  have "forward_proposal b session ?now n ?ctx action (updated_slot (hd (works b)) cc hc) \<or>
      poll_proposal b polls ?now n action" by auto
  then show ?thesis
  proof
    assume fwd: "forward_proposal b session ?now n ?ctx action (updated_slot (hd (works b)) cc hc)"
    let ?slot = "hd (works b)" and ?r = "ac_write action"
    from fwd have f: "works b \<noteq> []" "workCurrent (sw_workIdentity ?slot) session"
      "ac_kind action = ForwardWrite" "ac_scheduling action = fromCandidateSet ForwardWrite 0 n"
      "ac_pollCount action = n" "ac_proposalRevision action = sb_revision b"
      "ac_sequence action = nextNonZeroSequence32 (sb_requestSequence b)"
      "ac_requiresCompletion action"
      "planned (sb_forwardPlanner b) ?slot (ac_sequence action) ?r (updated_slot ?slot cc hc)"
      by (auto simp: forward_proposal_def)
    have "idle_entry (entry b) ?slot"
      using bridge_ok_idle [OF ok] f(1) assms(2) by (simp add: write_in_flight_def)
    from recordIssued_idle [OF ok this f(2,9)] f(7) seq obtain l s where
      l: "recordIssued (sb_completionLedger b) ?r = Some (Issue_Recorded, l)" "ledger_ok l"
        "ledger_look l = (entry b)(sw_workIdentity ?slot \<mapsto> s)"
        "busy_entry (ledger_look l) (updated_slot ?slot cc hc) ?r" by metis
    have ring: "ring_ok (sb_workQueue b)" by (rule bridge_okD(2) [OF ok])
    from front_index [OF ring] f(1) obtain i where i: "rq_front (sb_workQueue b) = Some i"
        "rq_load (sb_workQueue b) i = Some ?slot"
        "\<And>x. \<exists>q'. rq_store (sb_workQueue b) i x = Some q' \<and> ring_ok q' \<and>
           ring_list q' = x # tl (works b)"
      unfolding works_def by metis
    obtain q where q: "rq_store (sb_workQueue b) i (updated_slot ?slot cc hc) = Some q" "ring_ok q"
        "ring_list q = updated_slot ?slot cc hc # tl (works b)" using i(3) by blast
    obtain st where st: "commit (ac_scheduling action) n ?now (sb_pollState b) = (True, st)"
      using commit_bound [OF f(4), of ?now "sb_pollState b"] by (cases "commit (ac_scheduling action) n ?now (sb_pollState b)") auto
    let ?b = "publish_action (b\<lparr>sb_pollState := st, sb_completionLedger := l,
      sb_workQueue := q, sb_inFlightWork := ri_work (pw_identity ?r)\<rparr>) action"
    have "admitAction m b action session polls n = Some (ActionAdmit_Admitted, ?b)"
      using assms(2) preview f(3-8) seq l(1) i(1,2) q(1) st
      by (simp add: admitAction_def admit_forward_def updated_slot_def)
    moreover have "bridge_ok ?b"
      by (rule bridge_ok_forward [OF ok assms(2) f(1,9) q(2,3) l(2-4) f(3) refl])
    moreover have "works ?b = updated_slot ?slot cc hc # tl (works b)" "sb_inFlight ?b"
        "sb_inFlightAction ?b = action"
      using q(3) by (simp_all add: publish_action_def)
    ultimately show ?thesis using f(3,8) fwd by auto
  next
    assume poll: "poll_proposal b polls ?now n action"
    then obtain i where p: "ac_kind action = Poll" "unat i < unat n"
        "ac_scheduling action = fromCandidateSet Poll i n" "ac_pollCount action = n"
        "ac_proposalRevision action = sb_revision b"
        "if ac_requiresCompletion action
         then ac_sequence action = nextNonZeroSequence32 (sb_requestSequence b) \<and>
           dr_sequence (ac_downstream action) = ac_sequence action \<and>
           isPollOperation (dr_operation (ac_downstream action)) \<and>
           validateDownstreamRequest (ac_downstream action) = Request_Valid
         else ac_sequence action = 0"
      by (auto simp: poll_proposal_def)
    obtain st where st: "commit (ac_scheduling action) n ?now (sb_pollState b) = (True, st)"
      using commit_bound [OF p(3), of ?now "sb_pollState b"] p(2)
      by (cases "commit (ac_scheduling action) n ?now (sb_pollState b)") auto
    show ?thesis
    proof (cases "ac_requiresCompletion action")
      case True
      let ?b = "publish_action (b\<lparr>sb_pollState := st, sb_inFlightWork := noWork\<rparr>) action"
      have "admitAction m b action session polls n = Some (ActionAdmit_Admitted, ?b)"
        using assms(2) preview p(1,3-6) seq st True
        by (simp add: admitAction_def admit_poll_def)
      moreover have "works ?b = works b" "sb_inFlight ?b" "sb_inFlightAction ?b = action"
        by (simp_all add: publish_action_def)
      ultimately show ?thesis
        using True p(1) bridge_ok_poll_in_flight [OF ok assms(2) p(1)] by auto
    next
      case False
      have "admitAction m b action session polls n =
          Some (ActionAdmit_Consumed, advanceRevision (b\<lparr>sb_pollState := st\<rparr>))"
        using assms(2) preview p(1,3-6) st False
        by (simp add: admitAction_def consume_poll_def)
      then show ?thesis
        using False p(1) bridge_ok_poll_state [OF ok, of st] assms(2) by auto
    qed
  qed
qed

lemma admitAction_spec:
  assumes "bridge_ok b" "snapshots_held m b" "polls_backed polls n"
  shows "\<exists>status b'. admitAction m b action session polls n = Some (status, b') \<and> bridge_ok b' \<and>
    status \<noteq> ActionAdmit_LedgerRejected \<and> status \<noteq> ActionAdmit_FairnessRejected \<and>
    (if status = ActionAdmit_Admitted \<or> status = ActionAdmit_Consumed
     then \<not> sb_inFlight b \<and> (\<exists>cc hc. previewAction m b session (ac_selectedAt action) polls n
        (dr_consistencyContext (ac_downstream action)) = Some (Action_Ready, action, cc, hc))
     else b' = b)"
proof (cases "sb_inFlight b")
  case True
  with assms(1) show ?thesis by (simp add: admitAction_def)
next
  case False
  obtain status a cc hc where p: "previewAction m b session (ac_selectedAt action) polls n
        (dr_consistencyContext (ac_downstream action)) = Some (status, a, cc, hc)"
    using preview_spec [OF assms(1) False assms(2,3)] by blast
  show ?thesis
  proof (cases "status = Action_Ready \<and> a = action")
    case True
    with p have p': "previewAction m b session (ac_selectedAt action) polls n
        (dr_consistencyContext (ac_downstream action)) = Some (Action_Ready, action, cc, hc)" by simp
    let ?status = "if ac_requiresCompletion action then ActionAdmit_Admitted else ActionAdmit_Consumed"
    from admit_proposal [OF assms(1) False assms(2,3) p'] obtain b' where
      "admitAction m b action session polls n = Some (?status, b')" "bridge_ok b'" by blast
    with False p' show ?thesis by (intro exI [of _ ?status] exI [of _ b']) auto
  next
    case stale: False
    with p False assms(1) show ?thesis by (auto simp: admitAction_def)
  qed
qed

text \<open>Admitting an action keeps the queued works and their order.\<close>

lemma admitAction_works:
  assumes ok: "bridge_ok b" and "snapshots_held m b" "polls_backed polls n"
    and a: "admitAction m b action session polls n = Some (admitted, b')"
  shows "map sw_workIdentity (works b') = map sw_workIdentity (works b)"
proof (cases "admitted = ActionAdmit_Admitted \<or> admitted = ActionAdmit_Consumed")
  case False
  with admitAction_spec [OF assms(1-3), of action session] a show ?thesis by auto
next
  case True
  with admitAction_spec [OF assms(1-3), of action session] a obtain cc hc where
    p: "\<not> sb_inFlight b" "previewAction m b session (ac_selectedAt action) polls n
      (dr_consistencyContext (ac_downstream action)) = Some (Action_Ready, action, cc, hc)" by auto
  from admit_proposal [OF ok p(1) assms(2,3) p(2)] a
  have "works b' = works b \<or> (\<exists>slot' context. works b' = slot' # tl (works b) \<and>
      forward_proposal b session (ac_selectedAt action) n context action slot')"
    by (auto split: if_splits)
  then show ?thesis
    by (cases "works b") (auto simp: forward_proposal_def planned_def)
qed

section \<open>Retiring the front work\<close>

lemma popFrontIf_front:
  assumes "ring_ok (sb_workQueue b)" "works b \<noteq> []" "sw_workIdentity (hd (works b)) = w"
  obtains q where "popFrontIf b w = Some (b\<lparr>sb_workQueue := q\<rparr>)" "ring_ok q"
    "ring_list q = tl (works b)"
proof -
  have "frontSlot b = Some (Some (hd (works b)))"
    using ring.peek_law [OF assms(1)] assms(2) by (simp add: frontSlot_def ring_peek_def works_def)
  then show ?thesis
    using assms(3) works_popFront [OF assms(1)]
    by (intro that [of "snd (popFront (sb_workQueue b))"]) (simp_all add: popFrontIf_def works_def)
qed

text \<open>Dropping the front work from the queue and from the ledger keeps the invariant.\<close>

lemma bridge_ok_retire:
  assumes ok: "bridge_ok b" and "works b \<noteq> []"
    and q: "ring_ok q" "ring_list q = tl (works b)"
    and l: "ledger_ok l" "ledger_look l = (entry b)(sw_workIdentity (hd (works b)) := None)"
    and b': "sb_workQueue b' = q" "sb_completionLedger b' = l" "\<not> sb_inFlight b'"
      "sb_forwardPlanner b' = sb_forwardPlanner b"
  shows "bridge_ok b' \<and> works b' = tl (works b)"
proof -
  obtain slot rest where works: "works b = slot # rest" using assms(2) by (cases "works b") auto
  have fields: "works b' = rest" "entry b' = ledger_look l" "write_in_flight b' = False"
    using b' q works by (simp_all add: works_def entry_def write_in_flight_def)
  have rest: "idle_entry (ledger_look l) x" if "x \<in> set rest" for x
  proof -
    have "idle_entry (entry b) x" using ok that works by (auto simp: bridge_ok_def split: if_splits)
    moreover have "sw_workIdentity slot \<noteq> sw_workIdentity x"
      using bridge_okD(4) [OF ok] that works by auto
    ultimately show ?thesis using l(2) works by (simp add: idle_entry_other)
  qed
  have "insert (sw_workIdentity slot) (sw_workIdentity ` set rest) = dom (entry b)"
      "sw_workIdentity slot \<notin> sw_workIdentity ` set rest"
    using bridge_okD(4,5) [OF ok] works by simp_all
  then have dom: "dom (ledger_look l) = sw_workIdentity ` set rest"
    using l(2) works by (simp flip: \<open>insert _ _ = _\<close>)
  have "bridge_ok b'"
    using bridge_okD [OF ok] q(1) l(1) rest dom b' works
    unfolding bridge_ok_def fields by auto
  then show ?thesis using fields works by simp
qed

section \<open>Completion\<close>

lemma bridge_ok_clear_poll:
  assumes "bridge_ok b" "\<not> write_in_flight b"
  shows "bridge_ok (clearInFlight b)"
  using assms by (auto simp: bridge_ok_def write_in_flight_def split: if_splits)

text \<open>A write stays the front work's outstanding request until it is completed.\<close>

lemma bridge_ok_settled:
  assumes ok: "bridge_ok b" and wif: "write_in_flight b"
    and l: "ledger_ok l" "ledger_look l = (entry b)(sw_workIdentity (hd (works b)) \<mapsto> s)"
    and idle: "idle_entry (ledger_look l) (hd (works b))"
  shows "bridge_ok (clearInFlight (b\<lparr>sb_completionLedger := l\<rparr>))" (is "bridge_ok ?b")
proof -
  obtain slot rest where works: "works b = slot # rest"
    using ok wif by (cases "works b") (auto simp: bridge_ok_def)
  define b' where "b' = ?b"
  have fields: "works b' = slot # rest" "entry b' = ledger_look l" "write_in_flight b' = False"
      "sb_inFlight b' = False" "sb_forwardPlanner b' = sb_forwardPlanner b"
      "sb_workQueue b' = sb_workQueue b" "sb_completionLedger b' = l"
    using works by (simp_all add: b'_def write_in_flight_def)
  have rest: "idle_entry (ledger_look l) x" if "x \<in> set rest" for x
  proof -
    have "idle_entry (entry b) x" using ok that works by (auto simp: bridge_ok_def split: if_splits)
    moreover have "sw_workIdentity slot \<noteq> sw_workIdentity x"
      using bridge_okD(4) [OF ok] that works by auto
    ultimately show ?thesis using l(2) works by (simp add: idle_entry_other)
  qed
  have dom: "dom (ledger_look l) = dom (entry b)"
    using bridge_okD(5) [OF ok] l(2) works by auto
  have "bridge_ok b'"
    using bridge_okD [OF ok] l(1) rest idle dom works
    unfolding bridge_ok_def fields by auto
  then show ?thesis by (simp only: b'_def)
qed

text \<open>The entry of the front work during a write in flight.\<close>

lemma busy_front:
  assumes ok: "bridge_ok b" and wif: "write_in_flight b"
  defines "w \<equiv> sw_workIdentity (hd (works b))" and "r \<equiv> ac_write (sb_inFlightAction b)"
  obtains s where "works b \<noteq> []" "sb_inFlightWork b = w" "ri_work (pw_identity r) = w"
    "entry b w = Some s" "slot_ok s" "slot_work s = w" "ls_outstandingRequests s \<noteq> 0"
    "ls_issuedRequest s = r" "\<not> ca_failed (ls_aggregate s)"
    "ca_delivery (ls_aggregate s) = sw_workDelivery (hd (works b))"
    "pw_finalFragment r \<longleftrightarrow> sw_remaining (hd (works b)) = 0"
    "pw_finalFragment r \<longleftrightarrow> ls_planningClosed s"
    "\<not> pw_finalFragment r \<Longrightarrow> ls_nextIssuedFragment s = sw_fragmentIndex (hd (works b))"
proof -
  have front: "works b \<noteq> []" "sb_inFlightWork b = w" "busy_entry (entry b) (hd (works b)) r"
    using ok wif by (auto simp: bridge_ok_def w_def r_def)
  then obtain s where s: "entry b w = Some s" "ls_outstandingRequests s \<noteq> 0" "ls_issuedRequest s = r"
      "\<not> ca_failed (ls_aggregate s)" "ca_delivery (ls_aggregate s) = sw_workDelivery (hd (works b))"
      "pw_finalFragment r \<longleftrightarrow> sw_remaining (hd (works b)) = 0"
      "\<not> pw_finalFragment r \<Longrightarrow> ls_nextIssuedFragment s = sw_fragmentIndex (hd (works b))"
    by (auto simp: busy_entry_def w_def)
  have ok_s: "slot_ok s" "slot_work s = w" using slot_ok_look [OF ok s(1)] by simp_all
  then have m: "request_matches s" using s(2) by (auto simp: slot_ok_def Let_def split: if_splits)
  then have "ri_work (pw_identity r) = w" using ok_s(2) s(3) by (simp add: request_matches_def slot_work_def Let_def)
  moreover have "pw_finalFragment r \<longleftrightarrow> ls_planningClosed s"
    using m s(3,4) by (auto simp: request_matches_def Let_def split: if_splits)
  ultimately show ?thesis using that front(1,2) s ok_s by blast
qed

text \<open>The summary that a completion of the outstanding write reports.\<close>

definition reported_outcome :: "PlannedWriteRequest \<Rightarrow> DownstreamOutcome \<Rightarrow> WorkCompletionOutcome" where
  "reported_outcome r outcome =
     (if outcome \<noteq> Outcome_Applied then workOutcomeFor outcome
      else if pw_finalFragment r then Work_Applied else Work_Pending)"

lemma not_failed_outcome:
  "slot_ok s \<Longrightarrow> \<not> ca_failed (ls_aggregate s) \<Longrightarrow>
     ls_observedOutcome s = Work_Pending \<or> ls_observedOutcome s = Work_Applied"
  by (auto simp: slot_ok_def Let_def)

lemma combine_first:
  "x = Work_Pending \<or> x = Work_Applied \<Longrightarrow> combineWorkOutcomes x y = workOutcomeFor y"
  by (auto simp: combineWorkOutcomes_def)

lemma workOutcome_not_pending [simp]:
  "workOutcomeFor x \<noteq> Work_Pending"
  "isKnownDownstreamOutcome x \<Longrightarrow> workOutcomeFor x = Work_Applied \<longleftrightarrow> x = Outcome_Applied"
  by (cases x; simp)+

text \<open>The ledger's answer to the outcome of the write in flight.\<close>

lemma resolve_in_flight:
  assumes ok: "bridge_ok b" and wif: "write_in_flight b" and known: "isKnownDownstreamOutcome x"
  defines "w \<equiv> sw_workIdentity (hd (works b))" and "r \<equiv> ac_write (sb_inFlightAction b)"
  obtains res l where
    "ledger_resolve (sb_completionLedger b) r \<lparr>cr_identity = pw_identity r, cr_outcome = x\<rparr> session =
       Some (res, l)" "ledger_ok l"
    "if workCurrent w session
     then lr_status res = Resolve_Resolved \<and> decisionCurrent (lr_decision res) \<and>
       (\<exists>s. ledger_look l = (entry b)(w \<mapsto> s) \<and> lr_summary res = summarize s \<and>
          ls_outstandingRequests s = 0 \<and> ls_observedOutcome s = workOutcomeFor x \<and>
          (ls_planningClosed s \<longleftrightarrow> pw_finalFragment r) \<and>
          (x = Outcome_Applied \<longrightarrow> \<not> pw_finalFragment r \<longrightarrow>
             idle_entry (ledger_look l) (hd (works b))))
     else lr_status res = Resolve_CompletionRejected \<and>
       cd_status (lr_decision res) = Decision_StaleSession \<and> ledger_look l = entry b"
proof -
  let ?rec = "\<lparr>cr_identity = pw_identity r, cr_outcome = x\<rparr>"
  from busy_front [OF ok wif] obtain s where s: "ri_work (pw_identity r) = w"
    "entry b w = Some s" "slot_ok s" "slot_work s = w" "ls_outstandingRequests s \<noteq> 0"
    "ls_issuedRequest s = r" "\<not> ca_failed (ls_aggregate s)"
    "ca_delivery (ls_aggregate s) = sw_workDelivery (hd (works b))"
    "pw_finalFragment r \<longleftrightarrow> sw_remaining (hd (works b)) = 0"
    "pw_finalFragment r \<longleftrightarrow> ls_planningClosed s"
    "\<not> pw_finalFragment r \<Longrightarrow> ls_nextIssuedFragment s = sw_fragmentIndex (hd (works b))"
    unfolding w_def r_def by metis
  from ledger.step_law [OF bridge_okD(3) [OF ok], of "Resolve_op r ?rec session"] s(1,2)
  obtain l where l: "ledger_resolve (sb_completionLedger b) r ?rec session =
      Some (fst (resolve_slot s r ?rec session), l)" "ledger_ok l"
      "ledger_look l = (entry b)(w \<mapsto> snd (resolve_slot s r ?rec session))"
    by (auto simp: entry_def)
  note exact = resolve_slot_exact [OF s(3,5) known, of session, unfolded s(6)]
  show ?thesis
  proof (cases "workCurrent w session")
    case False
    with exact s(4) have st: "lr_status (fst (resolve_slot s r ?rec session)) = Resolve_CompletionRejected"
        "cd_status (lr_decision (fst (resolve_slot s r ?rec session))) = Decision_StaleSession"
      by simp_all
    then have "snd (resolve_slot s r ?rec session) = s" by (simp add: resolve_slot_unresolved)
    with l s(2) st False show ?thesis by (intro that [OF l(1,2)]) (simp add: map_upd_triv)
  next
    case True
    with exact s(4) have st: "lr_status (fst (resolve_slot s r ?rec session)) = Resolve_Resolved"
        "decisionCurrent (lr_decision (fst (resolve_slot s r ?rec session)))"
      by simp_all
    note R = resolve_slot_resolved [OF st(1), unfolded s(6)]
    define s' where "s' = snd (resolve_slot s r ?rec session)"
    have s': "ls_outstandingRequests s' = 0" "ls_planningClosed s' = ls_planningClosed s"
        "ls_nextIssuedFragment s' = ls_nextIssuedFragment s"
        "ls_observedOutcome s' = workOutcomeFor x"
        "ls_aggregate s' = snd (resolveCompletion r ?rec session (ls_aggregate s))"
      using R combine_first [OF not_failed_outcome [OF s(3,7)]] by (simp_all add: s'_def)
    have look: "ledger_look l = (entry b)(w \<mapsto> s')" and
      sum: "lr_summary (fst (resolve_slot s r ?rec session)) = summarize s'"
      using l(3) R by (simp_all add: s'_def)
    have g: "resolve_guard r ?rec session (ls_aggregate s)" using R by simp
    have idle: "idle_entry (ledger_look l) (hd (works b))"
      if "x = Outcome_Applied" "\<not> pw_finalFragment r"
      unfolding look using that s(7-11) s' resolve_accepted [OF g]
      by (simp add: idle_entry_def w_def)
    show ?thesis
      using sum st True s'(1,2,4) s(10) idle look by (intro that [OF l(1,2)]) auto
  qed
qed

lemma entry_clear: "ledger_look (sb_completionLedger b) = entry b"
  by (simp add: entry_def)

lemma retire_after_release:
  assumes ok: "bridge_ok b" and wif: "write_in_flight b"
    and l: "ledger_ok l" "ledger_look l = (entry b)(sw_workIdentity (hd (works b)) \<mapsto> s)"
    and "ws_drained (summarize s)"
  obtains l' q where "release l (sw_workIdentity (hd (works b))) = Some (Release_Released, l')"
    "popFrontIf (clearInFlight (b\<lparr>sb_completionLedger := l0\<rparr>)\<lparr>sb_completionLedger := l'\<rparr>)
       (sw_workIdentity (hd (works b))) =
     Some (clearInFlight (b\<lparr>sb_completionLedger := l0\<rparr>)\<lparr>sb_completionLedger := l', sb_workQueue := q\<rparr>)"
    "bridge_ok (clearInFlight (b\<lparr>sb_completionLedger := l0\<rparr>)\<lparr>sb_completionLedger := l', sb_workQueue := q\<rparr>)"
    "ring_list q = tl (works b)"
proof -
  let ?w = "sw_workIdentity (hd (works b))" and ?b = "clearInFlight (b\<lparr>sb_completionLedger := l0\<rparr>)"
  have front: "works b \<noteq> []" using ok wif by (simp add: bridge_ok_def)
  from ledger.step_law [OF l(1), of "Release_op ?w"] l(2) assms(5) obtain l' where
    l': "release l ?w = Some (Release_Released, l')" "ledger_ok l'" "ledger_look l' = (entry b)(?w := None)"
    by auto
  let ?c = "?b\<lparr>sb_completionLedger := l'\<rparr>"
  have c: "ring_ok (sb_workQueue ?c)" "works ?c = works b" "works ?c \<noteq> []"
      "sw_workIdentity (hd (works ?c)) = ?w"
    using bridge_okD(2) [OF ok] front by simp_all
  from popFrontIf_front [OF c(1,3,4)] obtain q where
    q: "popFrontIf ?c ?w = Some (?c\<lparr>sb_workQueue := q\<rparr>)" "ring_ok q" "ring_list q = tl (works b)"
    unfolding c(2) by metis
  have "bridge_ok (?c\<lparr>sb_workQueue := q\<rparr>) \<and> works (?c\<lparr>sb_workQueue := q\<rparr>) = tl (works b)"
    by (rule bridge_ok_retire [OF ok front q(2,3) l'(2,3)]) simp_all
  with l'(1) q show ?thesis by (intro that [of l' q]) simp_all
qed

lemma complete_poll:
  assumes "bridge_ok b" "sb_inFlight b" "\<not> write_in_flight b" "isKnownDownstreamOutcome x"
  shows "\<exists>c b'. complete b (sb_inFlightAction b) x session = Some (c, b') \<and>
    bridge_ok b' \<and> \<not> sb_inFlight b' \<and> works b' = works b \<and>
    cp_status c = Complete_Completed \<and> \<not> cp_workRetired c"
proof -
  have "ac_kind (sb_inFlightAction b) = Poll"
    using assms(1-3) by (auto simp: bridge_ok_def write_in_flight_def)
  with assms show ?thesis
    using bridge_ok_clear_poll [OF assms(1,3)] by (simp add: complete_def newCompletion_def)
qed

lemma complete_stale_write:
  assumes ok: "bridge_ok b" and wif: "write_in_flight b" and known: "isKnownDownstreamOutcome x"
    and "\<not> workCurrent (sw_workIdentity (hd (works b))) session"
  shows "\<exists>c b'. complete b (sb_inFlightAction b) x session = Some (c, b') \<and>
    bridge_ok b' \<and> \<not> sb_inFlight b' \<and> works b' = tl (works b) \<and>
    cp_status c = Complete_StaleSession \<and> cp_workRetired c \<and>
    \<not> decisionCurrent (cp_decision c)"
proof -
  let ?w = "sw_workIdentity (hd (works b))" and ?r = "ac_write (sb_inFlightAction b)"
  have kind: "sb_inFlight b" "ac_kind (sb_inFlightAction b) = ForwardWrite"
    using wif by (simp_all add: write_in_flight_def)
  from busy_front [OF ok wif] obtain s where front: "works b \<noteq> []" "sb_inFlightWork b = ?w"
      "ri_work (pw_identity ?r) = ?w" "entry b ?w = Some s" by metis
  from resolve_in_flight [OF ok wif known, of session] assms(4) obtain res l where
    res: "ledger_resolve (sb_completionLedger b) ?r \<lparr>cr_identity = pw_identity ?r, cr_outcome = x\<rparr> session =
       Some (res, l)" "ledger_ok l" "lr_status res = Resolve_CompletionRejected"
      "cd_status (lr_decision res) = Decision_StaleSession" "ledger_look l = entry b"
    by metis
  from abandon_present [OF res(2), of ?w s] front(4) res(5) obtain l' where
    l': "abandon l ?w = Some (True, l')" "ledger_ok l'" "ledger_look l' = (entry b)(?w := None)"
    by auto
  let ?c = "b\<lparr>sb_completionLedger := l'\<rparr>"
  have c: "ring_ok (sb_workQueue ?c)" "works ?c = works b" "works ?c \<noteq> []"
      "sw_workIdentity (hd (works ?c)) = ?w"
    using bridge_okD(2) [OF ok] front by simp_all
  from popFrontIf_front [OF c(1,3,4)] obtain q where
    q: "popFrontIf ?c ?w = Some (?c\<lparr>sb_workQueue := q\<rparr>)" "ring_ok q" "ring_list q = tl (works b)"
    unfolding c(2) by metis
  let ?d = "clearInFlight (?c\<lparr>sb_workQueue := q\<rparr>)"
  have "bridge_ok ?d \<and> works ?d = tl (works b)"
    by (rule bridge_ok_retire [OF ok front(1) q(2,3) l'(2,3)]) simp_all
  moreover have "\<exists>c. complete b (sb_inFlightAction b) x session = Some (c, advanceRevision ?d) \<and>
      cp_status c = Complete_StaleSession \<and> cp_workRetired c \<and> cp_decision c = lr_decision res"
    using kind known front res(1,3,4) l'(1) q(1)
    by (simp add: complete_def complete_stale_def)
  ultimately show ?thesis using res(4) by (auto simp: decisionCurrent_def)
qed

lemma newCompletion_not_retired [simp]: "\<not> cp_workRetired newCompletion"
  by (simp add: newCompletion_def)

lemma complete_current_write:
  assumes ok: "bridge_ok b" and wif: "write_in_flight b" and known: "isKnownDownstreamOutcome x"
    and cur: "workCurrent (sw_workIdentity (hd (works b))) session"
  defines "r \<equiv> ac_write (sb_inFlightAction b)"
  shows "\<exists>c b'. complete b (sb_inFlightAction b) x session = Some (c, b') \<and>
    bridge_ok b' \<and> \<not> sb_inFlight b' \<and>
    cp_status c = Complete_Completed \<and> decisionCurrent (cp_decision c) \<and>
    cp_workRetired c = (x \<noteq> Outcome_Applied \<or> pw_finalFragment r) \<and>
    works b' = (if cp_workRetired c then tl (works b) else works b) \<and>
    ws_outcome (cp_work c) = reported_outcome r x"
proof -
  let ?w = "sw_workIdentity (hd (works b))"
  have kind: "sb_inFlight b" "ac_kind (sb_inFlightAction b) = ForwardWrite"
    using wif by (simp_all add: write_in_flight_def)
  from busy_front [OF ok wif] have front: "sb_inFlightWork b = ?w" "ri_work (pw_identity r) = ?w"
    unfolding r_def by metis+
  from resolve_in_flight [OF ok wif known, of session] cur obtain res l s where
    res: "ledger_resolve (sb_completionLedger b) r \<lparr>cr_identity = pw_identity r, cr_outcome = x\<rparr> session =
       Some (res, l)" "ledger_ok l" "lr_status res = Resolve_Resolved" "decisionCurrent (lr_decision res)"
      "ledger_look l = (entry b)(?w \<mapsto> s)" "lr_summary res = summarize s"
    and s: "ls_outstandingRequests s = 0" "ls_observedOutcome s = workOutcomeFor x"
      "ls_planningClosed s \<longleftrightarrow> pw_finalFragment r"
      "x = Outcome_Applied \<Longrightarrow> \<not> pw_finalFragment r \<Longrightarrow> idle_entry (ledger_look l) (hd (works b))"
    unfolding r_def by (smt (verit) that)
  let ?b = "clearInFlight (b\<lparr>sb_completionLedger := l\<rparr>)"
  let ?result = "newCompletion\<lparr>cp_kind := ForwardWrite, cp_outcome := x,
    cp_workContext := ac_workContext (sb_inFlightAction b), cp_decision := lr_decision res,
    cp_work := summarize s\<rparr>"
  have complete: "complete b (sb_inFlightAction b) x session =
      complete_resolved (b\<lparr>sb_completionLedger := l\<rparr>) ?w x ?result"
    using kind known front res(1,3,6) by (simp add: complete_def r_def)
  show ?thesis
  proof (cases "x = Outcome_Applied")
    case True
    have sum: "ws_drained (summarize s) = pw_finalFragment r"
        "ws_outcome (summarize s) = reported_outcome r x"
      using s True by (simp_all add: summarize_def Let_def reported_outcome_def)
    show ?thesis
    proof (cases "pw_finalFragment r")
      case False
      have "bridge_ok ?b" by (rule bridge_ok_settled [OF ok wif res(2,5) s(4) [OF True False]])
      with False True sum res(4) show ?thesis
        unfolding complete by (simp add: complete_resolved_def Let_def)
    next
      case final: True
      with sum(1) have "ws_drained (summarize s)" by simp
      from retire_after_release [OF ok wif res(2,5) this, of l] obtain l' q where
        "release l ?w = Some (Release_Released, l')"
        "popFrontIf (?b\<lparr>sb_completionLedger := l'\<rparr>) ?w =
           Some (?b\<lparr>sb_completionLedger := l', sb_workQueue := q\<rparr>)"
        "bridge_ok (?b\<lparr>sb_completionLedger := l', sb_workQueue := q\<rparr>)"
        "ring_list q = tl (works b)" by metis
      with final True sum res(4) show ?thesis
        unfolding complete by (simp add: complete_resolved_def Let_def clearInFlight_def)
    qed
  next
    case False
    have failed: "workOutcomeFor x \<noteq> Work_Applied" using False known by simp
    let ?s = "s\<lparr>ls_planningClosed := True\<rparr>"
    from ledger.step_law [OF res(2), of "Close_op ?w"] res(5) s(2) failed obtain l1 where
      l1: "closePlanningAfterFailure l ?w = Some (True, l1)" "ledger_ok l1"
        "ledger_look l1 = (entry b)(?w \<mapsto> ?s)"
      by (auto simp: close_slot_def)
    from ledger.step_law [OF l1(2), of "Summary_op ?w"] l1(3)
    have summary: "ledger_summary l1 ?w = Some (True, summarize ?s)" by auto
    have sum: "ws_drained (summarize ?s)" "ws_outcome (summarize ?s) = reported_outcome r x"
      using s(1,2) failed False by (simp_all add: summarize_def Let_def reported_outcome_def)
    from retire_after_release [OF ok wif l1(2,3) sum(1), of l1] obtain l' q where
      "release l1 ?w = Some (Release_Released, l')"
      "popFrontIf (clearInFlight (b\<lparr>sb_completionLedger := l1\<rparr>)\<lparr>sb_completionLedger := l'\<rparr>) ?w =
         Some (clearInFlight (b\<lparr>sb_completionLedger := l1\<rparr>)\<lparr>sb_completionLedger := l', sb_workQueue := q\<rparr>)"
      "bridge_ok (clearInFlight (b\<lparr>sb_completionLedger := l1\<rparr>)\<lparr>sb_completionLedger := l', sb_workQueue := q\<rparr>)"
      "ring_list q = tl (works b)" by metis
    with False sum res(4) l1(1) summary show ?thesis
      unfolding complete by (simp add: complete_resolved_def Let_def clearInFlight_def)
  qed
qed

text \<open>Every call of \<open>complete\<close>, in every state that satisfies the invariant.\<close>

lemma complete_spec:
  assumes ok: "bridge_ok b"
  shows "\<exists>c b'. complete b action x session = Some (c, b') \<and> bridge_ok b' \<and>
    (if sb_inFlight b \<and> action = sb_inFlightAction b \<and> isKnownDownstreamOutcome x
     then \<not> sb_inFlight b' \<and>
       works b' = (if cp_workRetired c then tl (works b) else works b) \<and>
       (if write_in_flight b
        then if workCurrent (sw_workIdentity (hd (works b))) session
             then cp_status c = Complete_Completed \<and> decisionCurrent (cp_decision c) \<and>
               cp_workRetired c = (x \<noteq> Outcome_Applied \<or> pw_finalFragment (ac_write action)) \<and>
               ws_outcome (cp_work c) = reported_outcome (ac_write action) x
             else cp_status c = Complete_StaleSession \<and> cp_workRetired c \<and>
               \<not> decisionCurrent (cp_decision c)
        else cp_status c = Complete_Completed \<and> \<not> cp_workRetired c)
     else b' = b \<and>
       cp_status c = (if \<not> sb_inFlight b then Complete_NoActionInFlight
                      else if action \<noteq> sb_inFlightAction b then Complete_ActionMismatch
                      else Complete_InvalidOutcome))"
proof (cases "sb_inFlight b \<and> action = sb_inFlightAction b \<and> isKnownDownstreamOutcome x")
  case False
  with ok show ?thesis by (auto simp: complete_def newCompletion_def)
next
  case True
  then have t: "sb_inFlight b" "isKnownDownstreamOutcome x" by simp_all
  show ?thesis
  proof (cases "write_in_flight b")
    case False
    with complete_poll [OF ok t(1) False t(2), of session] True show ?thesis by auto
  next
    case wif: True
    show ?thesis
    proof (cases "workCurrent (sw_workIdentity (hd (works b))) session")
      case cur: True
      with complete_current_write [OF ok wif t(2) cur] True wif show ?thesis by auto
    next
      case stale: False
      with complete_stale_write [OF ok wif t(2) stale] True wif show ?thesis by auto
    qed
  qed
qed

section \<open>Retirement without completion\<close>

lemma retireFront_spec:
  assumes ok: "bridge_ok b" and "\<not> sb_inFlight b" "works b \<noteq> []"
  obtains b' where "retireFront b (hd (works b)) =
      Some (\<lparr>re_work = sw_workIdentity (hd (works b)), re_table = sw_table (hd (works b)),
             re_userContext = sw_userContext (hd (works b))\<rparr>, b')"
    "bridge_ok b'" "works b' = tl (works b)" "\<not> sb_inFlight b'"
proof -
  let ?w = "sw_workIdentity (hd (works b))"
  have "?w \<in> dom (entry b)" using bridge_okD(5) [OF ok] assms(3) by force
  then obtain s where "ledger_look (sb_completionLedger b) ?w = Some s" by (auto simp: entry_def)
  from abandon_present [OF bridge_okD(3) [OF ok] this] obtain l' where
    l': "abandon (sb_completionLedger b) ?w = Some (True, l')" "ledger_ok l'"
      "ledger_look l' = (entry b)(?w := None)" by (auto simp: entry_def)
  have q: "ring_ok (snd (popFront (sb_workQueue b)))"
      "ring_list (snd (popFront (sb_workQueue b))) = tl (works b)"
    using works_popFront [OF bridge_okD(2) [OF ok]] by (simp_all add: works_def)
  let ?b = "advanceRevision (b\<lparr>sb_completionLedger := l',
    sb_workQueue := snd (popFront (sb_workQueue b))\<rparr>)"
  have "bridge_ok ?b \<and> works ?b = tl (works b)"
    by (rule bridge_ok_retire [OF ok assms(3) q l'(2,3)]) (simp_all add: assms(2))
  with l'(1) assms(2) show ?thesis by (intro that [of ?b]) (simp_all add: retireFront_def)
qed

lemma discard_spec:
  assumes ok: "bridge_ok b"
  shows "\<exists>status retired b'. discardOneStaleWork b session = Some (status, retired, b') \<and>
    bridge_ok b' \<and>
    status = (if sb_inFlight b then Retire_ActionInFlight
              else if works b = [] then Retire_Empty
              else if workCurrent (sw_workIdentity (hd (works b))) session then Retire_WorkStillCurrent
              else Retire_Retired) \<and>
    (if status = Retire_Retired
     then works b' = tl (works b) \<and> \<not> sb_inFlight b' \<and>
       retired = \<lparr>re_work = sw_workIdentity (hd (works b)), re_table = sw_table (hd (works b)),
                  re_userContext = sw_userContext (hd (works b))\<rparr>
     else b' = b \<and> retired = newRetirement)"
proof (cases "sb_inFlight b \<or> works b = []")
  case True
  with ok frontSlot_works [OF ok] show ?thesis by (auto simp: discardOneStaleWork_def)
next
  case False
  from retireFront_spec [OF ok] False obtain b' where
    "retireFront b (hd (works b)) =
      Some (\<lparr>re_work = sw_workIdentity (hd (works b)), re_table = sw_table (hd (works b)),
             re_userContext = sw_userContext (hd (works b))\<rparr>, b')"
    "bridge_ok b'" "works b' = tl (works b)" "\<not> sb_inFlight b'" by metis
  with ok frontSlot_works [OF ok] False show ?thesis by (simp add: discardOneStaleWork_def)
qed

lemma abandonFront_spec:
  assumes ok: "bridge_ok b"
  shows "\<exists>status retired b'. abandonFront b = Some (status, retired, b') \<and> bridge_ok b' \<and>
    status = (if sb_inFlight b then Retire_ActionInFlight
              else if works b = [] then Retire_Empty else Retire_Retired) \<and>
    (if status = Retire_Retired
     then works b' = tl (works b) \<and> \<not> sb_inFlight b' \<and>
       retired = \<lparr>re_work = sw_workIdentity (hd (works b)), re_table = sw_table (hd (works b)),
                  re_userContext = sw_userContext (hd (works b))\<rparr>
     else b' = b \<and> retired = newRetirement)"
proof (cases "sb_inFlight b \<or> works b = []")
  case True
  with ok frontSlot_works [OF ok] show ?thesis by (auto simp: abandonFront_def)
next
  case False
  from retireFront_spec [OF ok] False obtain b' where
    "retireFront b (hd (works b)) =
      Some (\<lparr>re_work = sw_workIdentity (hd (works b)), re_table = sw_table (hd (works b)),
             re_userContext = sw_userContext (hd (works b))\<rparr>, b')"
    "bridge_ok b'" "works b' = tl (works b)" "\<not> sb_inFlight b'" by metis
  with ok frontSlot_works [OF ok] False show ?thesis by (simp add: abandonFront_def)
qed

lemma reset_loop_spec:
  assumes "ring_ok q" "ledger_ok l"
    and "distinct (map sw_workIdentity (ring_list q))"
    and "sw_workIdentity ` set (ring_list q) = dom (ledger_look l)"
  shows "\<exists>q' l'. reset_loop q l = Some (q', l') \<and> ring_ok q' \<and> ring_list q' = [] \<and>
    ledger_ok l' \<and> ledger_look l' = Map.empty"
  using assms
proof (induction "ring_list q" arbitrary: q l)
  case Nil
  then have "rq_front q = None" by (intro front_index_empty) simp_all
  moreover have "ledger_look l = Map.empty" using Nil by (auto simp: dom_def)
  moreover have "ring_list q = []" using Nil.hyps by (rule sym)
  ultimately show ?case using Nil.prems by (subst reset_loop.simps) (simp del: ring_list_Nil)
next
  case (Cons slot rest)
  have ne: "ring_list q \<noteq> []" and hd: "hd (ring_list q) = slot"
    using Cons.hyps(2) [symmetric] by simp_all
  from front_index [OF Cons.prems(1) ne] hd obtain i where
    i: "rq_front q = Some i" "rq_load q i = Some slot" by metis
  let ?w = "sw_workIdentity slot"
  have "?w \<in> dom (ledger_look l)" using Cons.prems(4) Cons.hyps(2) [symmetric] by auto
  then obtain s where "ledger_look l ?w = Some s" by auto
  from abandon_present [OF Cons.prems(2) this] obtain l1 where
    l1: "abandon l ?w = Some (True, l1)" "ledger_ok l1" "ledger_look l1 = (ledger_look l)(?w := None)"
    by metis
  note pop = works_popFront [OF Cons.prems(1)]
  have tl: "ring_list (snd (popFront q)) = rest" using pop(2) Cons.hyps(2) [symmetric] by simp
  have d: "distinct (map sw_workIdentity rest)" "?w \<notin> sw_workIdentity ` set rest"
    using Cons.prems(3) Cons.hyps(2) [symmetric] by simp_all
  have "insert ?w (sw_workIdentity ` set rest) = dom (ledger_look l)"
    using Cons.prems(4) Cons.hyps(2) [symmetric] by simp
  then have "sw_workIdentity ` set rest = dom (ledger_look l1)"
    using d(2) l1(3) by (simp flip: \<open>insert _ _ = _\<close>)
  with Cons.hyps(1) [OF tl [symmetric] pop(1) l1(2)] d(1) tl
  obtain q' l' where "reset_loop (snd (popFront q)) l1 = Some (q', l')" "ring_ok q'"
    "ring_list q' = []" "ledger_ok l'" "ledger_look l' = Map.empty" by auto
  then show ?case using i l1(1) by (subst reset_loop.simps) simp
qed

lemma reset_spec:
  assumes ok: "bridge_ok b"
  shows "\<exists>b'. reset b = Some (\<not> sb_inFlight b, b') \<and> bridge_ok b' \<and>
    (if sb_inFlight b then b' = b
     else works b' = [] \<and> entry b' = Map.empty \<and> sb_pollState b' = newPollPlannerState)"
proof (cases "sb_inFlight b")
  case True
  with ok show ?thesis by (simp add: reset_def)
next
  case False
  from reset_loop_spec [OF bridge_okD(2,3) [OF ok]] bridge_okD(4,5) [OF ok] obtain q l where
    r: "reset_loop (sb_workQueue b) (sb_completionLedger b) = Some (q, l)" "ring_ok q"
    "ring_list q = []" "ledger_ok l" "ledger_look l = Map.empty"
    by (auto simp: works_def entry_def)
  define b' where "b' = b\<lparr>sb_workQueue := q, sb_completionLedger := l, sb_pollState := newPollPlannerState\<rparr>"
  have fields: "works b' = []" "entry b' = Map.empty" "sb_inFlight b' = False"
      "sb_forwardPlanner b' = sb_forwardPlanner b" "sb_workQueue b' = q" "sb_completionLedger b' = l"
      "write_in_flight b' = False" "sb_pollState (advanceRevision b') = newPollPlannerState"
    using r False by (simp_all add: b'_def write_in_flight_def works_def entry_def advanceRevision_def)
  have "bridge_ok b'"
    using bridge_okD(1) [OF ok] r unfolding bridge_ok_def fields by simp
  moreover have "reset b = Some (True, advanceRevision b')"
    using False r(1) by (simp add: reset_def b'_def)
  ultimately show ?thesis using False fields by (intro exI [of _ "advanceRevision b'"]) simp
qed

section \<open>Reachable states\<close>

text \<open>
  One call of the facade. The caller passes memory in which the snapshots of the queued works
  are readable, and poll arrays of at least the announced length; everything else about the
  arguments is free.
\<close>

inductive bridge_step :: "StoreForwardBridge \<Rightarrow> StoreForwardBridge \<Rightarrow> bool" where
  admit_coil: "admitCoilWork b cwork session context = Some (admission, b') \<Longrightarrow> bridge_step b b'"
| admit_holding: "admitHoldingWork b hwork session context = Some (admission, b') \<Longrightarrow> bridge_step b b'"
| admit_action: "snapshots_held m b \<Longrightarrow> polls_backed polls n \<Longrightarrow>
    admitAction m b action session polls n = Some (admitted, b') \<Longrightarrow> bridge_step b b'"
| complete_action: "complete b action outcome session = Some (completion, b') \<Longrightarrow> bridge_step b b'"
| discard_stale: "discardOneStaleWork b session = Some (status, retired, b') \<Longrightarrow> bridge_step b b'"
| abandon_front: "abandonFront b = Some (status, retired, b') \<Longrightarrow> bridge_step b b'"
| reset_bridge: "reset b = Some (done, b') \<Longrightarrow> bridge_step b b'"

inductive reachable :: "StoreForwardBridge \<Rightarrow> StoreForwardBridge \<Rightarrow> bool" for b0 where
  start: "reachable b0 b0"
| step: "reachable b0 b \<Longrightarrow> bridge_step b b' \<Longrightarrow> reachable b0 b'"

text \<open>How one call changes the queue.\<close>

definition queue_change :: "StoreForwardWorkSlot list \<Rightarrow> StoreForwardWorkSlot list \<Rightarrow> bool" where
  "queue_change xs ys \<longleftrightarrow>
     (let ids = map sw_workIdentity xs; ids' = map sw_workIdentity ys in
      ids' = ids \<or> ids' = tl ids \<or> ids' = [] \<or> (\<exists>w. w \<notin> set ids \<and> ids' = ids @ [w]))"

lemma bridge_step_ok:
  assumes "bridge_step b b'" "bridge_ok b"
  shows "bridge_ok b' \<and> queue_change (works b) (works b')"
  using assms
proof cases
  case (admit_coil cwork session ctx admission)
  from coil_queue.admitWork_spec [OF assms(2), of cwork session ctx] admit_coil
  have "bridge_ok b'" and change: "b' = b \<or>
      works b' = works b @ [newWorkSlot (wt_table coil_traits) cwork (begin_cursor cwork) ctx]"
    by (auto simp: admitCoilWork_def split: if_splits)
  moreover from this(1) have "distinct (map sw_workIdentity (works b'))" by (rule bridge_okD(4))
  ultimately show ?thesis by (auto simp: queue_change_def Let_def)
next
  case (admit_holding hwork session ctx admission)
  from holding_queue.admitWork_spec [OF assms(2), of hwork session ctx] admit_holding
  have "bridge_ok b'" and change: "b' = b \<or>
      works b' = works b @ [newWorkSlot (wt_table holding_traits) hwork (begin_cursor hwork) ctx]"
    by (auto simp: admitHoldingWork_def split: if_splits)
  moreover from this(1) have "distinct (map sw_workIdentity (works b'))" by (rule bridge_okD(4))
  ultimately show ?thesis by (auto simp: queue_change_def Let_def)
next
  case (admit_action m polls n action session admitted)
  from admitAction_spec [OF assms(2) admit_action(1,2), of action session] admit_action(3)
  have "bridge_ok b'" by (auto split: if_splits)
  with admitAction_works [OF assms(2) admit_action] show ?thesis by (simp add: queue_change_def)
next
  case (complete_action action outcome session completion)
  from complete_spec [OF assms(2), of action outcome session] complete_action show ?thesis
    by (auto simp: queue_change_def map_tl split: if_splits)
next
  case (discard_stale session status retired)
  from discard_spec [OF assms(2), of session] discard_stale show ?thesis
    by (auto simp: queue_change_def map_tl split: if_splits)
next
  case (abandon_front status retired)
  from abandonFront_spec [OF assms(2)] abandon_front show ?thesis
    by (auto simp: queue_change_def map_tl split: if_splits)
next
  case (reset_bridge finished)
  from reset_spec [OF assms(2)] reset_bridge show ?thesis
    by (auto simp: queue_change_def split: if_splits)
qed

lemma bridge_ok_new:
  assumes "searchable (fp_routes planner)" "length slots = unat capacity"
    and "ledger_ok l" "ledger_look l = Map.empty"
  shows "bridge_ok (newBridge planner (Some slots) capacity l options)"
proof -
  have "ring_ok (newRingQueue (Some slots) capacity) \<and> ring_list (newRingQueue (Some slots) capacity) = []"
    using assms(2) by (intro ring_new) simp
  with assms show ?thesis
    by (simp add: bridge_ok_def newBridge_def works_def entry_def write_in_flight_def
        del: ring_list_Nil)
qed

lemma reachable_ok: "reachable b0 b \<Longrightarrow> bridge_ok b0 \<Longrightarrow> bridge_ok b"
  by (induction rule: reachable.induct) (simp_all add: bridge_step_ok)

end
