(* ===== verification/Bridge_Delivery.thy ===== *)
theory Bridge_Delivery
  imports Bridge_Operations
begin

text \<open>
  What the bridge puts on the downstream bus. The specification side names every value a
  write request transfers and every value a queued work still owes; the lemmas show that a
  proposed write is a valid request for the next piece of the front work.
\<close>

section \<open>What a write request puts on the bus\<close>

text \<open>
  A written value as the bus sees it: table, downstream endpoint and address, and the word
  (one or zero for a coil). A multiple write reads its values from the payload memory.
\<close>

type_synonym bus_write = "RegisterTable \<times> (u8 \<times> nat) option \<times> u16"

definition coil_word :: "bool \<Rightarrow> u16" where
  "coil_word value = (if value then 1 else 0)"

definition read_words :: "'v mem \<Rightarrow> ('v \<Rightarrow> u16) \<Rightarrow> 'v ptr \<Rightarrow> u16 \<Rightarrow> u16 list" where
  "read_words m word p n = (case mem_read m p (unat n) of None \<Rightarrow> [] | Some vs \<Rightarrow> map word vs)"

definition written_table :: "DownstreamOperation \<Rightarrow> RegisterTable" where
  "written_table op =
     (if op = WriteSingleCoil \<or> op = WriteMultipleCoils then Coils else HoldingRegisters)"

definition sent_words :: "memory \<Rightarrow> DownstreamRequest \<Rightarrow> u16 list" where
  "sent_words m r =
     (case dr_operation r of
        WriteSingleCoil \<Rightarrow> [coil_word (dr_coilValue r)]
      | WriteSingleHoldingRegister \<Rightarrow> [dr_registerValue r]
      | WriteMultipleCoils \<Rightarrow> read_words (mm_coils m) coil_word (dr_coilBuffer r) (dr_quantity r)
      | WriteMultipleHoldingRegisters \<Rightarrow>
          read_words (mm_registers m) id (dr_registerBuffer r) (dr_quantity r)
      | _ \<Rightarrow> [])"

definition wire_writes :: "memory \<Rightarrow> DownstreamRequest \<Rightarrow> bus_write list" where
  "wire_writes m r =
     map (\<lambda>k. (written_table (dr_operation r),
               Some (dr_endpointId r, unat (dr_startAddress r) + k), sent_words m r ! k))
       [0..<length (sent_words m r)]"

text \<open>
  What a queued work still owes: every value of its snapshot from the source offset on, at
  the place that the route of its upstream address gives.
\<close>

definition route_target :: "RouteTableView \<Rightarrow> RegisterTable \<Rightarrow> u16 \<Rightarrow> (u8 \<times> nat) option" where
  "route_target v table a = do {
     i \<leftarrow> owner v (table_index table) a;
     route \<leftarrow> route_at v i;
     up \<leftarrow> array_at (er_upstream route) (table_index table);
     down \<leftarrow> array_at (er_downstream route) (table_index table);
     Some (er_endpointId route, lo down + (unat a - lo up)) }"

definition snapshot_words :: "memory \<Rightarrow> StoreForwardWorkSlot \<Rightarrow> u16 list" where
  "snapshot_words m slot =
     (if sw_table slot = Coils
      then read_words (mm_coils m) coil_word (cast_ptr (sw_snapshot slot)) (sw_quantity slot)
      else read_words (mm_registers m) id (cast_ptr (sw_snapshot slot)) (sw_quantity slot))"

definition due_writes :: "memory \<Rightarrow> RouteTableView \<Rightarrow> StoreForwardWorkSlot \<Rightarrow> bus_write list" where
  "due_writes m v slot =
     map (\<lambda>k. (sw_table slot, route_target v (sw_table slot) (sw_upstreamStart slot + of_nat k),
               snapshot_words m slot ! k))
       [unat (sw_sourceOffset slot)..<unat (sw_quantity slot)]"

section \<open>A planned request delivers the next piece\<close>

lemma owner_of:
  assumes "table_ok v t" "i < unat (rt_count v)" "range_contains (up_range v t i) a"
  shows "owner v t a = Some i"
proof (cases "owner v t a")
  case None
  with assms(2,3) show ?thesis by (auto simp: owner_def find_None_iff)
next
  case (Some j)
  then have "j < unat (rt_count v)" "range_contains (up_range v t j) a"
    by (auto simp: owner_def dest: nth_find_index)
  with assms Some show ?thesis using containing_route_unique by blast
qed

lemma fragment_target:
  assumes "searchable (fp_routes p)" "table_index (wt_table T) < 4"
    and "fragment_ok T carries p work vs off idx seq r"
    and "unat (iw_start work) + unat (iw_count work) \<le> 65536" "k < unat (pw_quantity r)"
  shows "route_target (fp_routes p) (wt_table T) (iw_start work + of_nat (off + k)) =
    Some (pw_endpointId r, unat (pw_downstreamStart r) + k)"
proof -
  let ?v = "fp_routes p" and ?t = "table_index (wt_table T)" and ?i = "unat (pw_routeIndex r)"
  let ?a = "iw_start work + of_nat (off + k)"
  have start: "unat (pw_upstreamStart r) = unat (iw_start work) + off"
      "off + unat (pw_quantity r) \<le> unat (iw_count work)"
    using assms(3) by (simp_all add: fragment_ok_def Let_def)
  from assms(3) obtain route up down where f: "route_at ?v ?i = Some route" "?i < unat (rt_count ?v)"
      "array_at (er_upstream route) ?t = Some up" "array_at (er_downstream route) ?t = Some down"
      "pw_endpointId r = er_endpointId route" "lo up \<le> unat (iw_start work) + off"
      "unat (iw_start work) + off + unat (pw_quantity r) \<le> hi up"
      "unat (pw_downstreamStart r) = lo down + (unat (iw_start work) + off - lo up)"
    unfolding fragment_ok_def Let_def start(1) by blast
  have "unat (iw_start work) + (off + k) < 65536" using start(2) assms(4,5) by linarith
  then have a: "unat ?a = unat (iw_start work) + (off + k)"
    by (simp add: unat_word_ariths unat_of_nat)
  have "up_range ?v ?t ?i = up" using f(1,3) by (simp add: upstream_at_def)
  then have "range_contains (up_range ?v ?t ?i) ?a"
    using f(6,7) a assms(5) by (simp add: range_contains_iff)
  from owner_of [OF searchable_table_ok [OF assms(1,2)] f(2) this]
  have "owner ?v ?t ?a = Some ?i" .
  with f(1,3-6,8) a show ?thesis by (simp add: route_target_def)
qed

text \<open>The contract of a value type on the bus.\<close>

locale wire_traits = queued_traits T carries
  for T :: "'v WorkTraits" and carries +
  fixes mem_of :: "memory \<Rightarrow> 'v mem" and word :: "'v \<Rightarrow> u16"
  assumes sent: "carries r values (hd xs) \<Longrightarrow> pw_quantity r \<noteq> 0 \<Longrightarrow>
        mem_read (mem_of m) values (unat (pw_quantity r)) = Some xs \<Longrightarrow>
        sent_words m (downstreamRequestFor r context) = map word xs \<and>
        written_table (pw_operation r) = wt_table T \<and>
        validateDownstreamRequest (downstreamRequestFor r context) = Request_Valid"
    and held: "sw_table slot = wt_table T \<Longrightarrow> snapshot_words m slot =
        read_words (mem_of m) word (cast_ptr (sw_snapshot slot)) (sw_quantity slot)"

lemma read_one: "mem_read m p (Suc 0) = Some xs \<Longrightarrow> xs = [hd xs]"
  by (drule mem_read_length) (cases xs; simp)

lemma read_not_null: "mem_read m p n = Some xs \<Longrightarrow> p \<noteq> Null"
  by auto

interpretation coil_wire: wire_traits coil_traits coil_carries mm_coils coil_word
proof (unfold_locales, goal_cases)
  case (1 r p xs m ctx)
  then show ?case
    using read_not_null [OF 1(3)] read_one [of "mm_coils m" p xs]
    by (auto simp: coil_carries_def sent_words_def downstreamRequestFor_def written_table_def
        coil_traits_def validateDownstreamRequest_def validate_coil_buffer_def read_words_def
        split: if_splits)
next
  case (2 slot m)
  then show ?case by (simp add: coil_traits_def snapshot_words_def)
qed

interpretation holding_wire: wire_traits holding_traits holding_carries mm_registers id
proof (unfold_locales, goal_cases)
  case (1 r p xs m ctx)
  then show ?case
    using read_not_null [OF 1(3)] read_one [of "mm_registers m" p xs]
    by (auto simp: holding_carries_def sent_words_def downstreamRequestFor_def written_table_def
        holding_traits_def validateDownstreamRequest_def validate_register_buffer_def read_words_def
        split: if_splits)
next
  case (2 slot m)
  then show ?case by (simp add: holding_traits_def snapshot_words_def)
qed


text \<open>The planned request carries the first values that the work owes, and no others.\<close>

context wire_traits
begin

lemma next_delivers:
  assumes "searchable (fp_routes p)" "cursor_shape T p (slotCursor slot)" "sw_remaining slot \<noteq> 0"
    and "snapshot_holds (mem_of m) (fc_work (slotCursor slot)) vs" "seq \<noteq> 0"
    and "sw_table slot = wt_table T"
    and "planner_next T (mem_of m) p (slotCursor slot) seq = Some (Next_Planned, c, r)"
  shows "due_writes m (fp_routes p) slot =
      wire_writes m (downstreamRequestFor r context) @ due_writes m (fp_routes p) (updateFrom slot c) \<and>
    validateDownstreamRequest (downstreamRequestFor r context) = Request_Valid"
proof -
  let ?c = "slotCursor slot :: 'v ForwardCursor" and ?off = "unat (sw_sourceOffset slot)"
  have proj: "fc_remaining ?c = sw_remaining slot" "fc_sourceOffset ?c = sw_sourceOffset slot"
      "iw_start (fc_work ?c) = sw_upstreamStart slot" "iw_count (fc_work ?c) = sw_quantity slot"
      "sv_values (iw_snapshot (fc_work ?c)) = cast_ptr (sw_snapshot slot)"
    by (simp_all add: slotCursor_def)
  have rem: "fc_remaining ?c \<noteq> 0" using assms(3) proj by simp
  from next_fragment [OF assms(1,2) rem assms(4), of seq] assms(5,7)
  have c: "c = advance_cursor ?c (pw_quantity r)" and q0: "pw_quantity r \<noteq> 0"
    and ok: "fragment_ok T carries p (fc_work ?c) vs ?off (unat (fc_fragmentIndex ?c)) seq r"
    and qr: "unat (pw_quantity r) \<le> unat (fc_remaining ?c)"
    using proj(2) by auto
  define q where "q = unat (pw_quantity r)"
  have q: "0 < q" using q0 by (simp add: q_def unat_gt_0)
  have total: "?off + q \<le> unat (sw_quantity slot)"
    using ok proj(4) by (simp add: fragment_ok_def Let_def q_def)
  have space: "unat (iw_start (fc_work ?c)) + unat (iw_count (fc_work ?c)) \<le> 65536"
    using assms(2) by (simp add: cursor_shape_def Let_def)
  have read: "mem_read (mem_of m) (cast_ptr (sw_snapshot slot)) (unat (sw_quantity slot)) = Some vs"
    using assms(4) proj by (simp add: snapshot_holds_def)
  let ?xs = "take q (drop ?off vs)" and ?p = "ptr_add (cast_ptr (sw_snapshot slot) :: 'v ptr) (sw_sourceOffset slot)"
  have len: "length vs = unat (sw_quantity slot)" by (rule mem_read_length [OF read])
  have xs: "mem_read (mem_of m) ?p q = Some ?xs" by (rule mem_read_sub [OF read total])
  have hd: "hd ?xs = vs ! ?off" using q total len by (simp add: hd_drop_conv_nth)
  have "pw_sourceOffset r = sw_sourceOffset slot"
    using ok by (simp add: fragment_ok_def Let_def word_unat_eq_iff)
  then have "carries r ?p (hd ?xs)"
    using ok proj(5) hd by (simp add: fragment_ok_def Let_def)
  from sent [OF this q0, of m] xs
  have s: "sent_words m (downstreamRequestFor r context) = map word ?xs"
      "written_table (pw_operation r) = sw_table slot"
      "validateDownstreamRequest (downstreamRequestFor r context) = Request_Valid"
    using assms(6) by (simp_all add: q_def)
  have words: "snapshot_words m slot = map word vs" using held [OF assms(6)] read by (simp add: read_words_def)
  have target: "route_target (fp_routes p) (sw_table slot) (sw_upstreamStart slot + of_nat (?off + k)) =
      Some (pw_endpointId r, unat (pw_downstreamStart r) + k)" if "k < q" for k
    using fragment_target [OF assms(1) table_in_routes ok space, of k] that assms(6) proj(3)
    by (simp add: q_def)
  have fields: "dr_operation (downstreamRequestFor r context) = pw_operation r"
      "dr_endpointId (downstreamRequestFor r context) = pw_endpointId r"
      "dr_startAddress (downstreamRequestFor r context) = pw_downstreamStart r"
    by (simp_all add: downstreamRequestFor_def)
  have lenq: "length ?xs = q" using total len by simp
  have nth: "?xs ! k = vs ! (?off + k)" if "k < q" for k using that total len by simp
  have "wire_writes m (downstreamRequestFor r context) =
      map (\<lambda>k. (sw_table slot, route_target (fp_routes p) (sw_table slot) (sw_upstreamStart slot + of_nat k),
        snapshot_words m slot ! k)) [?off..<?off + q]"
    unfolding wire_writes_def s fields length_map lenq words
    using total len target nth by (intro nth_equalityI) (simp_all del: of_nat_add nth_take)
  moreover have upd: "sw_table (updateFrom slot c) = sw_table slot"
      "sw_upstreamStart (updateFrom slot c) = sw_upstreamStart slot"
      "sw_quantity (updateFrom slot c) = sw_quantity slot"
      "snapshot_words m (updateFrom slot c) = snapshot_words m slot"
      "sw_sourceOffset (updateFrom slot c) = sw_sourceOffset slot + pw_quantity r"
    by (simp_all add: updateFrom_def snapshot_words_def c advance_cursor_def proj)
  moreover have "?off + q < 65536" using total unat_u16_bound [of "sw_quantity slot"] by linarith
  then have "unat (sw_sourceOffset slot + pw_quantity r) = ?off + q"
    by (simp add: unat_word_ariths q_def)
  ultimately show ?thesis
    using s(3) total upt_add_eq_append [of ?off "?off + q" "unat (sw_quantity slot) - (?off + q)"]
    by (simp add: due_writes_def)
qed

end


lemma forward_delivers:
  assumes "searchable (fp_routes (sb_forwardPlanner b))" "slot_shape (sb_forwardPlanner b) slot"
    and "sw_remaining slot \<noteq> 0" "slot_backed m slot"
    and "preview_forward m b slot action context = Some (Action_Ready, a, cc, hc)"
  shows "due_writes m (fp_routes (sb_forwardPlanner b)) slot =
      wire_writes m (ac_downstream a) @
      due_writes m (fp_routes (sb_forwardPlanner b)) (updated_slot slot cc hc) \<and>
    validateDownstreamRequest (ac_downstream a) = Request_Valid"
proof -
  let ?p = "sb_forwardPlanner b" and ?seq = "nextNonZeroSequence32 (sb_requestSequence b)"
  have seq: "?seq \<noteq> 0" by (simp add: nextNonZeroSequence32_def Let_def)
  consider (coil) "sw_table slot = Coils" "cursor_shape coil_traits ?p (slotCursor slot)"
    | (holding) "sw_table slot = HoldingRegisters" "cursor_shape holding_traits ?p (slotCursor slot)"
    using assms(2)
    by (cases "sw_table slot") (auto simp: slot_shape_def asCoilCursor_def asHoldingCursor_def)
  then show ?thesis
  proof cases
    case coil
    obtain vs where vs: "snapshot_holds (mm_coils m) (fc_work (slotCursor slot)) vs"
      using assms(4) coil(1) by (auto simp: slot_backed_def asCoilCursor_def)
    from assms(5) coil(1) obtain r where
      r: "planner_next coil_traits (mm_coils m) ?p (slotCursor slot) ?seq = Some (Next_Planned, cc, r)"
      "ac_downstream a = downstreamRequestFor r context"
      by (auto simp: preview_forward_def asCoilCursor_def Let_def elim!: bind_SomeE split: if_splits)
    have "sw_table slot = wt_table coil_traits" using coil(1) by (simp add: coil_traits_def)
    from coil_wire.next_delivers [OF assms(1) coil(2) assms(3) vs seq this r(1)] r(2) coil(1)
    show ?thesis by (simp add: updated_slot_def)
  next
    case holding
    obtain vs where vs: "snapshot_holds (mm_registers m) (fc_work (slotCursor slot)) vs"
      using assms(4) holding(1) by (auto simp: slot_backed_def asHoldingCursor_def)
    from assms(5) holding(1) obtain r where
      r: "planner_next holding_traits (mm_registers m) ?p (slotCursor slot) ?seq = Some (Next_Planned, hc, r)"
      "ac_downstream a = downstreamRequestFor r context"
      by (auto simp: preview_forward_def asHoldingCursor_def Let_def elim!: bind_SomeE split: if_splits)
    have "sw_table slot = wt_table holding_traits" using holding(1) by (simp add: holding_traits_def)
    from holding_wire.next_delivers [OF assms(1) holding(2) assms(3) vs seq this r(1)] r(2) holding(1)
    show ?thesis by (simp add: updated_slot_def)
  qed
qed

text \<open>A ready forward proposal was planned from the front slot.\<close>

lemma preview_ready_forward:
  assumes "previewAction m b session now polls n context = Some (Action_Ready, a, cc, hc)"
    and "ac_kind a = ForwardWrite" "frontSlot b = Some (Some slot)"
  obtains action where "preview_forward m b slot action context = Some (Action_Ready, a, cc, hc)"
  using assms
  by (auto simp: previewAction_def preview_failed_def preview_poll_def selected_action_def Let_def
      elim!: bind_SomeE split: if_splits)

end
