(* ===== verification/Client_Loop.thy ===== *)
theory Client_Loop
  imports Bridge_Delivery
begin

text \<open>
  The client loop over the bridge: a proposal stays valid until the state changes, one
  iteration makes progress whether it serves a write or a poll, and the loop drains the queue.
\<close>

section \<open>One round of the client loop\<close>

text \<open>A proposal is reproduced from its own time and consistency context.\<close>

lemma preview_poll_context:
  assumes "previewAction m b session now polls n context = Some (Action_Ready, a, cc, hc)"
    and "ac_kind a = Poll"
  shows "previewAction m b session now polls n context' = Some (Action_Ready, a, cc, hc)"
  using assms
  by (auto simp: previewAction_def preview_failed_def preview_forward_def selected_action_def Let_def
      elim!: bind_SomeE split: if_splits option.splits)

lemma proposal_repeats:
  assumes ok: "bridge_ok b" and "\<not> sb_inFlight b" "snapshots_held m b" "polls_backed polls n"
    and preview: "previewAction m b session now polls n context = Some (Action_Ready, a, cc, hc)"
  shows "previewAction m b session (ac_selectedAt a) polls n (dr_consistencyContext (ac_downstream a)) =
    Some (Action_Ready, a, cc, hc)"
proof -
  from preview_spec [OF assms(1-4), of session now "context"] preview
  have "forward_proposal b session now n context a (updated_slot (hd (works b)) cc hc) \<or>
      poll_proposal b polls now n a" by auto
  then show ?thesis
  proof
    assume "forward_proposal b session now n context a (updated_slot (hd (works b)) cc hc)"
    then have "ac_selectedAt a = now" "dr_consistencyContext (ac_downstream a) = context"
      by (simp_all add: forward_proposal_def downstreamRequestFor_def)
    with preview show ?thesis by simp
  next
    assume "poll_proposal b polls now n a"
    then have "ac_selectedAt a = now" "ac_kind a = Poll" by (simp_all add: poll_proposal_def)
    with preview_poll_context [OF preview] show ?thesis by simp
  qed
qed

lemma planner_fixed:
  "admitAction m b action session polls n = Some (st, b') \<Longrightarrow> sb_forwardPlanner b' = sb_forwardPlanner b"
  "complete b action x session = Some (c, b') \<Longrightarrow> sb_forwardPlanner b' = sb_forwardPlanner b"
  subgoal
    by (auto simp: admitAction_def admit_forward_def admit_poll_def consume_poll_def publish_action_def Let_def split_beta
      elim!: bind_SomeE split: if_splits option.splits)
  subgoal
    by (auto simp: complete_def complete_stale_def complete_resolved_def popFrontIf_def Let_def split_beta
      elim!: bind_SomeE split: if_splits option.splits)
  done


definition all_current :: "StoreForwardBridge \<Rightarrow> SessionStateView \<Rightarrow> bool" where
  "all_current b session \<longleftrightarrow> (\<forall>slot \<in> set (works b). workCurrent (sw_workIdentity slot) session)"

text \<open>Every value the queued works still owe, in queue order, and their number.\<close>

definition owed :: "memory \<Rightarrow> StoreForwardBridge \<Rightarrow> bus_write list" where
  "owed m b = concat (map (due_writes m (fp_routes (sb_forwardPlanner b))) (works b))"

definition workload :: "StoreForwardBridge \<Rightarrow> nat" where
  "workload b = sum_list (map (\<lambda>slot. unat (sw_remaining slot)) (works b))"

lemma due_writes_done:
  assumes "slot_shape p slot" "sw_remaining slot = 0"
  shows "due_writes m v slot = []"
  using assms
  by (auto simp: slot_shape_def cursor_shape_def Let_def asCoilCursor_def asHoldingCursor_def
      slotCursor_def due_writes_def split: RegisterTable.splits)

lemma backed_update:
  assumes "planned p slot seq r slot'"
  shows "slot_backed m slot' = slot_backed m slot"
  using assms by (simp add: planned_def slot_backed_def)

text \<open>An admitted forward write is the next piece of the front work.\<close>

lemma forward_step:
  assumes ok: "bridge_ok b" and "\<not> sb_inFlight b" "snapshots_held m b" "polls_backed polls n"
    and preview: "previewAction m b session now polls n context = Some (Action_Ready, action, cc, hc)"
    and kind: "ac_kind action = ForwardWrite"
  obtains b' slot' where "admitAction m b action session polls n = Some (ActionAdmit_Admitted, b')"
    "bridge_ok b'" "write_in_flight b'" "sb_inFlightAction b' = action" "works b \<noteq> []"
    "works b' = slot' # tl (works b)" "slot_shape (sb_forwardPlanner b) slot'"
    "sw_workIdentity slot' = sw_workIdentity (hd (works b))"
    "unat (sw_remaining slot') < unat (sw_remaining (hd (works b)))"
    "slot_backed m slot'" "pw_finalFragment (ac_write action) \<longleftrightarrow> sw_remaining slot' = 0"
    "validateDownstreamRequest (ac_downstream action) = Request_Valid"
    "due_writes m (fp_routes (sb_forwardPlanner b)) (hd (works b)) =
       wire_writes m (ac_downstream action) @ due_writes m (fp_routes (sb_forwardPlanner b)) slot'"
proof -
  let ?slot = "hd (works b)" and ?slot' = "updated_slot (hd (works b)) cc hc"
  from preview_spec [OF assms(1-4), of session now "context"] preview kind
  have proposal: "forward_proposal b session now n context action ?slot'"
    by (auto simp: poll_proposal_def)
  then have f: "works b \<noteq> []" "ac_requiresCompletion action"
      "planned (sb_forwardPlanner b) ?slot (ac_sequence action) (ac_write action) ?slot'"
    unfolding forward_proposal_def by blast+
  have slot: "?slot \<in> set (works b)" using f(1) by simp
  have "idle_entry (entry b) ?slot"
    using bridge_ok_idle [OF ok _ slot] assms(2) by (simp add: write_in_flight_def)
  then have rem: "sw_remaining ?slot \<noteq> 0" by (auto simp: idle_entry_def)
  have backed: "slot_backed m ?slot" using assms(3) slot by (simp add: snapshots_held_def)
  have "frontSlot b = Some (Some ?slot)" using frontSlot_works [OF ok] f(1) by simp
  from preview_ready_forward [OF preview kind this] obtain a0 where
    "preview_forward m b ?slot a0 context = Some (Action_Ready, action, cc, hc)" .
  note deliver = forward_delivers [OF bridge_okD(1) [OF ok] bridge_okD(6) [OF ok slot] rem backed this]
  from admit_proposal [OF assms(1-4) proposal_repeats [OF assms(1-4) preview]] f(2) kind
  obtain b' where "admitAction m b action session polls n = Some (ActionAdmit_Admitted, b')"
      "bridge_ok b'" "sb_inFlight b'" "sb_inFlightAction b' = action" "works b' = ?slot' # tl (works b)"
    by auto
  with f(1,3) kind deliver backed show ?thesis
    by (intro that [of b' ?slot']) (simp_all add: planned_def write_in_flight_def slot_backed_def)
qed

definition polls_valid :: "PollCandidate list \<Rightarrow> bool" where
  "polls_valid xs \<longleftrightarrow>
     (\<forall>c \<in> set xs. pc_requiresDispatch c \<longrightarrow> isPollOperation (dr_operation (pc_request c)) \<and>
        validateDownstreamRequest (pc_request c) = Request_Valid)"

text \<open>While work is queued, current and readable, the polls are the only other choice.\<close>

lemma poll_at_in: "poll_at (Some xs) i = Some c \<Longrightarrow> c \<in> set xs"
  by (auto simp: poll_at_def split: if_splits)

lemma preview_polls_valid:
  assumes "previewAction m b session now (Some xs) n context = Some (Action_InvalidPollRequest, a, cc, hc)"
  shows "\<not> polls_valid xs"
proof
  assume valid: "polls_valid xs"
  from assms obtain selection action where
    "preview_poll b (Some xs) n selection action = Some (Action_InvalidPollRequest, a, cc, hc)"
    by (auto simp: previewAction_def preview_failed_def preview_forward_def Let_def
        elim!: bind_SomeE split: if_splits option.splits)
  then obtain c where "c \<in> set xs" "pc_requiresDispatch c"
      "\<not> isPollOperation (dr_operation (pc_request c)) \<or>
       validateDownstreamRequest (pc_request c) \<noteq> Request_Valid"
    by (auto simp: preview_poll_def preview_failed_def Let_def
        elim!: bind_SomeE dest!: poll_at_in split: if_splits)
  with valid show False by (auto simp: polls_valid_def)
qed

text \<open>A poll is proposed ahead of queued work only when the forward burst is used up.\<close>

lemma preview_poll_turn:
  assumes "previewAction m b session now (Some xs) n context = Some (Action_Ready, a, cc, hc)"
    and "ac_kind a = Poll" "frontSlot b = Some (Some slot)" "unat n \<le> length xs"
  shows "\<not> pp_forwardsSincePoll (sb_pollState b) < po_maxConsecutiveForwards (sb_pollPlanner b)"
proof -
  from assms(1-3) obtain selection where
    "select (sb_pollPlanner b) now True (Some xs) n (sb_pollState b) = Some (Select_Selected, selection)"
    "ps_kind selection = Poll"
    by (auto simp: previewAction_def preview_failed_def preview_forward_def selected_action_def Let_def
        elim!: bind_SomeE split: if_splits)
      (metis PollSelectStatus.exhaust)
  then show ?thesis
    unfolding select_exact_nonempty [OF assms(4)] by (auto split: option.splits if_splits)
qed

lemma admitted_poll_state:
  assumes "admitAction m b action session polls n = Some (st, b')"
    and "st = ActionAdmit_Admitted \<or> st = ActionAdmit_Consumed"
  shows "sb_pollState b' = snd (commit (ac_scheduling action) n (ac_selectedAt action) (sb_pollState b)) \<or>
    sb_pollState b' = snd (commit (ac_scheduling action) (ac_pollCount action) (ac_selectedAt action) (sb_pollState b))"
  using assms
  by (auto simp: admitAction_def admit_forward_def admit_poll_def consume_poll_def publish_action_def
      advanceRevision_def Let_def split_beta elim!: bind_SomeE split: if_splits option.splits)

lemma poll_fields_fixed:
  "admitAction m b action session polls n = Some (st, b') \<Longrightarrow> sb_pollPlanner b' = sb_pollPlanner b"
  "complete b action x session = Some (c, b') \<Longrightarrow>
     sb_pollPlanner b' = sb_pollPlanner b \<and> sb_pollState b' = sb_pollState b"
  subgoal
    by (auto simp: admitAction_def admit_forward_def admit_poll_def consume_poll_def publish_action_def
        advanceRevision_def Let_def split_beta elim!: bind_SomeE split: if_splits option.splits)
  subgoal
    by (auto simp: complete_def complete_stale_def complete_resolved_def popFrontIf_def clearInFlight_def
        advanceRevision_def Let_def split_beta elim!: bind_SomeE split: if_splits option.splits)
  done


text \<open>
  The client's part of an iteration: a dispatched action is executed and completed with the
  outcome, a consumed poll needs nothing. The executor is any function from the request and
  its own state to an outcome and the next state.
\<close>

type_synonym 's executor = "DownstreamRequest \<Rightarrow> 's \<Rightarrow> DownstreamOutcome \<times> 's"

definition serve_action ::
  "'s executor \<Rightarrow> StoreForwardBridge \<Rightarrow> StoreForwardActionAdmitStatus \<Rightarrow> StoreForwardAction \<Rightarrow>
     SessionStateView \<Rightarrow> 's \<Rightarrow> ('s \<times> StoreForwardBridge) option" where
  "serve_action exec b admitted action session s =
     (if admitted = ActionAdmit_Admitted
      then do {
        let (outcome, s') = exec (ac_downstream action) s;
        (completion, b') \<leftarrow> complete b action outcome session;
        Some (s', b') }
      else Some (s, b))"

text \<open>The state of the executor after the dispatched ones of some actions.\<close>

definition executed :: "'s executor \<Rightarrow> StoreForwardAction list \<Rightarrow> 's \<Rightarrow> 's" where
  "executed exec actions s =
     fold (\<lambda>a s. snd (exec (ac_downstream a) s)) (filter ac_requiresCompletion actions) s"

text \<open>How many iterations the queue can still take: a poll only when the burst is used up.\<close>

definition turns :: "StoreForwardBridge \<Rightarrow> nat" where
  "turns b = 2 * workload b +
     (if pp_forwardsSincePoll (sb_pollState b) < po_maxConsecutiveForwards (sb_pollPlanner b) then 0 else 1)"

text \<open>What the client provides and what an iteration keeps.\<close>

definition serving :: "memory \<Rightarrow> SessionStateView \<Rightarrow> StoreForwardBridge \<Rightarrow> bool" where
  "serving m session b \<longleftrightarrow> bridge_ok b \<and> \<not> sb_inFlight b \<and> snapshots_held m b \<and>
     all_current b session \<and> po_maxConsecutiveForwards (sb_pollPlanner b) \<noteq> 0"

lemma round_forward:
  assumes "serving m session b" "polls_backed polls n"
    and "previewAction m b session now polls n context = Some (Action_Ready, action, cc, hc)"
    and "ac_kind action = ForwardWrite"
    and known: "isKnownDownstreamOutcome (fst (exec (ac_downstream action) s))"
  obtains b1 b2 where "admitAction m b action session polls n = Some (ActionAdmit_Admitted, b1)"
    "serve_action exec b1 ActionAdmit_Admitted action session s =
       Some (snd (exec (ac_downstream action) s), b2)"
    "serving m session b2" "turns b2 < turns b"
    "validateDownstreamRequest (ac_downstream action) = Request_Valid"
    "fst (exec (ac_downstream action) s) = Outcome_Applied \<Longrightarrow> owed m b = wire_writes m (ac_downstream action) @ owed m b2"
proof -
  let ?x = "fst (exec (ac_downstream action) s)"
  have ok: "bridge_ok b" "\<not> sb_inFlight b" "snapshots_held m b" "all_current b session"
    using assms(1) by (simp_all add: serving_def)
  from forward_step [OF ok(1-3) assms(2-4)] obtain b1 slot' where
    f: "admitAction m b action session polls n = Some (ActionAdmit_Admitted, b1)"
    "bridge_ok b1" "write_in_flight b1" "sb_inFlightAction b1 = action" "works b \<noteq> []"
    "works b1 = slot' # tl (works b)" "slot_shape (sb_forwardPlanner b) slot'"
    "sw_workIdentity slot' = sw_workIdentity (hd (works b))"
    "unat (sw_remaining slot') < unat (sw_remaining (hd (works b)))"
    "slot_backed m slot'" "pw_finalFragment (ac_write action) \<longleftrightarrow> sw_remaining slot' = 0"
    "validateDownstreamRequest (ac_downstream action) = Request_Valid"
    "due_writes m (fp_routes (sb_forwardPlanner b)) (hd (works b)) =
       wire_writes m (ac_downstream action) @ due_writes m (fp_routes (sb_forwardPlanner b)) slot'"
    by metis
  have "workCurrent (sw_workIdentity (hd (works b1))) session"
    using ok(4) f(5,6,8) by (simp add: all_current_def)
  with complete_current_write [OF f(2,3) known, of session] f(4) obtain c b2 where
    c: "complete b1 action ?x session = Some (c, b2)" "bridge_ok b2" "\<not> sb_inFlight b2"
      "works b2 = (if ?x \<noteq> Outcome_Applied \<or> sw_remaining slot' = 0 then tl (works b) else slot' # tl (works b))"
    using f(6,11) by auto
  obtain slot rest where works: "works b = slot # rest" using f(5) by (cases "works b") auto
  have planner: "sb_forwardPlanner b2 = sb_forwardPlanner b" "sb_pollPlanner b2 = sb_pollPlanner b"
    using planner_fixed(1) [OF f(1)] planner_fixed(2) [OF c(1)] poll_fields_fixed(1) [OF f(1)]
      poll_fields_fixed(2) [OF c(1)] by simp_all
  have "snapshots_held m b2" "all_current b2 session" "workload b2 < workload b"
    using ok(3,4) f(8-10) c(4) works
    by (auto simp: snapshots_held_def all_current_def workload_def split: if_splits)
  moreover have "owed m b = wire_writes m (ac_downstream action) @ owed m b2" if "?x = Outcome_Applied"
    using that f(13) c(4) works planner due_writes_done [OF f(7)]
    by (simp add: owed_def)
  ultimately show ?thesis
    using assms(1) f(1,12) c planner
    by (intro that [of b1 b2]) (simp_all add: serve_action_def split_beta serving_def turns_def)
qed

lemma poll_sends_nothing:
  "isPollOperation (dr_operation r) \<Longrightarrow> wire_writes m r = []"
  by (auto simp: isPollOperation_def wire_writes_def sent_words_def split: DownstreamOperation.splits)

lemma round_poll:
  assumes "serving m session b" "works b \<noteq> []" "unat n \<le> length xs"
    and preview: "previewAction m b session now (Some xs) n context = Some (Action_Ready, action, cc, hc)"
    and kind: "ac_kind action = Poll"
    and known: "isKnownDownstreamOutcome (fst (exec (ac_downstream action) s))"
  obtains admitted b1 b2 where "admitAction m b action session (Some xs) n = Some (admitted, b1)"
    "serve_action exec b1 admitted action session s = Some (executed exec [action] s, b2)"
    "admitted = (if ac_requiresCompletion action then ActionAdmit_Admitted else ActionAdmit_Consumed)"
    "serving m session b2" "turns b2 < turns b" "owed m b2 = owed m b"
    "ac_requiresCompletion action \<Longrightarrow> isPollOperation (dr_operation (ac_downstream action)) \<and>
       validateDownstreamRequest (ac_downstream action) = Request_Valid"
proof -
  let ?st = "if ac_requiresCompletion action then ActionAdmit_Admitted else ActionAdmit_Consumed"
  have ok: "bridge_ok b" "\<not> sb_inFlight b" "snapshots_held m b" "all_current b session"
    using assms(1) by (simp_all add: serving_def)
  have polls: "polls_backed (Some xs) n" using assms(3) by (simp add: polls_backed_def)
  from preview_spec [OF ok(1-3) polls, of session now "context"] preview kind
  have p: "poll_proposal b (Some xs) now n action" by (auto simp: forward_proposal_def)
  from admit_proposal [OF ok(1-3) polls proposal_repeats [OF ok(1-3) polls preview]] kind
  obtain b1 where a: "admitAction m b action session (Some xs) n = Some (?st, b1)" "bridge_ok b1"
      "works b1 = works b"
      "if ac_requiresCompletion action then sb_inFlight b1 \<and> sb_inFlightAction b1 = action
       else \<not> sb_inFlight b1" by auto
  have "\<exists>b2. serve_action exec b1 ?st action session s = Some (executed exec [action] s, b2) \<and> bridge_ok b2 \<and> \<not> sb_inFlight b2 \<and>
      works b2 = works b \<and> sb_pollState b2 = sb_pollState b1 \<and> sb_pollPlanner b2 = sb_pollPlanner b1 \<and>
      sb_forwardPlanner b2 = sb_forwardPlanner b1"
  proof (cases "ac_requiresCompletion action")
    case True
    then have "\<not> write_in_flight b1" using a(4) kind by (simp add: write_in_flight_def)
    from complete_poll [OF a(2) _ this known, of session] a(3,4) True obtain c b2 where
      c: "complete b1 action (fst (exec (ac_downstream action) s)) session = Some (c, b2)" "bridge_ok b2" "\<not> sb_inFlight b2"
        "works b2 = works b" by auto
    with True poll_fields_fixed(2) [OF c(1)] planner_fixed(2) [OF c(1)] show ?thesis
      by (simp add: serve_action_def executed_def split_beta)
  next
    case False
    with a show ?thesis by (simp add: serve_action_def executed_def split_beta)
  qed
  then obtain b2 where b2: "serve_action exec b1 ?st action session s = Some (executed exec [action] s, b2)" "bridge_ok b2"
      "\<not> sb_inFlight b2" "works b2 = works b" "sb_pollState b2 = sb_pollState b1"
      "sb_pollPlanner b2 = sb_pollPlanner b" "sb_forwardPlanner b2 = sb_forwardPlanner b"
    using poll_fields_fixed(1) [OF a(1)] planner_fixed(1) [OF a(1)] by auto
  have front: "frontSlot b = Some (Some (hd (works b)))" using frontSlot_works [OF ok(1)] assms(2) by simp
  from p obtain i where i: "unat i < unat n" "ac_scheduling action = fromCandidateSet Poll i n"
      "ac_pollCount action = n" by (auto simp: poll_proposal_def)
  obtain st where st: "commit (fromCandidateSet Poll i n) n (ac_selectedAt action) (sb_pollState b) = (True, st)"
      "pp_forwardsSincePoll st = 0" by (rule commit_poll [OF i(1)])
  have "?st = ActionAdmit_Admitted \<or> ?st = ActionAdmit_Consumed" by simp
  from admitted_poll_state [OF a(1) this] have "pp_forwardsSincePoll (sb_pollState b1) = 0"
    unfolding i(2,3) st(1) using st(2) by simp
  moreover have "works b2 = works b" by (rule b2(4))
  ultimately have "turns b2 < turns b"
    using preview_poll_turn [OF preview kind front assms(3)] b2(5,6) assms(1)
    by (simp add: turns_def workload_def serving_def word_less_nat_alt unat_gt_0)
  moreover have "serving m session b2" "owed m b2 = owed m b"
    using assms(1) b2 by (simp_all add: serving_def snapshots_held_def all_current_def owed_def)
  ultimately show ?thesis
    using a(1) b2(1) p by (intro that [of ?st b1 b2]) (simp_all add: poll_proposal_def)
qed


section \<open>The client loop\<close>

text \<open>
  The documented loop: while work is queued, ask for the next action at the current time and
  with the current polls, admit it, have it executed, and complete it with the outcome. The
  clock and the polls are arbitrary sequences. The result is the admitted or consumed
  actions, the state of the executor and the final bridge.
\<close>

partial_function (option) drive ::
  "memory \<Rightarrow> SessionStateView \<Rightarrow> void_ptr \<Rightarrow> (nat \<Rightarrow> u32) \<Rightarrow> (nat \<Rightarrow> PollCandidate list) \<Rightarrow>
     's executor \<Rightarrow> nat \<Rightarrow> 's \<Rightarrow> StoreForwardBridge \<Rightarrow>
     (StoreForwardAction list \<times> 's \<times> StoreForwardBridge) option" where
  "drive m session context clock polls exec i s b =
     (if queuedWork b = 0 then Some ([], s, b)
      else do {
        (status, action) \<leftarrow> nextAction m b session (clock i) (Some (polls i))
           (of_nat (length (polls i))) context;
        if status \<noteq> Action_Ready then Some ([], s, b)
        else do {
          (admitted, b1) \<leftarrow> admitAction m b action session (Some (polls i))
             (of_nat (length (polls i)));
          (s1, b2) \<leftarrow> serve_action exec b1 admitted action session s;
          (actions, r) \<leftarrow> drive m session context clock polls exec (Suc i) s1 b2;
          Some (action # actions, r) } })"

declare drive.simps [code]

text \<open>The values that the dispatched actions of a run put on the bus, in order.\<close>

definition bus_trace :: "memory \<Rightarrow> StoreForwardAction list \<Rightarrow> bus_write list" where
  "bus_trace m actions =
     concat (map (\<lambda>a. wire_writes m (ac_downstream a)) (filter ac_requiresCompletion actions))"

definition dispatchable :: "StoreForwardAction \<Rightarrow> bool" where
  "dispatchable a \<longleftrightarrow>
     (ac_requiresCompletion a \<longrightarrow> validateDownstreamRequest (ac_downstream a) = Request_Valid)"

lemma queuedWork_works: "queuedWork b = 0 \<longleftrightarrow> works b = []"
  by (simp add: queuedWork_def works_def flip: length_0_conv add: unat_eq_0)

lemma ready_while_queued:
  assumes "serving m session b" "works b \<noteq> []" "unat n \<le> length xs" "polls_valid xs"
  obtains action cc hc where "previewAction m b session now (Some xs) n context =
      Some (Action_Ready, action, cc, hc)" "ac_kind action = ForwardWrite \<or> ac_kind action = Poll"
    "ac_kind action = ForwardWrite \<Longrightarrow> ac_requiresCompletion action"
proof -
  have ok: "bridge_ok b" "\<not> sb_inFlight b" "snapshots_held m b" "all_current b session"
    using assms(1) by (simp_all add: serving_def)
  have polls: "polls_backed (Some xs) n" using assms(3) by (simp add: polls_backed_def)
  have "workCurrent (sw_workIdentity (hd (works b))) session"
    using ok(4) assms(2) by (simp add: all_current_def)
  with preview_spec [OF ok(1-3) polls, of session now "context"] assms(2)
  obtain status action cc hc where p: "previewAction m b session now (Some xs) n context =
      Some (status, action, cc, hc)"
    and status: "status \<notin> {Action_InvalidStorage, Action_ActionInFlight, Action_PlanningFailed,
      Action_InvalidPollStorage, Action_NoAction, Action_StaleWork}"
    and ready: "status = Action_Ready \<longrightarrow>
      forward_proposal b session now n context action (updated_slot (hd (works b)) cc hc) \<or>
      poll_proposal b (Some xs) now n action"
    by auto
  have "status \<noteq> Action_InvalidPollRequest" using preview_polls_valid p assms(4) by blast
  with status have "status = Action_Ready" by (cases status) simp_all
  with p ready show ?thesis
    by (intro that [of action cc hc]) (auto simp: forward_proposal_def poll_proposal_def)
qed

lemma executed_simps [simp]:
  "executed exec [] s = s"
  "executed exec (a # actions) s =
     executed exec actions (if ac_requiresCompletion a then snd (exec (ac_downstream a) s) else s)"
  by (simp_all add: executed_def)

lemma drive_drains:
  assumes "serving m session b" "\<And>i. polls_valid (polls i)"
    and known: "\<And>r s. isKnownDownstreamOutcome (fst (exec r s))"
  shows "\<exists>actions b'. drive m session ctx clock polls exec i s b =
      Some (actions, executed exec actions s, b') \<and>
    serving m session b' \<and> works b' = [] \<and> length actions \<le> turns b \<and>
    (\<forall>a \<in> set actions. dispatchable a) \<and>
    ((\<forall>r s. fst (exec r s) = Outcome_Applied) \<longrightarrow> bus_trace m actions = owed m b)"
  using assms(1)
proof (induction "turns b" arbitrary: b i s rule: less_induct)
  case less
  show ?case
  proof (cases "works b = []")
    case True
    with less.prems show ?thesis
      by (subst drive.simps) (simp add: queuedWork_works owed_def bus_trace_def)
  next
    case False
    let ?xs = "polls i" and ?n = "of_nat (length (polls i)) :: u16"
    have n: "unat ?n \<le> length ?xs" by (simp add: unat_of_nat)
    from ready_while_queued [OF less.prems False n assms(2)] obtain action cc hc where
      pre: "previewAction m b session (clock i) (Some ?xs) ?n ctx = Some (Action_Ready, action, cc, hc)"
      and kind: "ac_kind action = ForwardWrite \<or> ac_kind action = Poll"
        "ac_kind action = ForwardWrite \<Longrightarrow> ac_requiresCompletion action" by metis
    have polls: "polls_backed (Some ?xs) ?n" using n by (simp add: polls_backed_def)
    have "\<exists>admitted b1 b2. admitAction m b action session (Some ?xs) ?n = Some (admitted, b1) \<and>
        serve_action exec b1 admitted action session s = Some (executed exec [action] s, b2) \<and>
        serving m session b2 \<and> turns b2 < turns b \<and> dispatchable action \<and>
        ((\<forall>r s. fst (exec r s) = Outcome_Applied) \<longrightarrow> owed m b = bus_trace m [action] @ owed m b2)"
    proof (cases "ac_kind action = ForwardWrite")
      case True
      from round_forward [where exec = exec and s = s, OF less.prems polls pre True known] kind(2) [OF True] obtain b1 b2 where
        "admitAction m b action session (Some ?xs) ?n = Some (ActionAdmit_Admitted, b1)"
        "serve_action exec b1 ActionAdmit_Admitted action session s = Some (executed exec [action] s, b2)"
        "serving m session b2" "turns b2 < turns b" "dispatchable action"
        "fst (exec (ac_downstream action) s) = Outcome_Applied \<Longrightarrow>
           owed m b = bus_trace m [action] @ owed m b2"
        by (auto simp: dispatchable_def bus_trace_def)
      then show ?thesis by blast
    next
      case False
      with kind have "ac_kind action = Poll" by simp
      from round_poll [where exec = exec and s = s, OF less.prems \<open>works b \<noteq> []\<close> n pre this known]
      obtain admitted b1 b2 where "admitAction m b action session (Some ?xs) ?n = Some (admitted, b1)"
        "serve_action exec b1 admitted action session s = Some (executed exec [action] s, b2)"
        "serving m session b2" "turns b2 < turns b" "owed m b2 = owed m b"
        and valid: "ac_requiresCompletion action \<Longrightarrow> isPollOperation (dr_operation (ac_downstream action)) \<and>
          validateDownstreamRequest (ac_downstream action) = Request_Valid" by metis
      moreover have "bus_trace m [action] = []" "dispatchable action"
        using valid poll_sends_nothing by (auto simp: bus_trace_def dispatchable_def)
      ultimately show ?thesis by auto
    qed
    then obtain admitted b1 b2 where
      r: "admitAction m b action session (Some ?xs) ?n = Some (admitted, b1)"
        "serve_action exec b1 admitted action session s = Some (executed exec [action] s, b2)"
        "serving m session b2" "turns b2 < turns b" "dispatchable action"
        "\<forall>r s. fst (exec r s) = Outcome_Applied \<Longrightarrow> owed m b = bus_trace m [action] @ owed m b2"
      by blast
    from less.hyps [OF r(4,3), of "Suc i" "executed exec [action] s"] obtain actions b' where
      d: "drive m session ctx clock polls exec (Suc i) (executed exec [action] s) b2 =
          Some (actions, executed exec actions (executed exec [action] s), b')"
        "serving m session b'" "works b' = []" "length actions \<le> turns b2"
        "\<forall>a \<in> set actions. dispatchable a"
        "(\<forall>r s. fst (exec r s) = Outcome_Applied) \<longrightarrow> bus_trace m actions = owed m b2" by blast
    have "drive m session ctx clock polls exec i s b =
        Some (action # actions, executed exec (action # actions) s, b')"
      using False d(1) by (subst drive.simps) (simp add: nextAction_def pre r(1,2) queuedWork_works)
    moreover have "bus_trace m (action # actions) = bus_trace m [action] @ bus_trace m actions"
      by (simp add: bus_trace_def)
    ultimately show ?thesis using d r(4-6)
      by (intro exI [of _ "action # actions"] exI [of _ b']) auto
  qed
qed

end
