(* ===== verification/Bridge_Properties.thy ===== *)
theory Bridge_Properties
  imports Client_Loop Forward_Properties Ledger_Properties
begin

text \<open>
  The properties of the bridge facade, stated over every state that a sequence of calls
  reaches from a freshly constructed bridge, and the drain of the client loop.
\<close>

section \<open>Runs from construction\<close>

text \<open>A bridge as the constructors leave it, over backed storage and a validated route table.\<close>

definition fresh_bridge :: "StoreForwardBridge \<Rightarrow> bool" where
  "fresh_bridge b \<longleftrightarrow>
     (\<exists>planner slots capacity ledgerSlots ledgerCapacity l options.
        b = newBridge planner (Some slots) capacity l options \<and>
        searchable (fp_routes planner) \<and> length slots = unat capacity \<and>
        newCompletionLedger (Some ledgerSlots) ledgerCapacity = Some l \<and>
        length ledgerSlots = unat ledgerCapacity)"

lemma fresh_ledger:
  assumes "newCompletionLedger (Some slots) capacity = Some l" "length slots = unat capacity"
  shows "ledger_ok l \<and> ledger_look l = Map.empty"
proof -
  have "ledger_backed \<lparr>cl_slots = Some slots, cl_capacity = capacity, cl_size = 0\<rparr>"
    using assms(2) by (simp add: ledger_backed_def live_def)
  from cl_clear_spec [OF this] assms(1) show ?thesis by (auto simp: newCompletionLedger_def)
qed

lemma fresh_ok: "fresh_bridge b \<Longrightarrow> bridge_ok b \<and> works b = [] \<and> \<not> sb_inFlight b"
proof -
  assume "fresh_bridge b"
  then obtain planner slots capacity ledgerSlots ledgerCapacity l options where
    b: "b = newBridge planner (Some slots) capacity l options"
      "searchable (fp_routes planner)" "length slots = unat capacity"
      "newCompletionLedger (Some ledgerSlots) ledgerCapacity = Some l"
      "length ledgerSlots = unat ledgerCapacity"
    by (auto simp: fresh_bridge_def)
  from fresh_ledger [OF b(4,5)] have l: "ledger_ok l" "ledger_look l = Map.empty" by simp_all
  have "bridge_ok b" unfolding b(1) by (rule bridge_ok_new [OF b(2,3) l])
  then show "bridge_ok b \<and> works b = [] \<and> \<not> sb_inFlight b"
    by (simp add: b(1) newBridge_def works_def newRingQueue_def)
qed

text \<open>
  A run with what the client was told: the works reported as admitted and the works reported
  as retired, both in order. \<open>reset\<close> retires every queued work.
\<close>

inductive bridge_run ::
  "StoreForwardBridge \<Rightarrow> WorkIdentity list \<Rightarrow> WorkIdentity list \<Rightarrow> StoreForwardBridge \<Rightarrow> bool" for b0 where
  run_start: "bridge_run b0 [] [] b0"
| run_coil: "bridge_run b0 ins outs b \<Longrightarrow> admitCoilWork b cwork session context = Some (admission, b') \<Longrightarrow>
    bridge_run b0 (if ad_status admission = Admit_Admitted then ins @ [iw_identity cwork] else ins) outs b'"
| run_holding: "bridge_run b0 ins outs b \<Longrightarrow> admitHoldingWork b hwork session context = Some (admission, b') \<Longrightarrow>
    bridge_run b0 (if ad_status admission = Admit_Admitted then ins @ [iw_identity hwork] else ins) outs b'"
| run_action: "bridge_run b0 ins outs b \<Longrightarrow> snapshots_held m b \<Longrightarrow> polls_backed polls n \<Longrightarrow>
    admitAction m b action session polls n = Some (admitted, b') \<Longrightarrow> bridge_run b0 ins outs b'"
| run_complete: "bridge_run b0 ins outs b \<Longrightarrow> complete b action outcome session = Some (completion, b') \<Longrightarrow>
    bridge_run b0 ins
      (if cp_workRetired completion then outs @ [ri_work (pw_identity (ac_write action))] else outs) b'"
| run_discard: "bridge_run b0 ins outs b \<Longrightarrow> discardOneStaleWork b session = Some (status, retired, b') \<Longrightarrow>
    bridge_run b0 ins (if status = Retire_Retired then outs @ [re_work retired] else outs) b'"
| run_abandon: "bridge_run b0 ins outs b \<Longrightarrow> abandonFront b = Some (status, retired, b') \<Longrightarrow>
    bridge_run b0 ins (if status = Retire_Retired then outs @ [re_work retired] else outs) b'"
| run_reset: "bridge_run b0 ins outs b \<Longrightarrow> reset b = Some (finished, b') \<Longrightarrow>
    bridge_run b0 ins (if finished then outs @ map sw_workIdentity (works b) else outs) b'"

lemma run_reachable: "bridge_run b0 ins outs b \<Longrightarrow> reachable b0 b"
  by (induction rule: bridge_run.induct) (blast intro: reachable.intros bridge_step.intros)+

lemma retired_is_front:
  assumes ok: "bridge_ok b" and c: "complete b action x session = Some (c, b')"
  shows "if cp_workRetired c
    then works b \<noteq> [] \<and> ri_work (pw_identity (ac_write action)) = sw_workIdentity (hd (works b)) \<and>
      works b' = tl (works b)
    else works b' = works b"
proof (cases "sb_inFlight b \<and> action = sb_inFlightAction b \<and> isKnownDownstreamOutcome x")
  case False
  with c have "b' = b" "\<not> cp_workRetired c"
    by (auto simp: complete_def newCompletion_def Let_def split: if_splits)
  then show ?thesis by simp
next
  case True
  have w: "cp_workRetired c \<Longrightarrow> write_in_flight b" "works b' = (if cp_workRetired c then tl (works b) else works b)"
    using complete_spec [OF ok, of action x session] c True by (auto split: if_splits)
  show ?thesis
  proof (cases "cp_workRetired c")
    case retired: True
    from busy_front [OF ok w(1) [OF retired]] True w(2) retired show ?thesis by metis
  next
    case False
    with w(2) show ?thesis by simp
  qed
qed

lemma run_fifo:
  assumes "bridge_run b0 ins outs b" "bridge_ok b0" "works b0 = []"
  shows "ins = outs @ map sw_workIdentity (works b)"
  using assms
proof (induction rule: bridge_run.induct)
  case run_start
  then show ?case by simp
next
  case (run_coil ins outs b cwork session ctx admission b')
  have "bridge_ok b" using reachable_ok [OF run_reachable [OF run_coil.hyps(1)] run_coil.prems(1)] .
  from coil_queue.admitWork_spec [OF this, of cwork session ctx] run_coil show ?case
    by (auto simp: admitCoilWork_def newWorkSlot_def)
next
  case (run_holding ins outs b hwork session ctx admission b')
  have "bridge_ok b" using reachable_ok [OF run_reachable [OF run_holding.hyps(1)] run_holding.prems(1)] .
  from holding_queue.admitWork_spec [OF this, of hwork session ctx] run_holding show ?case
    by (auto simp: admitHoldingWork_def newWorkSlot_def)
next
  case (run_action ins outs b m polls n action session admitted b')
  have ok: "bridge_ok b" using reachable_ok [OF run_reachable [OF run_action.hyps(1)] run_action.prems(1)] .
  have "map sw_workIdentity (works b') = map sw_workIdentity (works b)"
    by (rule admitAction_works [OF ok run_action.hyps(2-4)])
  with run_action show ?case by simp
next
  case (run_complete ins outs b action outcome session completion b')
  have ok: "bridge_ok b" using reachable_ok [OF run_reachable [OF run_complete.hyps(1)] run_complete.prems(1)] .
  from retired_is_front [OF ok run_complete.hyps(2)] run_complete show ?case
    by (cases "works b") (auto split: if_splits)
next
  case (run_discard ins outs b session status retired b')
  have ok: "bridge_ok b" using reachable_ok [OF run_reachable [OF run_discard.hyps(1)] run_discard.prems(1)] .
  from discard_spec [OF ok, of session] run_discard show ?case
    by (cases "works b") (auto split: if_splits)
next
  case (run_abandon ins outs b status retired b')
  have ok: "bridge_ok b" using reachable_ok [OF run_reachable [OF run_abandon.hyps(1)] run_abandon.prems(1)] .
  from abandonFront_spec [OF ok] run_abandon show ?case
    by (cases "works b") (auto split: if_splits)
next
  case (run_reset ins outs b finished b')
  have ok: "bridge_ok b" using reachable_ok [OF run_reachable [OF run_reset.hyps(1)] run_reset.prems(1)] .
  from reset_spec [OF ok] run_reset show ?case by (auto split: if_splits)
qed

section \<open>Example bridge\<close>

definition deployed :: "StoreForwardBridge \<Rightarrow> bool" where
  "deployed b \<longleftrightarrow> (\<exists>b0. fresh_bridge b0 \<and> reachable b0 b)"

lemma deployed_ok: "deployed b \<Longrightarrow> bridge_ok b"
  using fresh_ok reachable_ok by (auto simp: deployed_def)

definition example_empty_ledger :: CompletionLedger where
  "example_empty_ledger = \<lparr>cl_slots = Some [newLedgerSlot, newLedgerSlot], cl_capacity = 2, cl_size = 0\<rparr>"

definition example_bridge :: StoreForwardBridge where
  "example_bridge = newBridge example_planner (Some [emptyWorkSlot, emptyWorkSlot]) 2 example_empty_ledger
     newPollPlannerOptions"

lemma example_fresh: "fresh_bridge example_bridge"
proof -
  have "newCompletionLedger (Some [newLedgerSlot, newLedgerSlot]) 2 = Some example_empty_ledger" by code_simp
  then show ?thesis
    unfolding fresh_bridge_def
    by (intro exI [of _ example_planner] exI [of _ "[emptyWorkSlot, emptyWorkSlot]"] exI [of _ "2 :: u16"]
        exI [of _ "[newLedgerSlot, newLedgerSlot]"] exI [of _ example_empty_ledger]
        exI [of _ "newPollPlannerOptions"])
      (simp add: example_bridge_def example_planner_searchable)
qed

lemma example_deployed: "deployed example_bridge"
  using example_fresh reachable.start by (auto simp: deployed_def)

definition example_loaded :: StoreForwardBridge where
  "example_loaded = snd (the (admitHoldingWork example_bridge example_work example_session Null))"

lemma example_admit: "admit_status holding_traits example_bridge example_work example_session = Admit_Admitted"
proof -
  have "begin_status holding_traits example_planner example_work = Plan_Ready"
    using planner_begin_spec [OF example_planner_searchable holding.table_in_routes, of example_work]
      example_work_begins by (simp add: Let_def)
  moreover have "workCurrent (iw_identity example_work) example_session" by code_simp
  moreover have "works example_bridge = []" using fresh_ok [OF example_fresh] by simp
  ultimately show ?thesis
    by (simp add: admit_status_def plan_status_def example_bridge_def newBridge_def newRingQueue_def
        ring_room_def ledger_room_def example_empty_ledger_def)
qed

lemma holding_table: "wt_table holding_traits = HoldingRegisters"
  by (simp add: holding_traits_def)

lemma example_loaded:
  "\<exists>adm. admitHoldingWork example_bridge example_work example_session Null = Some (adm, example_loaded)"
  "works example_loaded =
    [newWorkSlot HoldingRegisters example_work (begin_cursor example_work) Null]"
  "\<not> sb_inFlight example_loaded"
  using holding_queue.admitWork_spec [OF deployed_ok [OF example_deployed], of example_work example_session Null]
  by (auto simp: example_admit example_loaded_def admitHoldingWork_def fresh_ok [OF example_fresh]
      holding_table)

lemma example_loaded_deployed: "deployed example_loaded"
  using example_fresh example_loaded(1) reachable.intros bridge_step.admit_holding
  unfolding deployed_def by blast

definition example_payload :: memory where
  "example_payload = \<lparr>mm_coils = Map.empty, mm_registers = example_memory\<rparr>"

lemma example_loaded_held: "snapshots_held example_payload example_loaded"
  using example_work_holds
  by (auto simp: snapshots_held_def example_loaded(2) slot_backed_def newWorkSlot_def example_payload_def
      asHoldingCursor_def slotCursor_def snapshot_holds_def)


section \<open>Properties\<close>

text \<open>
  C1. Whatever calls a bridge has seen since its construction, its queue and its ledger hold the
  same works, each once and within both capacities, and a work has a request outstanding
  exactly while a forward write is in flight and the work is the one at the front, whose
  ledger entry then holds that very request.
\<close>

theorem reachable_invariant:
  assumes "fresh_bridge b0" "reachable b0 b"
  shows "distinct (map sw_workIdentity (works b)) \<and>
    dom (entry b) = set (map sw_workIdentity (works b)) \<and>
    unat (queuedWork b) = length (works b) \<and> cl_size (sb_completionLedger b) = queuedWork b \<and>
    queuedWork b \<le> rq_capacity (sb_workQueue b) \<and>
    queuedWork b \<le> cl_capacity (sb_completionLedger b) \<and>
    (\<forall>w s. entry b w = Some s \<longrightarrow>
       (if write_in_flight b \<and> w = sw_workIdentity (hd (works b))
        then ls_outstandingRequests s = 1 \<and> ls_issuedRequest s = ac_write (sb_inFlightAction b)
        else ls_outstandingRequests s = 0))"
proof -
  have ok: "bridge_ok b" using assms reachable_ok fresh_ok by blast
  note q = bridge_okD(2) [OF ok] and l = bridge_okD(3) [OF ok]
  have size: "cl_size (sb_completionLedger b) = queuedWork b"
    using card_ledger_look [OF l] card_entries [OF ok]
    by (simp add: entry_def works_def queuedWork_def word_unat_eq_iff)
  have one: "ls_outstandingRequests s = 0 \<or> ls_outstandingRequests s = 1" if "entry b w = Some s" for w s
    using ledger.one_outstanding [OF l] that by (simp add: entry_def)
  have out: "if write_in_flight b \<and> w = sw_workIdentity (hd (works b))
      then ls_outstandingRequests s = 1 \<and> ls_issuedRequest s = ac_write (sb_inFlightAction b)
      else ls_outstandingRequests s = 0" if s: "entry b w = Some s" for w s
  proof (cases "write_in_flight b \<and> w = sw_workIdentity (hd (works b))")
    case True
    with ok s one [OF s] show ?thesis by (auto simp: bridge_ok_def busy_entry_def)
  next
    case False
    have "w \<in> sw_workIdentity ` set (works b)" using bridge_okD(5) [OF ok] s by auto
    then obtain slot where slot: "slot \<in> set (works b)" "w = sw_workIdentity slot" by blast
    with False have "slot \<in> set (if write_in_flight b then tl (works b) else works b)"
      by (cases "works b") auto
    then have "idle_entry (entry b) slot" using ok by (simp only: bridge_ok_def)
    with slot s False show ?thesis by (auto simp: idle_entry_def)
  qed
  have room: "queuedWork b \<le> rq_capacity (sb_workQueue b)"
    using ring.within_room [OF q] by (simp add: queuedWork_def ring_room_def word_le_nat_alt)
  have space: "queuedWork b \<le> cl_capacity (sb_completionLedger b)"
    using ledger.bounded [OF l] card_ledger_look [OF l] size
    by (simp add: ledger_room_def word_le_nat_alt)
  show ?thesis
    using bridge_okD(4,5) [OF ok] size out room space
    by (simp add: works_def queuedWork_def)
qed

lemma reachable_invariant_witness:
  "distinct (map sw_workIdentity (works example_loaded)) \<and>
   cl_size (sb_completionLedger example_loaded) = queuedWork example_loaded"
proof -
  have "reachable example_bridge example_loaded"
    using example_loaded(1) reachable.intros bridge_step.admit_holding by blast
  from reachable_invariant [OF example_fresh this] show ?thesis by blast
qed

text \<open>
  C9. No call on a bridge gets stuck: in every state reached from construction, and for all
  arguments for which the caller keeps the queued snapshots readable and the poll array as
  long as announced, every public method returns; the reset loop ends.
\<close>

theorem every_call_returns:
  assumes "deployed b" "snapshots_held m b" "polls_backed polls n"
  shows "(\<exists>r. admitCoilWork b cwork session context = Some r) \<and>
    (\<exists>r. admitHoldingWork b hwork session context = Some r) \<and>
    (\<exists>r. nextAction m b session now polls n context = Some r) \<and>
    (\<exists>r. admitAction m b action session polls n = Some r) \<and>
    (\<exists>r. complete b action outcome session = Some r) \<and>
    (\<exists>r. discardOneStaleWork b session = Some r) \<and>
    (\<exists>r. abandonFront b = Some r) \<and> (\<exists>r. reset b = Some r)"
proof -
  note ok = deployed_ok [OF assms(1)]
  have "\<exists>r. nextAction m b session now polls n context = Some r"
  proof (cases "sb_inFlight b")
    case True
    then show ?thesis
      using bridge_ok_validStorage [OF ok] by (simp add: nextAction_def previewAction_def preview_failed_def)
  next
    case False
    from preview_spec [OF ok False assms(2,3), of session now "context"] show ?thesis
      by (auto simp: nextAction_def)
  qed
  then show ?thesis
    using coil_queue.admitWork_spec [OF ok, of cwork session "context"]
      holding_queue.admitWork_spec [OF ok, of hwork session "context"]
      admitAction_spec [OF ok assms(2,3), of action session] complete_spec [OF ok, of action outcome session]
      discard_spec [OF ok, of session] abandonFront_spec [OF ok] reset_spec [OF ok]
    unfolding admitCoilWork_def admitHoldingWork_def by blast
qed

lemma every_call_returns_witness:
  "(\<exists>r. nextAction example_payload example_loaded example_session 5 None 0 Null = Some r) \<and>
   (\<exists>r. reset example_loaded = Some r)"
  using every_call_returns [OF example_loaded_deployed example_loaded_held, of None 0]
  by (simp add: polls_backed_def)


text \<open>
  C8. Admission of a work is exact for both value types: the status names the first obstacle
  among a full queue, a work the planner rejects, and a work the ledger already holds or has
  no slot for. An admitted work is appended to the queue with its whole span still to do; a
  refused one changes nothing.
\<close>

theorem work_admission_exact:
  assumes "deployed b"
  shows "(\<exists>adm b'. admitCoilWork b cwork session context = Some (adm, b') \<and>
      ad_status adm = admit_status coil_traits b cwork session \<and>
      (if ad_status adm = Admit_Admitted
       then works b' = works b @ [newWorkSlot Coils cwork (begin_cursor cwork) context]
       else b' = b)) \<and>
    (\<exists>adm b'. admitHoldingWork b hwork session context = Some (adm, b') \<and>
      ad_status adm = admit_status holding_traits b hwork session \<and>
      (if ad_status adm = Admit_Admitted
       then works b' = works b @ [newWorkSlot HoldingRegisters hwork (begin_cursor hwork) context]
       else b' = b))"
proof -
  note ok = deployed_ok [OF assms]
  have "wt_table coil_traits = Coils" by (simp add: coil_traits_def)
  with coil_queue.admitWork_spec [OF ok, of cwork session "context"]
    holding_queue.admitWork_spec [OF ok, of hwork session "context"]
  show ?thesis
    unfolding admitCoilWork_def admitHoldingWork_def holding_table by (fastforce split: if_splits)
qed

lemma work_admission_exact_witness:
  "\<exists>adm b'. admitHoldingWork example_bridge example_work example_session Null = Some (adm, b') \<and>
     ad_status adm = Admit_Admitted \<and>
     works b' = [newWorkSlot HoldingRegisters example_work (begin_cursor example_work) Null]"
  using work_admission_exact [OF example_deployed, of coil_work example_session Null example_work,
      THEN conjunct2]
  by (auto simp: example_admit fresh_ok [OF example_fresh] split: if_splits)

lemma due_length:
  assumes "slot_shape p slot"
  shows "length (due_writes m v slot) = unat (sw_remaining slot)"
proof -
  have "unat (sw_sourceOffset slot) + unat (sw_remaining slot) = unat (sw_quantity slot)"
    using assms
    by (auto simp: slot_shape_def cursor_shape_def Let_def asCoilCursor_def asHoldingCursor_def
        slotCursor_def split: RegisterTable.splits)
  then show ?thesis by (simp add: due_writes_def)
qed

lemma ready_idle:
  assumes "nextAction m b session now polls n context = Some (Action_Ready, a)"
  obtains cc hc where "previewAction m b session now polls n context = Some (Action_Ready, a, cc, hc)"
    "\<not> sb_inFlight b"
  using assms
  by (auto simp: nextAction_def elim!: bind_SomeE)
    (auto simp: previewAction_def preview_failed_def split: if_splits)

text \<open>
  C7. Every action that \<open>nextAction\<close> offers is well formed for the executor. It belongs to
  the present state and instant; if it is dispatched, it has a fresh non-zero sequence, which
  its request repeats, and the executor accepts the request. A forward write is for the front
  work, whose session is current, carries that work's user context and the caller's consistency
  context, and transfers the next values that this work owes, at least one. A poll is for the
  first due candidate in round-robin order: it is dispatched exactly if that candidate asks for
  it, and then its request is the candidate's, up to the fresh sequence, and only reads.
\<close>

theorem ready_action_wellformed:
  assumes "deployed b" "snapshots_held m b" "polls_backed polls n"
    and "nextAction m b session now polls n context = Some (Action_Ready, a)"
  shows "\<not> sb_inFlight b \<and> ac_proposalRevision a = sb_revision b \<and> ac_selectedAt a = now \<and>
    ac_pollCount a = n \<and> ps_kind (ac_scheduling a) = ac_kind a \<and>
    (ac_requiresCompletion a \<longrightarrow>
       ac_sequence a = nextNonZeroSequence32 (lastRequestSequence b) \<and>
       dr_sequence (ac_downstream a) = ac_sequence a \<and>
       validateDownstreamRequest (ac_downstream a) = Request_Valid) \<and>
    (case ac_kind a of
       ForwardWrite \<Rightarrow>
         ac_requiresCompletion a \<and> works b \<noteq> [] \<and>
         workCurrent (sw_workIdentity (hd (works b))) session \<and>
         ri_work (pw_identity (ac_write a)) = sw_workIdentity (hd (works b)) \<and>
         ac_workContext a = sw_userContext (hd (works b)) \<and>
         ac_downstream a = downstreamRequestFor (ac_write a) context \<and>
         wire_writes m (ac_downstream a) \<noteq> [] \<and>
         (\<exists>later. due_writes m (fp_routes (sb_forwardPlanner b)) (hd (works b)) =
            wire_writes m (ac_downstream a) @ later)
     | Poll \<Rightarrow>
         (\<exists>xs i. polls = Some xs \<and> first_due now xs n (sb_pollState b) = Some i \<and>
            unat i < unat n \<and> candidate_due now (xs ! unat i) \<and>
            ps_pollIndex (ac_scheduling a) = i \<and>
            ac_requiresCompletion a = pc_requiresDispatch (xs ! unat i) \<and>
            (ac_requiresCompletion a \<longrightarrow>
               ac_downstream a = (pc_request (xs ! unat i))\<lparr>dr_sequence := ac_sequence a\<rparr> \<and>
               isPollOperation (dr_operation (ac_downstream a))))
     | _ \<Rightarrow> False)"
proof -
  note ok = deployed_ok [OF assms(1)]
  from ready_idle [OF assms(4)] obtain cc hc where
    preview: "previewAction m b session now polls n context = Some (Action_Ready, a, cc, hc)"
    and idle: "\<not> sb_inFlight b" .
  from preview_spec [OF ok idle assms(2,3), of session now "context"] preview
  have "forward_proposal b session now n context a (updated_slot (hd (works b)) cc hc) \<or>
      poll_proposal b polls now n a" by auto
  then show ?thesis
  proof
    assume f: "forward_proposal b session now n context a (updated_slot (hd (works b)) cc hc)"
    then have kind: "ac_kind a = ForwardWrite" by (simp add: forward_proposal_def)
    from forward_step [OF ok idle assms(2,3) preview kind] obtain slot' where
      s: "works b \<noteq> []" "slot_shape (sb_forwardPlanner b) slot'"
        "unat (sw_remaining slot') < unat (sw_remaining (hd (works b)))"
        "validateDownstreamRequest (ac_downstream a) = Request_Valid"
        "due_writes m (fp_routes (sb_forwardPlanner b)) (hd (works b)) =
           wire_writes m (ac_downstream a) @ due_writes m (fp_routes (sb_forwardPlanner b)) slot'"
      by metis
    have "slot_shape (sb_forwardPlanner b) (hd (works b))" using bridge_okD(6) [OF ok] s(1) by simp
    from due_length [OF this] due_length [OF s(2)] s(3,5) have "wire_writes m (ac_downstream a) \<noteq> []"
      by (metis append_Nil less_irrefl)
    moreover have "dr_sequence (ac_downstream a) = ac_sequence a"
        "ri_work (pw_identity (ac_write a)) = sw_workIdentity (hd (works b))"
      using f by (auto simp: forward_proposal_def planned_def downstreamRequestFor_def)
    moreover have "ac_proposalRevision a = sb_revision b" "ac_selectedAt a = now" "ac_pollCount a = n"
        "ac_scheduling a = fromCandidateSet ForwardWrite 0 n" "ac_requiresCompletion a"
        "ac_sequence a = nextNonZeroSequence32 (lastRequestSequence b)"
        "workCurrent (sw_workIdentity (hd (works b))) session"
        "ac_workContext a = sw_userContext (hd (works b))"
        "ac_downstream a = downstreamRequestFor (ac_write a) context"
      using f by (simp_all add: forward_proposal_def lastRequestSequence_def)
    ultimately show ?thesis using idle kind s(1,4,5) by simp
  next
    assume p: "poll_proposal b polls now n a"
    then obtain xs i where i: "polls = Some xs" "first_due now xs n (sb_pollState b) = Some i"
        "unat i < unat n" "ac_scheduling a = fromCandidateSet Poll i n"
        "ac_requiresCompletion a = pc_requiresDispatch (xs ! unat i)"
        "ac_requiresCompletion a \<longrightarrow>
           ac_downstream a = (pc_request (xs ! unat i))\<lparr>dr_sequence := ac_sequence a\<rparr>"
      by (auto simp: poll_proposal_def)
    from p have kind: "ac_kind a = Poll" by (simp add: poll_proposal_def)
    have "ac_proposalRevision a = sb_revision b" "ac_selectedAt a = now" "ac_pollCount a = n"
        "ac_requiresCompletion a \<longrightarrow>
           ac_sequence a = nextNonZeroSequence32 (lastRequestSequence b) \<and>
           dr_sequence (ac_downstream a) = ac_sequence a \<and>
           isPollOperation (dr_operation (ac_downstream a)) \<and>
           validateDownstreamRequest (ac_downstream a) = Request_Valid"
      using p by (simp_all add: poll_proposal_def lastRequestSequence_def)
    moreover have "ps_kind (ac_scheduling a) = ac_kind a" "ps_pollIndex (ac_scheduling a) = i"
      using i(4) kind by simp_all
    ultimately show ?thesis
      using first_due_is_due [OF i(2)] i idle unfolding kind ScheduledActionKind.case by blast
  qed
qed

lemma example_ready:
  obtains action where
    "nextAction example_payload example_loaded example_session 5 None 0 Null = Some (Action_Ready, action)"
    "ac_kind action = ForwardWrite"
proof -
  note ok = deployed_ok [OF example_loaded_deployed]
  have polls: "polls_backed None 0" by (simp add: polls_backed_def)
  have "workCurrent (iw_identity example_work) example_session" by code_simp
  then have current: "workCurrent (sw_workIdentity (hd (works example_loaded))) example_session"
    by (simp add: example_loaded(2) newWorkSlot_def)
  from preview_spec [OF ok example_loaded(3) example_loaded_held polls, of example_session 5 Null] current
  obtain status a cc hc where
    p: "previewAction example_payload example_loaded example_session 5 None 0 Null = Some (status, a, cc, hc)"
    and status: "status \<notin> {Action_InvalidStorage, Action_ActionInFlight, Action_PlanningFailed,
      Action_InvalidPollStorage, Action_InvalidPollRequest, Action_NoAction, Action_StaleWork}"
    and ready: "status = Action_Ready \<longrightarrow> ac_kind a = ForwardWrite"
    by (auto simp: example_loaded(2) forward_proposal_def poll_proposal_def)
  from status have "status = Action_Ready" by (cases status) simp_all
  with p ready that show ?thesis by (simp add: nextAction_def)
qed

text \<open>Two candidates for an idle bridge: the first is disabled, the second is due.\<close>

definition polled_candidates :: "PollCandidate list" where
  "polled_candidates =
     [example_candidate False 0,
      (example_candidate True 3)\<lparr>pc_request := newDownstreamRequest\<lparr>dr_operation := ReadCoils,
         dr_endpointId := 4, dr_startAddress := 7, dr_quantity := 2, dr_coilBuffer := Ptr 5 0\<rparr>\<rparr>]"

lemma example_polled:
  "nextAction example_payload example_bridge example_session 5 (Some polled_candidates) 2 Null =
   Some (Action_Ready,
     (selected_action example_bridge (fromCandidateSet Poll 1 2) 2 5)
       \<lparr>ac_sequence := 1, ac_requiresCompletion := True,
        ac_downstream := (pc_request (polled_candidates ! 1))\<lparr>dr_sequence := 1\<rparr>\<rparr>)"
  by code_simp

lemma ready_action_wellformed_witness:
  "(\<exists>a. nextAction example_payload example_loaded example_session 5 None 0 Null = Some (Action_Ready, a) \<and>
     validateDownstreamRequest (ac_downstream a) = Request_Valid \<and>
     wire_writes example_payload (ac_downstream a) \<noteq> []) \<and>
   (\<exists>a. nextAction example_payload example_bridge example_session 5 (Some polled_candidates) 2 Null =
       Some (Action_Ready, a) \<and>
     validateDownstreamRequest (ac_downstream a) = Request_Valid \<and>
     first_due 5 polled_candidates 2 (sb_pollState example_bridge) = Some 1 \<and>
     ac_downstream a = (pc_request (polled_candidates ! 1))\<lparr>dr_sequence := ac_sequence a\<rparr>)"
proof
  obtain a where a: "nextAction example_payload example_loaded example_session 5 None 0 Null =
      Some (Action_Ready, a)" "ac_kind a = ForwardWrite" by (rule example_ready)
  have "polls_backed None 0" by (simp add: polls_backed_def)
  from ready_action_wellformed [OF example_loaded_deployed example_loaded_held this a(1)] a
  show "\<exists>a. nextAction example_payload example_loaded example_session 5 None 0 Null = Some (Action_Ready, a) \<and>
     validateDownstreamRequest (ac_downstream a) = Request_Valid \<and>
     wire_writes example_payload (ac_downstream a) \<noteq> []" by auto
next
  have "snapshots_held example_payload example_bridge"
    using fresh_ok [OF example_fresh] by (simp add: snapshots_held_def)
  moreover have "polls_backed (Some polled_candidates) 2"
    by (simp add: polls_backed_def polled_candidates_def)
  ultimately show "\<exists>a. nextAction example_payload example_bridge example_session 5 (Some polled_candidates) 2 Null =
       Some (Action_Ready, a) \<and>
     validateDownstreamRequest (ac_downstream a) = Request_Valid \<and>
     first_due 5 polled_candidates 2 (sb_pollState example_bridge) = Some 1 \<and>
     ac_downstream a = (pc_request (polled_candidates ! 1))\<lparr>dr_sequence := ac_sequence a\<rparr>"
    using ready_action_wellformed [OF example_deployed _ _ example_polled]
    by (auto simp: example_polled selected_action_def fromCandidateSet_def unboundPollSelection_def)
qed

text \<open>
  C6. \<open>admitAction\<close> accepts exactly the action that \<open>nextAction\<close> would offer in the present
  state for the action's own time and consistency context. Accepting a dispatched action
  puts it in flight, accepting a poll without dispatch consumes it; the queued works stay, and
  a forward write takes precisely its values off what the queue owes. Anything else is
  refused without a change, and never by the ledger or by the fairness state.
\<close>

theorem action_admission_exact:
  assumes "deployed b" "snapshots_held m b" "polls_backed polls n"
  shows "\<exists>status b'. admitAction m b action session polls n = Some (status, b') \<and>
    (if nextAction m b session (ac_selectedAt action) polls n
          (dr_consistencyContext (ac_downstream action)) = Some (Action_Ready, action)
     then map sw_workIdentity (works b') = map sw_workIdentity (works b) \<and>
       (if ac_requiresCompletion action
        then status = ActionAdmit_Admitted \<and> sb_inFlight b' \<and> sb_inFlightAction b' = action
        else status = ActionAdmit_Consumed \<and> \<not> sb_inFlight b') \<and>
       (if ac_kind action = ForwardWrite
        then owed m b = wire_writes m (ac_downstream action) @ owed m b' else owed m b' = owed m b)
     else b' = b \<and>
       status \<notin> {ActionAdmit_Admitted, ActionAdmit_Consumed, ActionAdmit_LedgerRejected,
         ActionAdmit_FairnessRejected})"
proof -
  note ok = deployed_ok [OF assms(1)]
  let ?now = "ac_selectedAt action" and ?ctx = "dr_consistencyContext (ac_downstream action)"
  show ?thesis
  proof (cases "nextAction m b session ?now polls n ?ctx = Some (Action_Ready, action)")
    case True
    from ready_idle [OF this] obtain cc hc where
      p: "previewAction m b session ?now polls n ?ctx = Some (Action_Ready, action, cc, hc)"
        "\<not> sb_inFlight b" .
    from admit_proposal [OF ok p(2) assms(2,3) p(1)] obtain b' where
      a: "admitAction m b action session polls n =
        Some (if ac_requiresCompletion action then ActionAdmit_Admitted else ActionAdmit_Consumed, b')"
      "if ac_requiresCompletion action then sb_inFlight b' \<and> sb_inFlightAction b' = action
       else \<not> sb_inFlight b' \<and> ac_kind action = Poll"
      "ac_kind action \<noteq> ForwardWrite \<Longrightarrow> works b' = works b" by auto
    have "if ac_kind action = ForwardWrite
      then owed m b = wire_writes m (ac_downstream action) @ owed m b' else owed m b' = owed m b"
    proof (cases "ac_kind action = ForwardWrite")
      case forward: True
      from forward_step [OF ok p(2) assms(2,3) p(1) forward] obtain b1 slot' where
        "admitAction m b action session polls n = Some (ActionAdmit_Admitted, b1)"
        and f: "works b \<noteq> []" "works b1 = slot' # tl (works b)"
        "due_writes m (fp_routes (sb_forwardPlanner b)) (hd (works b)) =
           wire_writes m (ac_downstream action) @ due_writes m (fp_routes (sb_forwardPlanner b)) slot'"
        by metis
      with a(1) have "b1 = b'" by simp
      with f forward planner_fixed(1) [OF a(1)] show ?thesis
        by (cases "works b :: StoreForwardWorkSlot list") (simp_all add: owed_def)
    next
      case False
      with a(3) planner_fixed(1) [OF a(1)] show ?thesis by (simp add: owed_def)
    qed
    with a(1,2) True admitAction_works [OF ok assms(2,3) a(1)] show ?thesis by auto
  next
    case False
    from admitAction_spec [OF ok assms(2,3), of action session] obtain status b' where
      a: "admitAction m b action session polls n = Some (status, b')"
      "status \<noteq> ActionAdmit_LedgerRejected" "status \<noteq> ActionAdmit_FairnessRejected"
      "if status = ActionAdmit_Admitted \<or> status = ActionAdmit_Consumed
       then \<exists>cc hc. previewAction m b session ?now polls n ?ctx = Some (Action_Ready, action, cc, hc)
       else b' = b" by (auto split: if_splits)
    with False have "b' = b \<and> status \<notin> {ActionAdmit_Admitted, ActionAdmit_Consumed}"
      by (auto simp: nextAction_def split: if_splits)
    with a False show ?thesis by auto
  qed
qed

lemma example_current_proposal:
  obtains action where "ac_requiresCompletion action" "ac_kind action = ForwardWrite"
    "nextAction example_payload example_loaded example_session (ac_selectedAt action) None 0
      (dr_consistencyContext (ac_downstream action)) = Some (Action_Ready, action)"
proof -
  obtain a where a: "nextAction example_payload example_loaded example_session 5 None 0 Null =
      Some (Action_Ready, a)" "ac_kind a = ForwardWrite" by (rule example_ready)
  have polls: "polls_backed None 0" by (simp add: polls_backed_def)
  note ok = deployed_ok [OF example_loaded_deployed]
  from ready_idle [OF a(1)] obtain cc hc where
    p: "previewAction example_payload example_loaded example_session 5 None 0 Null =
       Some (Action_Ready, a, cc, hc)" .
  from proposal_repeats [OF ok example_loaded(3) example_loaded_held polls p]
  have again: "nextAction example_payload example_loaded example_session (ac_selectedAt a) None 0
      (dr_consistencyContext (ac_downstream a)) = Some (Action_Ready, a)"
    by (simp add: nextAction_def)
  from preview_spec [OF ok example_loaded(3) example_loaded_held polls, of example_session 5 Null] p a(2)
  have "ac_requiresCompletion a" by (auto simp: forward_proposal_def poll_proposal_def)
  from this a(2) again show ?thesis by (rule that)
qed

lemma action_admission_exact_witness:
  "\<exists>action b'. admitAction example_payload example_loaded action example_session None 0 =
     Some (ActionAdmit_Admitted, b') \<and> sb_inFlight b' \<and> sb_inFlightAction b' = action"
proof -
  have polls: "polls_backed None 0" by (simp add: polls_backed_def)
  obtain a where "ac_requiresCompletion a"
    "nextAction example_payload example_loaded example_session (ac_selectedAt a) None 0
      (dr_consistencyContext (ac_downstream a)) = Some (Action_Ready, a)"
    by (rule example_current_proposal)
  with action_admission_exact [OF example_loaded_deployed example_loaded_held polls, of a example_session]
  show ?thesis by auto
qed

lemma example_in_flight:
  obtains b where "deployed b" "write_in_flight b" "works b \<noteq> []"
    "sw_workIdentity (hd (works b)) = iw_identity example_work"
proof -
  have polls: "polls_backed None 0" by (simp add: polls_backed_def)
  note ok = deployed_ok [OF example_loaded_deployed]
  obtain a where a: "ac_kind a = ForwardWrite"
    "nextAction example_payload example_loaded example_session (ac_selectedAt a) None 0
      (dr_consistencyContext (ac_downstream a)) = Some (Action_Ready, a)"
    by (rule example_current_proposal)
  from ready_idle [OF a(2)] obtain cc hc where
    "previewAction example_payload example_loaded example_session (ac_selectedAt a) None 0
      (dr_consistencyContext (ac_downstream a)) = Some (Action_Ready, a, cc, hc)" .
  from forward_step [OF ok example_loaded(3) example_loaded_held polls this a(1)] obtain b1 slot' where
    b1: "admitAction example_payload example_loaded a example_session None 0 = Some (ActionAdmit_Admitted, b1)"
      "write_in_flight b1" "works b1 = slot' # tl (works example_loaded)"
      "sw_workIdentity slot' = sw_workIdentity (hd (works example_loaded))" by metis
  have "deployed b1"
    using example_loaded_deployed reachable.step [OF _ bridge_step.admit_action [OF example_loaded_held polls b1(1)]]
    by (auto simp: deployed_def)
  with b1 show ?thesis by (intro that [of b1]) (simp_all add: example_loaded(2) newWorkSlot_def)
qed

text \<open>
  C5. \<open>complete\<close> settles the action in flight exactly once. With that very action and a known
  outcome it ends the flight: a poll completes; a forward write of the current session
  reports its outcome and retires the front work when it failed or was the last fragment, and
  one of another session is dropped with its work. A second completion, whatever it names,
  is then refused as \<open>NoActionInFlight\<close>. A wrong action or an unknown outcome changes nothing.
\<close>

theorem completion_exact_and_once:
  assumes "deployed b"
  shows "\<exists>c b'. complete b action x session = Some (c, b') \<and>
    (if sb_inFlight b \<and> action = sb_inFlightAction b \<and> isKnownDownstreamOutcome x
     then \<not> sb_inFlight b' \<and>
       works b' = (if cp_workRetired c then tl (works b) else works b) \<and>
       (if write_in_flight b
        then if workCurrent (sw_workIdentity (hd (works b))) session
             then cp_status c = Complete_Completed \<and> decisionCurrent (cp_decision c) \<and>
               (\<not> cp_workRetired c \<longleftrightarrow> x = Outcome_Applied \<and> \<not> pw_finalFragment (ac_write action)) \<and>
               ws_outcome (cp_work c) = reported_outcome (ac_write action) x
             else cp_status c = Complete_StaleSession \<and> cp_workRetired c \<and>
               \<not> decisionCurrent (cp_decision c)
        else cp_status c = Complete_Completed \<and> \<not> cp_workRetired c) \<and>
       (\<forall>action' x' session'. \<exists>c'. complete b' action' x' session' = Some (c', b') \<and>
          cp_status c' = Complete_NoActionInFlight \<and> \<not> cp_workRetired c')
     else b' = b \<and> \<not> cp_workRetired c \<and>
       cp_status c = (if \<not> sb_inFlight b then Complete_NoActionInFlight
                      else if action \<noteq> sb_inFlightAction b then Complete_ActionMismatch
                      else Complete_InvalidOutcome))"
proof -
  note ok = deployed_ok [OF assms]
  from complete_spec [OF ok, of action x session] obtain c b' where
    c: "complete b action x session = Some (c, b')" by blast
  have refused: "\<exists>c'. complete b' action' x' session' = Some (c', b') \<and>
      cp_status c' = Complete_NoActionInFlight \<and> \<not> cp_workRetired c'" if "\<not> sb_inFlight b'"
    for action' x' session'
    using that by (simp add: complete_def newCompletion_def)
  have kept: "\<not> cp_workRetired c"
    if "\<not> (sb_inFlight b \<and> action = sb_inFlightAction b \<and> isKnownDownstreamOutcome x)"
    using that c by (auto simp: complete_def newCompletion_def Let_def split: if_splits)
  from complete_spec [OF ok, of action x session] c refused kept show ?thesis
    by (cases "sb_inFlight b \<and> action = sb_inFlightAction b \<and> isKnownDownstreamOutcome x"; simp)
qed

lemma completion_exact_and_once_witness:
  "\<exists>b c b'. write_in_flight b \<and>
     complete b (sb_inFlightAction b) Outcome_Applied example_session = Some (c, b') \<and>
     cp_status c = Complete_Completed \<and> \<not> sb_inFlight b'"
proof -
  obtain b where b: "deployed b" "write_in_flight b" "works b \<noteq> []"
    "sw_workIdentity (hd (works b)) = iw_identity example_work" by (rule example_in_flight)
  have "workCurrent (iw_identity example_work) example_session" by code_simp
  with completion_exact_and_once [OF b(1), of "sb_inFlightAction b" Outcome_Applied example_session] b
  show ?thesis by (simp add: write_in_flight_def) blast
qed


text \<open>
  C2. Works leave in the order in which they came. Over every sequence of calls on a fresh
  bridge, the works reported as admitted are exactly the works reported as retired, in the
  same order, followed by the works still queued, in queue order: none is lost, none is
  retired twice, and none overtakes another. (\<open>reset\<close> retires the whole queue.)
\<close>

theorem works_leave_in_order:
  assumes "fresh_bridge b0" "bridge_run b0 admitted retired b"
  shows "admitted = retired @ map sw_workIdentity (works b)"
  using run_fifo [OF assms(2)] fresh_ok [OF assms(1)] by blast

lemma works_leave_in_order_witness:
  "\<exists>admitted retired b. bridge_run example_bridge admitted retired b \<and>
     admitted = [iw_identity example_work] \<and> admitted = retired @ map sw_workIdentity (works b)"
proof -
  have "admitHoldingWork example_bridge example_work example_session Null =
      Some (the (map_option fst (admitHoldingWork example_bridge example_work example_session Null)), example_loaded)"
      "ad_status (the (map_option fst (admitHoldingWork example_bridge example_work example_session Null))) = Admit_Admitted"
    using holding_queue.admitWork_spec [OF deployed_ok [OF example_deployed], of example_work example_session Null]
      example_loaded(1) by (auto simp: example_admit admitHoldingWork_def)
  from run_holding [OF run_start this(1)] this(2)
  have run: "bridge_run example_bridge [iw_identity example_work] [] example_loaded" by simp
  from works_leave_in_order [OF example_fresh this] run show ?thesis by blast
qed

text \<open>
  C10. Retirement outside of completion is exact: \<open>discardOneStaleWork\<close> drops the front work only if
  its session is no longer current, \<open>abandonFront\<close> drops it in any case, each only while no
  action is in flight, and both report which work it was; \<open>reset\<close> empties queue and ledger and
  restarts the poll state. A refused call changes nothing.
\<close>

theorem retirement_exact:
  assumes "deployed b"
  shows "(\<exists>status retired b'. discardOneStaleWork b session = Some (status, retired, b') \<and>
      status = (if sb_inFlight b then Retire_ActionInFlight
                else if works b = [] then Retire_Empty
                else if workCurrent (sw_workIdentity (hd (works b))) session then Retire_WorkStillCurrent
                else Retire_Retired) \<and>
      (if status = Retire_Retired
       then works b' = tl (works b) \<and> re_work retired = sw_workIdentity (hd (works b)) \<and>
         re_table retired = sw_table (hd (works b)) \<and>
         re_userContext retired = sw_userContext (hd (works b))
       else b' = b \<and> retired = newRetirement)) \<and>
    (\<exists>status retired b'. abandonFront b = Some (status, retired, b') \<and>
      status = (if sb_inFlight b then Retire_ActionInFlight
                else if works b = [] then Retire_Empty else Retire_Retired) \<and>
      (if status = Retire_Retired
       then works b' = tl (works b) \<and> re_work retired = sw_workIdentity (hd (works b)) \<and>
         re_table retired = sw_table (hd (works b)) \<and>
         re_userContext retired = sw_userContext (hd (works b))
       else b' = b \<and> retired = newRetirement)) \<and>
    (\<exists>b'. reset b = Some (\<not> sb_inFlight b, b') \<and>
      (if sb_inFlight b then b' = b
       else works b' = [] \<and> entry b' = Map.empty \<and> sb_pollState b' = newPollPlannerState))"
proof (intro conjI)
  note ok = deployed_ok [OF assms]
  from discard_spec [OF ok, of session] show "\<exists>status retired b'. discardOneStaleWork b session = Some (status, retired, b') \<and>
      status = (if sb_inFlight b then Retire_ActionInFlight
                else if works b = [] then Retire_Empty
                else if workCurrent (sw_workIdentity (hd (works b))) session then Retire_WorkStillCurrent
                else Retire_Retired) \<and>
      (if status = Retire_Retired
       then works b' = tl (works b) \<and> re_work retired = sw_workIdentity (hd (works b)) \<and>
         re_table retired = sw_table (hd (works b)) \<and>
         re_userContext retired = sw_userContext (hd (works b))
       else b' = b \<and> retired = newRetirement)"
    by (auto split: if_splits)
  from abandonFront_spec [OF ok] show "\<exists>status retired b'. abandonFront b = Some (status, retired, b') \<and>
      status = (if sb_inFlight b then Retire_ActionInFlight
                else if works b = [] then Retire_Empty else Retire_Retired) \<and>
      (if status = Retire_Retired
       then works b' = tl (works b) \<and> re_work retired = sw_workIdentity (hd (works b)) \<and>
         re_table retired = sw_table (hd (works b)) \<and>
         re_userContext retired = sw_userContext (hd (works b))
       else b' = b \<and> retired = newRetirement)"
    by (auto split: if_splits)
  from reset_spec [OF ok] show "\<exists>b'. reset b = Some (\<not> sb_inFlight b, b') \<and>
      (if sb_inFlight b then b' = b
       else works b' = [] \<and> entry b' = Map.empty \<and> sb_pollState b' = newPollPlannerState)" by blast
qed

lemma retirement_exact_witness:
  "\<exists>retired b'. abandonFront example_loaded = Some (Retire_Retired, retired, b') \<and> works b' = [] \<and>
     re_work retired = iw_identity example_work"
  using retirement_exact [OF example_loaded_deployed, THEN conjunct2, THEN conjunct1]
  by (auto simp: example_loaded(2,3) newWorkSlot_def split: if_splits)

text \<open>
  C4. The client loop drains the queue. Start from a bridge without an action in flight whose
  queued works are current and readable, allow at least one forward write between polls, and
  let the polls offered in every iteration be requests the executor accepts. Whatever the
  clock, the polls and the executor do, as long as its outcomes are known ones, the loop
  returns after at most two iterations per queued value and one more, with an empty queue;
  the executor ran exactly the dispatched actions, in order, and each of them was a valid
  request. If all outcomes are \<open>Applied\<close>, the values put on the bus are exactly the snapshots
  of the queued works, in queue order, each value once and at the endpoint and address its
  route gives, with nothing in between.
\<close>

theorem client_loop_drains:
  assumes "deployed b" "\<not> actionInFlight b" "snapshots_held m b" "all_current b session"
    and "po_maxConsecutiveForwards (sb_pollPlanner b) \<noteq> 0"
    and "\<And>i. polls_valid (polls i)" "\<And>r s. isKnownDownstreamOutcome (fst (exec r s))"
  shows "\<exists>actions b'. drive m session ctx clock polls exec i s b =
      Some (actions, executed exec actions s, b') \<and>
    works b' = [] \<and> \<not> actionInFlight b' \<and> length actions \<le> 2 * workload b + 1 \<and>
    (\<forall>a \<in> set actions. dispatchable a) \<and>
    ((\<forall>r s. fst (exec r s) = Outcome_Applied) \<longrightarrow> bus_trace m actions = owed m b)"
proof -
  have "serving m session b"
    using assms(2-5) deployed_ok [OF assms(1)] by (simp add: serving_def actionInFlight_def)
  moreover have "turns b \<le> 2 * workload b + 1" by (simp add: turns_def)
  ultimately show ?thesis
    using drive_drains [where exec = exec and polls = polls and m = m and session = session and b = b
        and clock = clock and i = i and s = s and ctx = ctx, OF _ assms(6,7)]
    by (fastforce simp: serving_def actionInFlight_def)
qed

lemma admission_fixed:
  "admitWork T b work session context = Some (adm, b') \<Longrightarrow>
     sb_forwardPlanner b' = sb_forwardPlanner b \<and> sb_pollPlanner b' = sb_pollPlanner b"
  by (auto simp: admitWork_def advanceRevision_def Let_def split_beta elim!: bind_SomeE split: if_splits)

lemma example_planner_kept: "sb_forwardPlanner example_loaded = example_planner"
    "sb_pollPlanner example_loaded = newPollPlannerOptions"
  using example_loaded(1) unfolding admitHoldingWork_def
  by (auto simp: example_bridge_def newBridge_def dest!: admission_fixed)

lemma example_owed: "owed example_payload example_loaded =
   [(HoldingRegisters, Some (4, 2), 11), (HoldingRegisters, Some (4, 3), 12),
    (HoldingRegisters, Some (9, 20), 13), (HoldingRegisters, Some (9, 21), 14),
    (HoldingRegisters, Some (9, 22), 15)]"
  unfolding owed_def example_loaded(2) example_planner_kept by code_simp

lemma example_serving:
  "\<not> actionInFlight example_loaded" "all_current example_loaded example_session"
  "po_maxConsecutiveForwards (sb_pollPlanner example_loaded) \<noteq> 0"
proof -
  have "workCurrent (iw_identity example_work) example_session" by code_simp
  then show "all_current example_loaded example_session"
    by (simp add: all_current_def example_loaded(2) newWorkSlot_def)
qed (simp_all add: actionInFlight_def example_loaded(3) example_planner_kept newPollPlannerOptions_def)

lemma client_loop_drains_witness:
  "\<exists>actions b'. drive example_payload example_session Null (\<lambda>i. of_nat i) (\<lambda>i. [])
     (\<lambda>r n. (Outcome_Applied, Suc n)) 0 0 example_loaded =
       Some (actions, executed (\<lambda>r n. (Outcome_Applied, Suc n)) actions 0, b') \<and> works b' = [] \<and>
     bus_trace example_payload actions =
       [(HoldingRegisters, Some (4, 2), 11), (HoldingRegisters, Some (4, 3), 12),
        (HoldingRegisters, Some (9, 20), 13), (HoldingRegisters, Some (9, 21), 14),
        (HoldingRegisters, Some (9, 22), 15)]"
  using client_loop_drains [where exec = "\<lambda>r n. (Outcome_Applied, Suc n)" and polls = "\<lambda>i. []"
      and clock = "\<lambda>i. of_nat i" and i = 0 and s = 0 and ctx = Null,
      OF example_loaded_deployed example_serving(1) example_loaded_held example_serving(2,3)]
  by (auto simp: polls_valid_def example_owed)

end
