(* ===== verification/Master_Backend.thy ===== *)
theory Master_Backend
  imports Downstream_Executor
begin

text \<open>
  Model of \<open>adapters/ModbusRTUMasterBackend.h\<close>. The master library is not part of this
  repository: its eight methods and \<open>getExceptionResponse\<close> are the fields of a record
  that the adapter takes as an argument.
\<close>

type_synonym ('m, 'r) master_bits = "u8 \<Rightarrow> u16 \<Rightarrow> bool ptr \<Rightarrow> u16 \<Rightarrow> 'm \<Rightarrow> 'r \<times> 'm"
type_synonym ('m, 'r) master_words = "u8 \<Rightarrow> u16 \<Rightarrow> u16 ptr \<Rightarrow> u16 \<Rightarrow> 'm \<Rightarrow> 'r \<times> 'm"

record ('m, 'r) Master =
  ms_getExceptionResponse :: "'m \<Rightarrow> u8"
  ms_readCoils :: "('m, 'r) master_bits"
  ms_readDiscreteInputs :: "('m, 'r) master_bits"
  ms_readHoldingRegisters :: "('m, 'r) master_words"
  ms_readInputRegisters :: "('m, 'r) master_words"
  ms_writeSingleCoil :: "u8 \<Rightarrow> u16 \<Rightarrow> bool \<Rightarrow> 'm \<Rightarrow> 'r \<times> 'm"
  ms_writeSingleHoldingRegister :: "u8 \<Rightarrow> u16 \<Rightarrow> u16 \<Rightarrow> 'm \<Rightarrow> 'r \<times> 'm"
  ms_writeMultipleCoils :: "('m, 'r) master_bits"
  ms_writeMultipleHoldingRegisters :: "('m, 'r) master_words"

record 'r ModbusRTUMasterResultCodes =
  rx_invalidQuantity :: 'r
  rx_invalidBuffer :: 'r
  rx_invalidOperation :: 'r

definition ModbusRTUMasterBackend ::
  "('m, 'r) Master \<Rightarrow> 'r ModbusRTUMasterResultCodes \<Rightarrow> ('m, 'r) Backend" where
  "ModbusRTUMasterBackend m codes =
     \<lparr>bk_invalidQuantityResult = (\<lambda>_. rx_invalidQuantity codes),
      bk_invalidBufferResult = (\<lambda>_. rx_invalidBuffer codes),
      bk_invalidOperationResult = (\<lambda>_. rx_invalidOperation codes),
      bk_exceptionCode = ms_getExceptionResponse m,
      bk_readCoils = (\<lambda>r. ms_readCoils m (dr_endpointId r) (dr_startAddress r)
        (dr_coilBuffer r) (dr_quantity r)),
      bk_readDiscreteInputs = (\<lambda>r. ms_readDiscreteInputs m (dr_endpointId r)
        (dr_startAddress r) (dr_coilBuffer r) (dr_quantity r)),
      bk_readHoldingRegisters = (\<lambda>r. ms_readHoldingRegisters m (dr_endpointId r)
        (dr_startAddress r) (dr_registerBuffer r) (dr_quantity r)),
      bk_readInputRegisters = (\<lambda>r. ms_readInputRegisters m (dr_endpointId r)
        (dr_startAddress r) (dr_registerBuffer r) (dr_quantity r)),
      bk_writeSingleCoil = (\<lambda>r. ms_writeSingleCoil m (dr_endpointId r)
        (dr_startAddress r) (dr_coilValue r)),
      bk_writeSingleHoldingRegister = (\<lambda>r. ms_writeSingleHoldingRegister m (dr_endpointId r)
        (dr_startAddress r) (dr_registerValue r)),
      bk_writeMultipleCoils = (\<lambda>r. ms_writeMultipleCoils m (dr_endpointId r)
        (dr_startAddress r) (dr_coilBuffer r) (dr_quantity r)),
      bk_writeMultipleHoldingRegisters = (\<lambda>r. ms_writeMultipleHoldingRegisters m
        (dr_endpointId r) (dr_startAddress r) (dr_registerBuffer r) (dr_quantity r))\<rparr>"

section \<open>Calls of the master\<close>

text \<open>
  A master whose methods only record the call: the method by its operation, the endpoint, the
  address, and the transferred data.
\<close>

datatype master_data =
  Coil_buffer "bool ptr" u16 | Register_buffer "u16 ptr" u16 | Coil_value bool | Register_value u16

type_synonym master_log = "(DownstreamOperation \<times> u8 \<times> u16 \<times> master_data) list"

definition recording_master :: "(master_log \<Rightarrow> u8) \<Rightarrow> 'r \<Rightarrow> (master_log, 'r) Master" where
  "recording_master exception ok =
     (let bits = (\<lambda>operation e a p n log. (ok, log @ [(operation, e, a, Coil_buffer p n)]));
          words = (\<lambda>operation e a p n log. (ok, log @ [(operation, e, a, Register_buffer p n)]))
      in \<lparr>ms_getExceptionResponse = exception,
          ms_readCoils = bits ReadCoils,
          ms_readDiscreteInputs = bits ReadDiscreteInputs,
          ms_readHoldingRegisters = words ReadHoldingRegisters,
          ms_readInputRegisters = words ReadInputRegisters,
          ms_writeSingleCoil =
            (\<lambda>e a x log. (ok, log @ [(WriteSingleCoil, e, a, Coil_value x)])),
          ms_writeSingleHoldingRegister =
            (\<lambda>e a x log. (ok, log @ [(WriteSingleHoldingRegister, e, a, Register_value x)])),
          ms_writeMultipleCoils = bits WriteMultipleCoils,
          ms_writeMultipleHoldingRegisters = words WriteMultipleHoldingRegisters\<rparr>)"

text \<open>The data a request transfers, by its operation.\<close>

definition transferred :: "DownstreamRequest \<Rightarrow> master_data" where
  "transferred r =
     (if dr_operation r = WriteSingleCoil then Coil_value (dr_coilValue r)
      else if dr_operation r = WriteSingleHoldingRegister
      then Register_value (dr_registerValue r)
      else if dr_operation r \<in> {ReadCoils, ReadDiscreteInputs, WriteMultipleCoils}
      then Coil_buffer (dr_coilBuffer r) (dr_quantity r)
      else Register_buffer (dr_registerBuffer r) (dr_quantity r))"

text \<open>
  C23. Through the adapter a valid request reaches the master as one call of the method its
  operation names, with the endpoint, address and data of the request, and the completion
  carries the master's result and its exception code after that call; a rejected request
  does not reach the master and completes with the matching result code.
\<close>

theorem adapter_forwards_once:
  "executeDownstreamRequest (ModbusRTUMasterBackend (recording_master exception ok) codes) r log =
     (case validateDownstreamRequest r of
        Request_Valid \<Rightarrow>
          (let log' = log @ [(dr_operation r, dr_endpointId r, dr_startAddress r, transferred r)]
           in (\<lparr>dk_sequence = dr_sequence r, dk_result = ok, dk_exceptionCode = exception log'\<rparr>, log'))
      | Request_InvalidQuantity \<Rightarrow> (\<lparr>dk_sequence = dr_sequence r,
          dk_result = rx_invalidQuantity codes, dk_exceptionCode = 0\<rparr>, log)
      | Request_InvalidBuffer \<Rightarrow> (\<lparr>dk_sequence = dr_sequence r,
          dk_result = rx_invalidBuffer codes, dk_exceptionCode = 0\<rparr>, log)
      | Request_InvalidOperation \<Rightarrow> (\<lparr>dk_sequence = dr_sequence r,
          dk_result = rx_invalidOperation codes, dk_exceptionCode = 0\<rparr>, log))"
proof (cases "validateDownstreamRequest r")
  case Request_Valid
  then show ?thesis
    by (cases "dr_operation r")
      (simp_all add: executeDownstreamRequest_def executeValidatedDownstreamRequest_def
        ModbusRTUMasterBackend_def recording_master_def transferred_def
        validateDownstreamRequest_def Let_def)
qed (simp_all add: executeDownstreamRequest_def ModbusRTUMasterBackend_def)

end
