(* ===== verification/Spec2Isabelle.thy ===== *)
theory Spec2Isabelle
  imports Route_Properties Poll_Properties Ledger_Properties Applied_Images Bridge_Properties Master_Backend
begin

text \<open>
  Verification of the Modbus RTU store-and-forward bridge library
  (\<open>src/include/modbus_rtu_bridge\<close>, a header-only C++11 library).

  THE PROGRAM. An upstream Modbus master writes coils or holding registers into a bridge, and the
  bridge forwards the writes to endpoints behind it, between polls of those endpoints. A write
  becomes an ingress work (\<open>IngressWork.h\<close>): an identity of source token and session
  generation, an address range, a delivery class and a borrowed immutable snapshot. The route
  table (\<open>RouteTable.h\<close>) maps upstream address ranges to endpoints and downstream addresses.
  The forward planner (\<open>ForwardPlan.h\<close>) checks a work against the table and cuts it into
  planned write requests, one endpoint and one quantity limit each. The completion transition
  (\<open>CompletionTransition.h\<close>) resolves one finished request against the aggregate of its work,
  decides notice and image, and updates the applied image of \<open>CacheImage.h\<close>. The ledger
  (\<open>CompletionLedger.h\<close>) holds the aggregates of all live works. The poll planner
  (\<open>PollPlanner.h\<close>) arbitrates between forward writes and due polls. The facade
  (\<open>StoreForwardBridge.h\<close>) joins a ring queue of works (\<open>FixedStorage.h\<close>), the ledger, the
  forward planner and the poll planner: the client admits works, asks for the next action,
  admits it, executes its request through \<open>DownstreamExecutor.h\<close> on a backend such as the
  adapter of \<open>adapters/ModbusRTUMasterBackend.h\<close>, and reports the outcome.

  THE THEORIES AND THE CODE. One theory holds the model of each header, with the names of the code:
    Bridge_Prelude          integer widths, pointers, memories, the meaning of \<open>None\<close>
    Ingress_Work            \<open>IngressWork.h\<close>
    Route_Table             \<open>RouteTable.h\<close>, properties in Route_Properties
    Cache_Image             \<open>CacheImage.h\<close>
    Fixed_Storage           \<open>FixedStorage.h\<close>
    Downstream_Executor     \<open>DownstreamExecutor.h\<close>
    Master_Backend          \<open>adapters/ModbusRTUMasterBackend.h\<close>
    Forward_Plan            \<open>ForwardPlan.h\<close>, properties in Forward_Properties
    Completion_Transition   \<open>CompletionTransition.h\<close>
    Completion_Ledger       \<open>CompletionLedger.h\<close>, properties in Ledger_Properties
    Poll_Planner            \<open>PollPlanner.h\<close>, properties in Poll_Properties
    Store_Forward_Bridge    \<open>StoreForwardBridge.h\<close>
  On top of the facade: Bridge_Invariant and Bridge_Operations (the invariant and every operation),
  Bridge_Delivery (what a request puts on the bus), Client_Loop (the client loop),
  Bridge_Properties (the facade properties), Applied_Images (planner, transition and images
  together), and this theory (queue, executor, adapter and master together).

  HOW THE CODE IS MODELLED. A struct or class is a record, an enumeration a datatype; where the code
  handles values outside of the enumerators (its \<open>default\<close> branches), the datatype has a
  constructor \<open>Other...\<close> for them. \<open>uint8_t\<close>, \<open>uint16_t\<close> and \<open>uint32_t\<close> are words of that width
  and wrap as in C++; the \<open>int16_t\<close> indices of \<open>RouteTableView::locate\<close> are 16-bit words read as
  signed, and promotions to \<open>uint32_t\<close> are written as casts. An object's state is passed in and
  returned. Reference out parameters are further components of the result. A pointer is null or a
  block and an offset; the typed memories map blocks to lists, so aliasing and bounds are visible. A
  borrowed array of routes, slots or candidates is \<open>None\<close> for a null pointer and otherwise the list
  of its elements, whose length is independent of the count passed next to it. The result type is an
  option where the code can read or write such storage or loop: \<open>None\<close> is an execution that C++ does
  not define (an access outside of an array, an overlapping \<open>memcpy\<close>) or one that does not return;
  \<open>locate_step\<close> tells the two apart for the search of \<open>locate\<close>.
  Ordinary failures are the status values of the code. The two instances of each template over
  \<open>bool\<close> and \<open>uint16_t\<close> are one definition over a record of traits, as \<open>WorkTraits\<close> is in the code.
  The comparison functions \<open>same...\<close> are modelled field by field and shown to be equality.

  BOUNDS AND TERMINATION. No fuel is used. Loops over a counter are \<open>function\<close>s with a measure
  (\<open>validate_row\<close>, \<open>scan_slots\<close>, \<open>clear_slots\<close>, \<open>abandon_loop\<close>, \<open>due_loop\<close>). Loops whose end depends on data
  (\<open>locate_loop\<close>, \<open>inspect_loop\<close>, \<open>drain\<close>, \<open>reset_loop\<close>) and the client loops (\<open>plan_all\<close>, \<open>drive\<close>)
  are partial functions into options, and their termination is proved as the existence of a result.
  The one numeric restriction is \<open>searchable\<close>: a validated table of at most 32767 routes. It is
  necessary: \<open>locate_loses_long_tables\<close> and \<open>locate_reads_out_of_bounds\<close> show that the signed 16-bit
  indices of \<open>locate\<close> fail for the longer tables that \<open>validate\<close> accepts: with 32768 routes a
  search reaches a read outside of the array, with more it finds nothing.

  INTERFACES. Each is a locale with an interpretation on the model: \<open>bounded_queue\<close> and
  \<open>updatable_queue\<close> (the ring queue is a bounded list whose front can be replaced),
  \<open>write_traits\<close> (what a value type promises the planner; extended by \<open>queued_traits\<close> for the
  facade, \<open>wire_traits\<close> for the bus and \<open>image_traits\<close> for the applied image; all interpreted for
  coils and holding registers) and \<open>work_ledger\<close> (the ledger is a bounded map from works to slots;
  the facade's proofs use only its laws).

  WHAT IS SHOWN. Route table: validation accepts exactly the well-formed tables, the binary search is
  a linear scan, spans are classified exactly and tiled by their segments. Queue and ledger:
  refinement of a bounded list and of a bounded map for every script of operations, with the ledger's
  own bounds. Planner: exact classification of works, and complete, ordered, in-route plans. Completion: exactly
  the next completion of a work is accepted, one notice per tracked work, the applied image
  follows the outcome. Polls: exact selection, bounded forward bursts, every due poll is served.
  Executor and adapter: one call per valid request, none otherwise. Facade, for every state
  that calls reach from construction: the invariant between queue, ledger and the action in
  flight; no call gets stuck; offered actions that are well formed and carry the next values of the
  front work or the request of the first due candidate; exact admission of works and actions;
  completion exactly once; exact retirement; first in, first out over whole runs; and the drain of the queue by the client
  loop under any poll load, clock and outcomes, where with successful outcomes the values on
  the bus are the snapshots of the queued works. Applied_Images and this theory join components:
  a planned and confirmed work ends in the applied image, and the master behind the adapter receives
  the queue.

  WHAT THE CALLER OWES, as hypotheses: snapshots of queued works stay readable (\<open>snapshots_held\<close>), a
  candidate array has the announced length (\<open>polls_backed\<close>), images and snapshots do not overlap
  (\<open>separate\<close>), and the route table has been validated. These are the ownership rules of the public API
  guide. The drain also needs current sessions (\<open>all_current\<close>), at least one forward write
  between polls, and candidates whose requests the executor accepts (\<open>polls_valid\<close>): with
  \<open>maxConsecutiveForwards = 0\<close> due polls have priority by design, and a malformed due candidate makes
  \<open>nextAction\<close> report \<open>InvalidPollRequest\<close> until the caller changes it.

  NOT MODELLED. The ModbusRTUMaster library is not in the repository; it is the record \<open>Master\<close>, an
  argument of the adapter, and the end-to-end theorem instantiates it by a master that records
  its calls. The native tests, the performance harness and the package metadata hold no bridge
  logic. Concurrency is excluded by the documentation (the caller serializes all calls). Deleted copy
  operations and typedefs have no behaviour of their own, and trivial
  getters that only return a field are the record selectors.
\<close>

section \<open>From the queue to the master\<close>

text \<open>
  The executor of a deployment: a request goes through the adapter to the master, and the
  client classifies the completion into a terminal outcome.
\<close>

definition adapter_executor ::
  "('m, 'r) Master \<Rightarrow> 'r ModbusRTUMasterResultCodes \<Rightarrow> ('r DownstreamCompletion \<Rightarrow> DownstreamOutcome) \<Rightarrow>
     'm executor" where
  "adapter_executor master codes classify r s =
     (let (completion, s') = executeDownstreamRequest (ModbusRTUMasterBackend master codes) r s
      in (classify completion, s'))"

text \<open>The call that the master gets for a request, and the values such a call writes.\<close>

definition master_call :: "DownstreamRequest \<Rightarrow> DownstreamOperation \<times> u8 \<times> u16 \<times> master_data" where
  "master_call r = (dr_operation r, dr_endpointId r, dr_startAddress r, transferred r)"

fun call_words :: "memory \<Rightarrow> DownstreamOperation \<Rightarrow> master_data \<Rightarrow> u16 list" where
  "call_words m WriteSingleCoil (Coil_value x) = [coil_word x]"
| "call_words m WriteSingleHoldingRegister (Register_value x) = [x]"
| "call_words m WriteMultipleCoils (Coil_buffer p n) = read_words (mm_coils m) coil_word p n"
| "call_words m WriteMultipleHoldingRegisters (Register_buffer p n) = read_words (mm_registers m) id p n"
| "call_words m _ _ = []"

fun call_writes :: "memory \<Rightarrow> DownstreamOperation \<times> u8 \<times> u16 \<times> master_data \<Rightarrow> bus_write list" where
  "call_writes m (operation, e, a, d) =
     map (\<lambda>k. (written_table operation, Some (e, unat a + k), call_words m operation d ! k))
       [0..<length (call_words m operation d)]"

lemma master_call_writes: "call_writes m (master_call r) = wire_writes m r"
  by (cases "dr_operation r")
    (simp_all add: master_call_def transferred_def wire_writes_def sent_words_def)

lemma adapter_executes_valid:
  assumes "validateDownstreamRequest r = Request_Valid"
  shows "snd (adapter_executor (recording_master exception ok) codes classify r log) = log @ [master_call r]"
  using assms
  by (cases "dr_operation r")
    (simp_all add: adapter_executor_def executeDownstreamRequest_def executeValidatedDownstreamRequest_def
      ModbusRTUMasterBackend_def recording_master_def transferred_def master_call_def
      validateDownstreamRequest_def Let_def)

lemma executed_adapter:
  assumes "\<forall>a \<in> set actions. dispatchable a"
  shows "executed (adapter_executor (recording_master exception ok) codes classify) actions log =
    log @ map (master_call \<circ> ac_downstream) (filter ac_requiresCompletion actions)"
  using assms
  by (induction actions arbitrary: log) (simp_all add: adapter_executes_valid dispatchable_def)

text \<open>
  C3. From the queue to the master, end to end. Let the client loop run over the adapter with
  whatever completions the master gives, classified by the client into known outcomes. The
  master then gets, after whatever it got before, one call per dispatched action, in order. If
  every outcome is \<open>Applied\<close>, the write calls transfer exactly the snapshots of the queued
  works, in queue order, each value once and at its routed endpoint and address.
\<close>

theorem master_receives_queue:
  assumes "deployed b" "\<not> actionInFlight b" "snapshots_held m b" "all_current b session"
    and "po_maxConsecutiveForwards (sb_pollPlanner b) \<noteq> 0"
    and "\<And>i. polls_valid (polls i)" "\<And>k. isKnownDownstreamOutcome (classify k)"
  shows "\<exists>actions calls b'.
    drive m session ctx clock polls
      (adapter_executor (recording_master exception ok) codes classify) i log b =
      Some (actions, log @ calls, b') \<and>
    works b' = [] \<and>
    calls = map (master_call \<circ> ac_downstream) (filter ac_requiresCompletion actions) \<and>
    ((\<forall>k. classify k = Outcome_Applied) \<longrightarrow> concat (map (call_writes m) calls) = owed m b)"
proof -
  let ?exec = "adapter_executor (recording_master exception ok) codes classify"
  have known: "isKnownDownstreamOutcome (fst (?exec r s))" for r s
    by (simp add: adapter_executor_def split_beta assms(7))
  have applied: "fst (?exec r s) = Outcome_Applied" if "\<forall>k. classify k = Outcome_Applied" for r s
    using that by (simp add: adapter_executor_def split_beta)
  obtain actions b' where d: "drive m session ctx clock polls ?exec i log b =
      Some (actions, executed ?exec actions log, b')" "works b' = []"
    "\<forall>a \<in> set actions. dispatchable a"
    "(\<forall>r s. fst (?exec r s) = Outcome_Applied) \<longrightarrow> bus_trace m actions = owed m b"
    using drive_drains [where exec = ?exec and polls = polls and m = m and session = session and b = b
        and clock = clock and i = i and s = log and ctx = ctx, OF _ assms(6) known]
      assms(2-5) deployed_ok [OF assms(1)]
    by (auto simp: serving_def actionInFlight_def)
  have "concat (map (call_writes m) (map (master_call \<circ> ac_downstream) (filter ac_requiresCompletion actions))) =
      bus_trace m actions"
    by (simp add: bus_trace_def master_call_writes comp_def)
  with d applied show ?thesis unfolding executed_adapter [OF d(3)] by auto
qed

lemma master_receives_queue_witness:
  "\<exists>actions calls b'.
    drive example_payload example_session Null (\<lambda>i. of_nat i) (\<lambda>i. [])
      (adapter_executor (recording_master (\<lambda>_. 0) (0 :: u8))
         \<lparr>rx_invalidQuantity = 1, rx_invalidBuffer = 2, rx_invalidOperation = 3\<rparr>
         (\<lambda>_. Outcome_Applied)) 0 [] example_loaded = Some (actions, calls, b') \<and>
    concat (map (call_writes example_payload) calls) =
       [(HoldingRegisters, Some (4, 2), 11), (HoldingRegisters, Some (4, 3), 12),
        (HoldingRegisters, Some (9, 20), 13), (HoldingRegisters, Some (9, 21), 14),
        (HoldingRegisters, Some (9, 22), 15)]"
  using master_receives_queue [where polls = "\<lambda>i. []" and classify = "\<lambda>_. Outcome_Applied"
      and clock = "\<lambda>i. of_nat i" and i = 0 and log = "[]" and ctx = Null and exception = "\<lambda>_. 0"
      and ok = "0 :: u8"
      and codes = "\<lparr>rx_invalidQuantity = 1, rx_invalidBuffer = 2, rx_invalidOperation = 3\<rparr>",
      OF example_loaded_deployed example_serving(1) example_loaded_held example_serving(2,3)]
  by (auto simp: polls_valid_def example_owed)

end
